(* ===== verification/JRT_Prelude.thy ===== *)
theory JRT_Prelude
  imports Main "HOL-Library.Word"
begin

text \<open>
  Shared vocabulary of the development: machine integers, the counting loop of the C code
  (\<open>for (i = 0U; i < n; i++)\<close>), and the generic lemmas on words the components use.
\<close>

unbundle bit_operations_syntax

section \<open>Machine integers\<close>

type_synonym u8 = "8 word"
type_synonym u32 = "32 word"
type_synonym u64 = "64 word"

abbreviation (input) UINT32_MAX :: u32 where
  "UINT32_MAX \<equiv> 0xFFFFFFFF"

text \<open>A C pointer on the 32-bit target is a 32-bit address; the null pointer is 0.\<close>

type_synonym addr = u32

abbreviation (input) NULL :: addr where
  "NULL \<equiv> 0"

text \<open>The C conversion \<open>(int32_t)x\<close> followed by a comparison with 0.\<close>

definition int32 :: "u32 \<Rightarrow> int" where
  "int32 x = sint x"

named_theorems kdefs \<open>definitions of the straight-line kernel operations\<close>
named_theorems frame \<open>what an operation leaves unchanged\<close>

section \<open>Word lemmas\<close>

lemma unat_lt32: "unat (x :: u32) < 4294967296"
proof -
  have "unat x < 2 ^ 32" using unsigned_less [of x] by simp
  then show ?thesis by simp
qed

lemma unat_le32: "unat (x :: u32) \<le> 4294967295"
  using unat_lt32 [of x] by simp

lemma unat_of_nat32: "n < 4294967296 \<Longrightarrow> unat (word_of_nat n :: u32) = n"
  by (simp add: unsigned_of_nat take_bit_nat_eq_self)

lemma unat_add_small: "unat (x :: u32) + unat y < 4294967296 \<Longrightarrow> unat (x + y) = unat x + unat y"
  by (simp add: unat_word_ariths)

lemma unat_suc_small: "unat (x :: u32) < 4294967295 \<Longrightarrow> unat (x + 1) = unat x + 1"
  using unat_add_small [of x 1] by simp

lemma unat_mult_small: "unat (x :: u32) * unat y < 4294967296 \<Longrightarrow> unat (x * y) = unat x * unat y"
  by (simp add: unat_word_ariths)

lemma unat_sub32: "(y :: u32) \<le> x \<Longrightarrow> unat (x - y) = unat x - unat y"
  by (simp add: unat_sub)

lemma unat_div32: "unat ((x :: u32) div y) = unat x div unat y"
  by (rule unat_div)

lemma unat_mod32: "unat ((x :: u32) mod y) = unat x mod unat y"
  by (rule unat_mod)

lemma word_less_unat: "((x :: u32) < y) = (unat x < unat y)"
  by (rule word_less_nat_alt)

lemma word_le_unat: "((x :: u32) \<le> y) = (unat x \<le> unat y)"
  by (rule word_le_nat_alt)

lemma word_eq_unat: "((x :: u32) = y) = (unat x = unat y)"
  by (rule word_unat_eq_iff)

lemma word_neq_0_unat: "((x :: u32) \<noteq> 0) = (0 < unat x)"
  by (rule word_neq_0_conv [unfolded word_less_nat_alt, simplified])

lemma word_numeral_le_one [simp]: "(numeral n \<le> (1 :: u32)) = (unat (numeral n :: u32) \<le> 1)"
  by (simp only: word_le_unat unsigned_1)

section \<open>Counting loops\<close>

text \<open>
  \<open>for_upto n f s\<close> is the loop \<open>for (i = 0U; i < n; i++) f(i)\<close> over a 32-bit index: the
  index takes the values 0 to \<open>n - 1\<close> and never wraps, because \<open>n\<close> itself is a 32-bit value.
\<close>

definition indices :: "u32 \<Rightarrow> u32 list" where
  "indices n = map word_of_nat [0..<unat n]"

definition for_upto :: "u32 \<Rightarrow> (u32 \<Rightarrow> 's \<Rightarrow> 's) \<Rightarrow> 's \<Rightarrow> 's" where
  "for_upto n f s = fold f (indices n) s"

lemma length_indices [simp]: "length (indices n) = unat n"
  by (simp add: indices_def)

lemma set_indices [simp]: "set (indices n) = {i. i < n}"
proof -
  have "i \<in> word_of_nat ` {0..<unat n}" if "i < n" for i :: u32
  proof (rule image_eqI)
    show "i = word_of_nat (unat i)" by simp
    show "unat i \<in> {0..<unat n}" using that by (simp add: word_less_unat)
  qed
  moreover have "word_of_nat k < n" if "k < unat n" for k
    proof -
    have "unat (word_of_nat k :: u32) = k" using that unat_lt32 [of n] by (intro unat_of_nat32) linarith
    then show ?thesis using that by (simp only: word_less_unat)
  qed
  ultimately show ?thesis by (auto simp: indices_def)
qed

lemma distinct_indices [simp]: "distinct (indices n)"
proof -
  have "inj_on (word_of_nat :: nat \<Rightarrow> u32) (set [0..<unat n])"
    by (rule inj_on_inverseI [where g = unat], rule unat_of_nat32)
      (use unat_lt32 [of n] in simp)
  then show ?thesis by (simp add: indices_def distinct_map)
qed

text \<open>
  The invariant rule of a counting loop: \<open>P k s\<close> holds before the iteration with index \<open>k\<close>.
\<close>

lemma for_upto_induct [consumes 0, case_names base step]:
  assumes base: "P 0 s0"
    and step: "\<And>k s. k < unat n \<Longrightarrow> word_of_nat k < n \<Longrightarrow> unat (word_of_nat k :: u32) = k \<Longrightarrow> P k s
      \<Longrightarrow> P (Suc k) (f (word_of_nat k) s)"
  shows "P (unat n) (for_upto n f s0)"
proof -
  have "P m (fold f (map word_of_nat [0..<m]) s0)" if "m \<le> unat n" for m
    using that
  proof (induction m)
    case 0
    then show ?case by (simp add: base)
  next
    case (Suc m)
    then have "P m (fold f (map word_of_nat [0..<m]) s0)" and m: "m < unat n" by simp_all
    moreover have u: "unat (word_of_nat m :: u32) = m"
      using m unat_lt32 [of n] by (simp add: unat_of_nat32)
    moreover have "(word_of_nat m :: u32) < n" using m u by (simp add: word_less_unat)
    ultimately have "P (Suc m) (f (word_of_nat m) (fold f (map word_of_nat [0..<m]) s0))"
      by (intro step) auto
    then show ?case by simp
  qed
  then show ?thesis by (simp add: for_upto_def indices_def)
qed

text \<open>A loop whose every iteration keeps a property keeps it.\<close>

lemma for_upto_invariant:
  assumes "P s0" and "\<And>i s. i < n \<Longrightarrow> P s \<Longrightarrow> P (f i s)"
  shows "P (for_upto n f s0)"
  by (rule for_upto_induct [where P = "\<lambda>_. P"]) (use assms in auto)

lemma for_upto_frame [frame]:
  assumes "\<And>i s. g (f i s) = g s"
  shows "g (for_upto n f s0) = g s0"
  by (rule for_upto_invariant [where P = "\<lambda>s. g s = g s0"]) (use assms in auto)

lemma fold_fun_upd_distinct:
  "distinct xs \<Longrightarrow> fold (\<lambda>i h. h(i := v i (h i))) xs h = (\<lambda>j. if j \<in> set xs then v j (h j) else h j)"
  by (induction xs arbitrary: h) (auto simp: fun_eq_iff)

text \<open>A loop that updates the cell of its index only, from that cell only.\<close>

lemma for_upto_fun_upd:
  "for_upto n (\<lambda>i h. h(i := v i (h i))) h = (\<lambda>j. if j < n then v j (h j) else h j)"
  by (simp add: for_upto_def fold_fun_upd_distinct)

end
