(* ===== verification/JRT_Types.thy ===== *)
theory JRT_Types
  imports JRT_Prelude
begin

text \<open>
  The data of the kernel as the headers declare it: \<open>kernel/kernel.h\<close>, \<open>kernel/sync.h\<close>,
  \<open>kernel/timer.h\<close>, \<open>kernel/mempool.h\<close>, \<open>kernel/benchmark.h\<close>, the task control block of
  \<open>kernel/task.c\<close>, and the configuration of \<open>JRTConfig.h\<close>. Field names carry a prefix for
  their structure (\<open>t_\<close> task, \<open>m_\<close> mutex, \<open>q_\<close> queue, \<open>tm_\<close> timer, and so on). Every
  \<open>uint32_t\<close> is a 32-bit word and every pointer its address; a C string is a \<open>string\<close>.
\<close>

section \<open>Status codes and enumerations (kernel.h)\<close>

datatype JRT_Status_t =
    JRT_STATUS_OK
  | JRT_STATUS_INVALID_CONFIG
  | JRT_STATUS_TOO_MANY_TASKS
  | JRT_STATUS_INVALID_ENTRY
  | JRT_STATUS_INVALID_STACK
  | JRT_STATUS_INVALID_MEMORY_REGION
  | JRT_STATUS_NOT_INITIALIZED
  | JRT_STATUS_INVALID_TASK
  | JRT_STATUS_INVALID_STATE
  | JRT_STATUS_INVALID_CONTEXT
  | JRT_STATUS_INVALID_PRIORITY

text \<open>The numeric value of a status, as it is written to a stacked \<open>r0\<close>.\<close>

fun status_code :: "JRT_Status_t \<Rightarrow> u32" where
  "status_code JRT_STATUS_OK = 0"
| "status_code JRT_STATUS_INVALID_CONFIG = 1"
| "status_code JRT_STATUS_TOO_MANY_TASKS = 2"
| "status_code JRT_STATUS_INVALID_ENTRY = 3"
| "status_code JRT_STATUS_INVALID_STACK = 4"
| "status_code JRT_STATUS_INVALID_MEMORY_REGION = 5"
| "status_code JRT_STATUS_NOT_INITIALIZED = 6"
| "status_code JRT_STATUS_INVALID_TASK = 7"
| "status_code JRT_STATUS_INVALID_STATE = 8"
| "status_code JRT_STATUS_INVALID_CONTEXT = 9"
| "status_code JRT_STATUS_INVALID_PRIORITY = 10"

text \<open>
  The state of a task is a \<open>uint32_t\<close> of the control block, not an enumeration, so that
  the invariant check can find a value out of range; the states are its named values.
\<close>

abbreviation (input) JRT_TASK_STATE_READY :: u32 where "JRT_TASK_STATE_READY \<equiv> 0"
abbreviation (input) JRT_TASK_STATE_RUNNING :: u32 where "JRT_TASK_STATE_RUNNING \<equiv> 1"
abbreviation (input) JRT_TASK_STATE_SLEEPING :: u32 where "JRT_TASK_STATE_SLEEPING \<equiv> 2"
abbreviation (input) JRT_TASK_STATE_BLOCKED :: u32 where "JRT_TASK_STATE_BLOCKED \<equiv> 3"
abbreviation (input) JRT_TASK_STATE_SUSPENDED :: u32 where "JRT_TASK_STATE_SUSPENDED \<equiv> 4"

datatype task_wait_kind_t =
    TASK_WAIT_NONE
  | TASK_WAIT_SEMAPHORE
  | TASK_WAIT_QUEUE_SEND
  | TASK_WAIT_QUEUE_RECEIVE
  | TASK_WAIT_MUTEX
  | TASK_WAIT_NOTIFICATION
  | TASK_WAIT_EVENT_GROUP
  | TASK_WAIT_TIMER_SERVICE

fun wait_kind_code :: "task_wait_kind_t \<Rightarrow> u32" where
  "wait_kind_code TASK_WAIT_NONE = 0"
| "wait_kind_code TASK_WAIT_SEMAPHORE = 1"
| "wait_kind_code TASK_WAIT_QUEUE_SEND = 2"
| "wait_kind_code TASK_WAIT_QUEUE_RECEIVE = 3"
| "wait_kind_code TASK_WAIT_MUTEX = 4"
| "wait_kind_code TASK_WAIT_NOTIFICATION = 5"
| "wait_kind_code TASK_WAIT_EVENT_GROUP = 6"
| "wait_kind_code TASK_WAIT_TIMER_SERVICE = 7"

text \<open>The enumeration is compared by value in C: \<open>wait_kind > TASK_WAIT_TIMER_SERVICE\<close>.\<close>

instantiation task_wait_kind_t :: linorder
begin

definition less_eq_task_wait_kind_t :: "task_wait_kind_t \<Rightarrow> task_wait_kind_t \<Rightarrow> bool" where
  "less_eq_task_wait_kind_t a b = (wait_kind_code a \<le> wait_kind_code b)"

definition less_task_wait_kind_t :: "task_wait_kind_t \<Rightarrow> task_wait_kind_t \<Rightarrow> bool" where
  "less_task_wait_kind_t a b = (wait_kind_code a < wait_kind_code b)"

instance
proof
  fix a b c :: task_wait_kind_t
  show "(a < b) = (a \<le> b \<and> \<not> b \<le> a)"
    by (auto simp: less_eq_task_wait_kind_t_def less_task_wait_kind_t_def)
  show "a \<le> a" by (simp add: less_eq_task_wait_kind_t_def)
  show "a \<le> b \<Longrightarrow> b \<le> c \<Longrightarrow> a \<le> c" by (simp add: less_eq_task_wait_kind_t_def)
  show "a \<le> b \<or> b \<le> a" by (auto simp: less_eq_task_wait_kind_t_def)
  show "a \<le> b \<Longrightarrow> b \<le> a \<Longrightarrow> a = b"
    by (cases a; cases b) (simp_all add: less_eq_task_wait_kind_t_def)
qed

end

lemma wait_kind_max: "k \<le> TASK_WAIT_TIMER_SERVICE"
  by (cases k) (simp_all add: less_eq_task_wait_kind_t_def)

datatype JRT_KernelInvariantCode_t =
    JRT_INVARIANT_NONE
  | JRT_INVARIANT_TASK_STATE
  | JRT_INVARIANT_BLOCKED_WAIT_OBJECT
  | JRT_INVARIANT_BLOCKED_WAIT_KIND
  | JRT_INVARIANT_NONBLOCKED_WAIT_METADATA
  | JRT_INVARIANT_MUTEX_LIST_CYCLE
  | JRT_INVARIANT_MUTEX_UNLOCKED_STATE
  | JRT_INVARIANT_MUTEX_OWNER
  | JRT_INVARIANT_MUTEX_RECURSION
  | JRT_INVARIANT_TIMER_LIST_CYCLE
  | JRT_INVARIANT_TIMER_PERIODIC_STATE

datatype JRT_FatalReason_t =
    JRT_FATAL_PROCESSOR_FAULT
  | JRT_FATAL_KERNEL_INVARIANT
  | JRT_FATAL_STACK_OVERFLOW

fun fatal_reason_code :: "JRT_FatalReason_t \<Rightarrow> u32" where
  "fatal_reason_code JRT_FATAL_PROCESSOR_FAULT = 1"
| "fatal_reason_code JRT_FATAL_KERNEL_INVARIANT = 2"
| "fatal_reason_code JRT_FATAL_STACK_OVERFLOW = 3"

record JRT_FaultRecord_t =
  fr_r0 :: u32
  fr_r1 :: u32
  fr_r2 :: u32
  fr_r3 :: u32
  fr_r12 :: u32
  fr_lr :: u32
  fr_pc :: u32
  fr_xpsr :: u32
  fr_exc_return :: u32
  fr_cfsr :: u32
  fr_hfsr :: u32
  fr_dfsr :: u32
  fr_mmfar :: u32
  fr_bfar :: u32
  fr_afsr :: u32
  fr_fault_type :: u32

section \<open>Task definitions and the task control block\<close>

record JRT_TaskDefinition_t =
  d_entry :: addr
  d_argument :: addr
  d_stack_buffer :: addr
  d_stack_words :: u32
  d_stack_guard :: addr
  d_priority :: u32
  d_name :: string
  d_flags :: u32
  d_private_data_base :: addr
  d_private_data_size :: u32
  d_benchmark_period_ticks :: u32

text \<open>
  \<open>JRT_KernelConfig_t\<close>: the task array is read by index up to \<open>task_count\<close>; \<open>k_tasks_ptr\<close> is
  the array's address, which the code only compares with null.
\<close>

record JRT_KernelConfig_t =
  k_tasks_ptr :: addr
  k_tasks :: "u32 \<Rightarrow> JRT_TaskDefinition_t"
  k_task_count :: u32

record task_t =
  t_stack_bottom :: addr
  t_stack_top :: addr
  t_sp :: addr
  t_state :: u32
  t_sleep_ticks :: u32
  t_run_count :: u32
  t_minimum_sp :: addr
  t_high_water_words :: u32
  t_entry :: addr
  t_argument :: addr
  t_priority :: u32
  t_base_priority :: u32
  t_name :: string
  t_flags :: u32
  t_private_data_base :: addr
  t_private_data_size :: u32
  t_wait_object :: addr
  t_wait_kind :: task_wait_kind_t
  t_wait_start :: u32
  t_wait_deadline :: u32
  t_wait_forever :: u32
  t_wait_result :: u32
  t_notification_value :: u32
  t_event_wait_bits :: u32
  t_event_wait_all :: u32
  t_event_clear_on_exit :: u32

record task_wait_deadline_t =
  dl_start :: u32
  dl_tick :: u32
  dl_forever :: u32

record JRT_TaskStackInfo_t =
  si_stack_words :: u32
  si_used_words :: u32
  si_minimum_sp :: u32
  si_current_sp :: u32

section \<open>Synchronization objects, timers, pools\<close>

abbreviation (input) JRT_WAIT_FOREVER :: u32 where
  "JRT_WAIT_FOREVER \<equiv> UINT32_MAX"

abbreviation (input) JRT_TASK_ID_SELF :: u32 where
  "JRT_TASK_ID_SELF \<equiv> UINT32_MAX"

abbreviation (input) JRT_TASK_FLAG_UNPRIVILEGED :: u32 where
  "JRT_TASK_FLAG_UNPRIVILEGED \<equiv> 1"

record JRT_Semaphore_t =
  sem_available :: u32

record JRT_Mutex_t =
  m_locked :: u32
  m_owner :: u32
  m_recursion :: u32
  m_next :: addr

record JRT_Queue_t =
  q_storage :: addr
  q_capacity :: u32
  q_item_size :: u32
  q_head :: u32
  q_tail :: u32
  q_count :: u32
  q_send_reservations :: u32
  q_receive_reservations :: u32

record JRT_EventGroup_t =
  eg_bits :: u32

record JRT_Timer_t =
  tm_deadline :: u32
  tm_period :: u32
  tm_reload_ticks :: u32
  tm_expirations :: u32
  tm_active :: u8
  tm_periodic :: u8
  tm_callback :: addr
  tm_argument :: addr
  tm_next :: addr

record JRT_MemoryPool_t =
  mp_storage :: addr
  mp_used_bitmap :: addr
  mp_block_size :: u32
  mp_block_count :: u32

record JRT_TaskBenchmarkRecord_t =
  b_release_count :: u32
  b_completion_count :: u32
  b_coalesced_count :: u32
  b_release_cycle :: u32
  b_activation_start_cycle :: u32
  b_max_release_latency_cycles :: u32
  b_max_activation_cycles :: u32
  b_period_cycles :: u32
  b_release_pending :: u8
  b_activation_active :: u8

section \<open>Configuration (JRTConfig.h, the target build, the linker script)\<close>

text \<open>
  The compile-time settings and the linker symbols are constants of an image, so they are a
  record that no operation changes. \<open>JRT_ARCH_*\<close> come from the target's build; \<open>ld_*\<close> are
  addresses the linker assigns to symbols and to the kernel's own static objects.
\<close>

record jrt_config =
  JRT_CORE_CLOCK_HZ :: u32
  JRT_TICK_RATE_HZ :: u32
  JRT_MAX_APPLICATION_TASKS :: u32
  JRT_DEFAULT_TASK_STACK_WORDS :: u32
  JRT_IDLE_STACK_WORDS :: u32
  JRT_TIMER_SERVICE_STACK_WORDS :: u32
  JRT_MAX_TASK_PRIORITY :: u32
  JRT_TIMER_SERVICE_PRIORITY :: u32
  JRT_ENABLE_TASK_BENCHMARK :: u32
  JRT_ENABLE_TEST_HOOKS :: u32
  JRT_ARCH_HAS_DWT_CYCCNT :: u32
  JRT_ARCH_HAS_MPU :: u32
  JRT_ARCH_FPU_CONTEXT :: u32
  ld_tasks :: addr
  ld_timer_service_wait_object :: addr
  ld_idle_task_storage :: addr
  ld_timer_service_task_storage :: addr
  ld_idle_body :: addr
  ld_timer_service_body :: addr
  ld_task_exit_trap :: addr
  ld_task_private_data_start :: addr
  ld_task_private_data_end :: addr
  ld_unprivileged_functions_start :: addr
  ld_unprivileged_functions_end :: addr
  ld_unprivileged_svc_start :: addr
  ld_unprivileged_svc_end :: addr
  ld_unprivileged_rodata_start :: addr
  ld_unprivileged_rodata_end :: addr
  ld_unprivileged_task_data_start :: addr
  ld_unprivileged_task_data_end :: addr

abbreviation (input) JRT_INITIAL_STACK_USED_WORDS :: u32 where
  "JRT_INITIAL_STACK_USED_WORDS \<equiv> 17"

abbreviation (input) JRT_TASK_GUARD_WORDS :: u32 where
  "JRT_TASK_GUARD_WORDS \<equiv> 8"

abbreviation (input) JRT_TASK_STACK_FILL :: u32 where
  "JRT_TASK_STACK_FILL \<equiv> 0xA5A5A5A5"

abbreviation (input) JRT_INTERNAL_TASK_COUNT :: u32 where
  "JRT_INTERNAL_TASK_COUNT \<equiv> 2"

abbreviation (input) JRT_MAX_KERNEL_TASKS :: u32 where
  "JRT_MAX_KERNEL_TASKS \<equiv> 3"

definition JRT_MINIMUM_TASK_STACK_WORDS :: "jrt_config \<Rightarrow> u32" where
  "JRT_MINIMUM_TASK_STACK_WORDS c =
     (if JRT_ARCH_FPU_CONTEXT c \<noteq> 0 then JRT_INITIAL_STACK_USED_WORDS + 16 + 18
      else JRT_INITIAL_STACK_USED_WORDS)"

definition JRT_MAX_SCHEDULER_TASKS :: "jrt_config \<Rightarrow> u32" where
  "JRT_MAX_SCHEDULER_TASKS c = JRT_MAX_APPLICATION_TASKS c + JRT_MAX_KERNEL_TASKS"

definition JRT_SYSTICK_RELOAD :: "jrt_config \<Rightarrow> u32" where
  "JRT_SYSTICK_RELOAD c = JRT_CORE_CLOCK_HZ c div JRT_TICK_RATE_HZ c - 1"

definition stack_words_check :: "jrt_config \<Rightarrow> u32 \<Rightarrow> bool" where
  "stack_words_check c w \<longleftrightarrow>
     \<not> w < JRT_MINIMUM_TASK_STACK_WORDS c \<and> w AND 1 = 0 \<and> \<not> w > UINT32_MAX div 4"

text \<open>
  The \<open>#error\<close> checks of \<open>kernel.h\<close>: a configuration that passes them compiles. The
  "must fit in uint32_t" checks hold by the type.
\<close>

definition config_checks :: "jrt_config \<Rightarrow> bool" where
  "config_checks c \<longleftrightarrow>
     JRT_CORE_CLOCK_HZ c \<noteq> 0
   \<and> JRT_TICK_RATE_HZ c \<noteq> 0
   \<and> \<not> JRT_TICK_RATE_HZ c > JRT_CORE_CLOCK_HZ c
   \<and> \<not> JRT_CORE_CLOCK_HZ c div JRT_TICK_RATE_HZ c - 1 > 0x00FFFFFF
   \<and> JRT_MAX_APPLICATION_TASKS c \<noteq> 0
   \<and> \<not> JRT_MAX_APPLICATION_TASKS c > UINT32_MAX - 3
   \<and> stack_words_check c (JRT_DEFAULT_TASK_STACK_WORDS c)
   \<and> stack_words_check c (JRT_IDLE_STACK_WORDS c)
   \<and> stack_words_check c (JRT_TIMER_SERVICE_STACK_WORDS c)
   \<and> JRT_MAX_TASK_PRIORITY c \<noteq> 0
   \<and> JRT_TIMER_SERVICE_PRIORITY c \<noteq> 0
   \<and> \<not> JRT_TIMER_SERVICE_PRIORITY c > JRT_MAX_TASK_PRIORITY c
   \<and> \<not> (JRT_ENABLE_TEST_HOOKS c \<noteq> 0 \<and> JRT_ENABLE_TEST_HOOKS c \<noteq> 1)
   \<and> (JRT_ENABLE_TASK_BENCHMARK c = 0 \<or> JRT_ENABLE_TASK_BENCHMARK c = 1)
   \<and> (JRT_ARCH_HAS_DWT_CYCCNT c = 0 \<or> JRT_ARCH_HAS_DWT_CYCCNT c = 1)
   \<and> \<not> (JRT_ENABLE_TASK_BENCHMARK c \<noteq> 0 \<and> JRT_ARCH_HAS_DWT_CYCCNT c = 0)"

text \<open>The bundled \<open>JRTConfig.h\<close> on a target without MPU, FPU and cycle counter (QEMU Cortex-M3).\<close>

definition default_config :: jrt_config where
  "default_config = \<lparr>
     JRT_CORE_CLOCK_HZ = 120000000, JRT_TICK_RATE_HZ = 7500,
     JRT_MAX_APPLICATION_TASKS = 7, JRT_DEFAULT_TASK_STACK_WORDS = 128,
     JRT_IDLE_STACK_WORDS = 128, JRT_TIMER_SERVICE_STACK_WORDS = 128,
     JRT_MAX_TASK_PRIORITY = 31, JRT_TIMER_SERVICE_PRIORITY = 1,
     JRT_ENABLE_TASK_BENCHMARK = 0, JRT_ENABLE_TEST_HOOKS = 0, JRT_ARCH_HAS_DWT_CYCCNT = 0,
     JRT_ARCH_HAS_MPU = 0, JRT_ARCH_FPU_CONTEXT = 0,
     ld_tasks = 0x20000000, ld_timer_service_wait_object = 0x20001000,
     ld_idle_task_storage = 0x20002000, ld_timer_service_task_storage = 0x20003000,
     ld_idle_body = 0x1000, ld_timer_service_body = 0x1100, ld_task_exit_trap = 0x1200,
     ld_task_private_data_start = 0x20008000, ld_task_private_data_end = 0x20009000,
     ld_unprivileged_functions_start = 0x2000, ld_unprivileged_functions_end = 0x2400,
     ld_unprivileged_svc_start = 0x2400, ld_unprivileged_svc_end = 0x2440,
     ld_unprivileged_rodata_start = 0x2440, ld_unprivileged_rodata_end = 0x2480,
     ld_unprivileged_task_data_start = 0x20004000, ld_unprivileged_task_data_end = 0x20006000 \<rparr>"

lemma config_checks_default: "config_checks default_config"
  by (simp add: config_checks_def default_config_def stack_words_check_def
      JRT_MINIMUM_TASK_STACK_WORDS_def)

end
