(* ===== verification/JRT_State.thy ===== *)
theory JRT_State
  imports JRT_Types
begin

text \<open>
  The global state: one record level per source file, each adding that file's static
  variables, so that a kernel state has all of them as fields. The object stores
  (\<open>semaphores\<close>, \<open>mutexes\<close>, \<open>queues\<close>, \<open>event_groups\<close>, \<open>timers\<close>, \<open>pools\<close>) hold the
  application's statically allocated objects by address, one typed store per structure;
  \<open>mem32\<close> holds the words of task stacks and pool bitmaps and \<open>mem8\<close> the bytes of queue
  storage and of items. The array \<open>tasks\<close> is indexed by task ID.
\<close>

text \<open>
  \<open>mmio\<close> holds the memory-mapped system registers by address; the MPU's \<open>RBAR\<close> and \<open>RASR\<close>
  are banked by the region number in \<open>RNR\<close>. A write of \<open>PENDSVSET\<close> to \<open>ICSR\<close> sets
  \<open>pendsv_pending\<close>. \<open>ipsr\<close> is the number of the active exception, 0 in Thread mode.
\<close>

section \<open>CPU, MPU and port diagnostics (arch/cortex\_m/port\_cm7.c, kernel/fatal.c)\<close>

record arch_state =
  cfg :: jrt_config
  primask :: u32
  ipsr :: u32
  pendsv_pending :: bool
  mmio :: "addr \<Rightarrow> u32"
  mpu_rnr :: u32
  mpu_rbar :: "u32 \<Rightarrow> u32"
  mpu_rasr :: "u32 \<Rightarrow> u32"
  tick_hook :: addr
  g_critical_entries :: u32
  g_critical_nesting :: u32
  g_critical_nesting_max :: u32
  g_svc_invalid_service :: u32
  g_svc_invalid_context :: u32
  g_mpu_stack_guard_base :: u32
  g_mpu_stack_guard_updates :: u32
  g_mpu_private_data_base :: u32
  g_mpu_private_data_size :: u32
  g_mpu_private_data_updates :: u32
  g_fatal_active :: u32
  g_fatal_reason :: u32
  g_fatal_hook_returned :: u32
  g_fault_record :: JRT_FaultRecord_t
  g_fault_active :: u32

section \<open>Benchmark records (kernel/benchmark.c)\<close>

record bench_state = arch_state +
  benchmark_records :: "u32 \<Rightarrow> JRT_TaskBenchmarkRecord_t"
  benchmark_cycle_counter_available :: u32
  benchmark_task_count :: u32
  benchmark_cycle_frequency_hz :: u32
  benchmark_initialized :: u32

section \<open>Scheduler (kernel/task.c)\<close>

text \<open>
  \<open>current_task\<close> is a pointer into \<open>tasks\<close>; the model holds the index it points to. The code
  keeps it beside \<open>g_current_task_index\<close>, and so does the model.
\<close>

record sched_state = bench_state +
  tasks :: "u32 \<Rightarrow> task_t"
  current_task :: u32
  task_count :: u32
  application_task_count :: u32
  kernel_initialized :: u32
  kernel_started :: u32
  timer_service_task_index :: u32
  g_current_task_index :: u32
  g_kernel_ticks :: u32
  g_idle_kicks :: u32
  g_context_switches :: u32
  mem32 :: "addr \<Rightarrow> u32"

record diag_state = sched_state +
  g_ready_scan_depth_max :: u32
  g_sched_pass1_iters_total :: u32
  g_sched_pass2_iters_total :: u32
  g_sched_pass2_iters_max :: u32
  g_wait_timeout_semaphore :: u32
  g_wait_timeout_queue_send :: u32
  g_wait_timeout_queue_receive :: u32
  g_wait_timeout_mutex :: u32
  g_stack_fault :: u32
  g_stack_fault_task :: u32
  g_stack_fault_sp :: u32
  g_stack_high_water_words :: u32
  g_stack_high_water_task :: u32
  g_kernel_invariant_active :: u32
  g_kernel_invariant_code :: JRT_KernelInvariantCode_t
  g_kernel_invariant_task :: u32
  g_kernel_invariant_object :: u32
  g_kernel_invariant_aux :: u32
  g_kernel_invariant_tick :: u32

section \<open>Synchronization (kernel/sync.c), events, timers, pools\<close>

record sync_state = diag_state +
  semaphores :: "addr \<Rightarrow> JRT_Semaphore_t"
  mutexes :: "addr \<Rightarrow> JRT_Mutex_t"
  mutex_list :: addr
  queues :: "addr \<Rightarrow> JRT_Queue_t"
  mem8 :: "addr \<Rightarrow> u8"
  g_sync_context_misuse :: u32
  g_sync_misuse_semaphore_take :: u32
  g_sync_misuse_semaphore_give :: u32
  g_sync_misuse_semaphore_give_from_isr :: u32
  g_sync_misuse_mutex_lock :: u32
  g_sync_misuse_mutex_unlock :: u32
  g_sync_misuse_queue_send :: u32
  g_sync_misuse_queue_receive :: u32
  g_sync_misuse_queue_send_from_isr :: u32
  g_isr_queue_send_attempted :: u32
  g_isr_queue_send_accepted :: u32
  g_isr_queue_send_dropped :: u32
  g_isr_queue_count_high_water :: u32

record kstate = sync_state +
  event_groups :: "addr \<Rightarrow> JRT_EventGroup_t"
  timers :: "addr \<Rightarrow> JRT_Timer_t"
  timer_list :: addr
  pools :: "addr \<Rightarrow> JRT_MemoryPool_t"

section \<open>Results\<close>

text \<open>
  A function that may reach \<open>kernel_fatal\<close> returns \<open>Inl s\<close> when the processor is in the
  permanent halt loop in state \<open>s\<close>, and \<open>Inr\<close> of its result otherwise. A blocking call
  returns \<open>None\<close> when the caller has been blocked and is at its \<open>arch_yield\<close>: the code after
  the yield is a definition of its own, run when the scheduler selects the task again.
  A loop over a linked list that may be cyclic returns \<open>None\<close> when it does not end.
\<close>

type_synonym 'a halting = "kstate + 'a"
type_synonym 'a blocking = "'a option \<times> kstate"

section \<open>All zero: the state after reset\<close>

text \<open>The startup code clears the kernel's data, so every static variable starts at 0.\<close>

definition zero_task :: task_t where
  "zero_task = \<lparr>
     t_stack_bottom = 0, t_stack_top = 0, t_sp = 0, t_state = 0, t_sleep_ticks = 0,
     t_run_count = 0, t_minimum_sp = 0, t_high_water_words = 0, t_entry = 0, t_argument = 0,
     t_priority = 0, t_base_priority = 0, t_name = [], t_flags = 0, t_private_data_base = 0,
     t_private_data_size = 0, t_wait_object = 0, t_wait_kind = TASK_WAIT_NONE,
     t_wait_start = 0, t_wait_deadline = 0, t_wait_forever = 0, t_wait_result = 0,
     t_notification_value = 0, t_event_wait_bits = 0, t_event_wait_all = 0,
     t_event_clear_on_exit = 0 \<rparr>"

definition zero_bench_record :: JRT_TaskBenchmarkRecord_t where
  "zero_bench_record = \<lparr>
     b_release_count = 0, b_completion_count = 0, b_coalesced_count = 0, b_release_cycle = 0,
     b_activation_start_cycle = 0, b_max_release_latency_cycles = 0,
     b_max_activation_cycles = 0, b_period_cycles = 0, b_release_pending = 0,
     b_activation_active = 0 \<rparr>"

definition zero_timer :: JRT_Timer_t where
  "zero_timer = \<lparr> tm_deadline = 0, tm_period = 0, tm_reload_ticks = 0, tm_expirations = 0,
     tm_active = 0, tm_periodic = 0, tm_callback = 0, tm_argument = 0, tm_next = 0 \<rparr>"

definition zero_queue :: JRT_Queue_t where
  "zero_queue = \<lparr> q_storage = 0, q_capacity = 0, q_item_size = 0, q_head = 0, q_tail = 0,
     q_count = 0, q_send_reservations = 0, q_receive_reservations = 0 \<rparr>"

definition zero_fault_record :: JRT_FaultRecord_t where
  "zero_fault_record = \<lparr> fr_r0 = 0, fr_r1 = 0, fr_r2 = 0, fr_r3 = 0, fr_r12 = 0, fr_lr = 0,
     fr_pc = 0, fr_xpsr = 0, fr_exc_return = 0, fr_cfsr = 0, fr_hfsr = 0, fr_dfsr = 0,
     fr_mmfar = 0, fr_bfar = 0, fr_afsr = 0, fr_fault_type = 0 \<rparr>"

definition reset_state :: "jrt_config \<Rightarrow> kstate" where
  "reset_state c = \<lparr>
     cfg = c, primask = 0, ipsr = 0, pendsv_pending = False, mmio = (\<lambda>_. 0),
     mpu_rnr = 0, mpu_rbar = (\<lambda>_. 0), mpu_rasr = (\<lambda>_. 0), tick_hook = 0,
     g_critical_entries = 0, g_critical_nesting = 0, g_critical_nesting_max = 0,
     g_svc_invalid_service = 0, g_svc_invalid_context = 0, g_mpu_stack_guard_base = 0,
     g_mpu_stack_guard_updates = 0, g_mpu_private_data_base = 0, g_mpu_private_data_size = 0,
     g_mpu_private_data_updates = 0, g_fatal_active = 0, g_fatal_reason = 0,
     g_fatal_hook_returned = 0, g_fault_record = zero_fault_record, g_fault_active = 0,
     benchmark_records = (\<lambda>_. zero_bench_record), benchmark_cycle_counter_available = 0,
     benchmark_task_count = 0, benchmark_cycle_frequency_hz = 0, benchmark_initialized = 0,
     tasks = (\<lambda>_. zero_task), current_task = 0, task_count = 0, application_task_count = 0,
     kernel_initialized = 0, kernel_started = 0, timer_service_task_index = 0,
     g_current_task_index = 0, g_kernel_ticks = 0, g_idle_kicks = 0, g_context_switches = 0,
     mem32 = (\<lambda>_. 0),
     g_ready_scan_depth_max = 0, g_sched_pass1_iters_total = 0, g_sched_pass2_iters_total = 0,
     g_sched_pass2_iters_max = 0, g_wait_timeout_semaphore = 0, g_wait_timeout_queue_send = 0,
     g_wait_timeout_queue_receive = 0, g_wait_timeout_mutex = 0, g_stack_fault = 0,
     g_stack_fault_task = 0, g_stack_fault_sp = 0, g_stack_high_water_words = 0,
     g_stack_high_water_task = 0, g_kernel_invariant_active = 0,
     g_kernel_invariant_code = JRT_INVARIANT_NONE, g_kernel_invariant_task = 0,
     g_kernel_invariant_object = 0, g_kernel_invariant_aux = 0, g_kernel_invariant_tick = 0,
     semaphores = (\<lambda>_. \<lparr> sem_available = 0 \<rparr>),
     mutexes = (\<lambda>_. \<lparr> m_locked = 0, m_owner = 0, m_recursion = 0, m_next = 0 \<rparr>),
     mutex_list = 0, queues = (\<lambda>_. zero_queue), mem8 = (\<lambda>_. 0),
     g_sync_context_misuse = 0, g_sync_misuse_semaphore_take = 0,
     g_sync_misuse_semaphore_give = 0, g_sync_misuse_semaphore_give_from_isr = 0,
     g_sync_misuse_mutex_lock = 0, g_sync_misuse_mutex_unlock = 0,
     g_sync_misuse_queue_send = 0, g_sync_misuse_queue_receive = 0,
     g_sync_misuse_queue_send_from_isr = 0, g_isr_queue_send_attempted = 0,
     g_isr_queue_send_accepted = 0, g_isr_queue_send_dropped = 0,
     g_isr_queue_count_high_water = 0,
     event_groups = (\<lambda>_. \<lparr> eg_bits = 0 \<rparr>), timers = (\<lambda>_. zero_timer), timer_list = 0,
     pools = (\<lambda>_. \<lparr> mp_storage = 0, mp_used_bitmap = 0, mp_block_size = 0, mp_block_count = 0 \<rparr>) \<rparr>"

end
