(* ===== verification/JRT_Port.thy ===== *)
theory JRT_Port
  imports JRT_State
begin

text \<open>
  The Cortex-M port (\<open>arch/cortex_m/port_cm7.c\<close>, \<open>port_contract.h\<close>) and the fatal path
  (\<open>kernel/fatal.c\<close>): critical sections, switch requests, the initial task frame, the MPU
  regions and the conversion of milliseconds to ticks. The exception handlers, which call
  the kernel, are in theory \<open>JRT_Svc\<close>.
\<close>

section \<open>Registers\<close>

abbreviation (input) SYST_CSR :: addr where "SYST_CSR \<equiv> 0xE000E010"
abbreviation (input) SYST_RVR :: addr where "SYST_RVR \<equiv> 0xE000E014"
abbreviation (input) SYST_CVR :: addr where "SYST_CVR \<equiv> 0xE000E018"
abbreviation (input) SCB_SHPR3 :: addr where "SCB_SHPR3 \<equiv> 0xE000ED20"
abbreviation (input) SCB_SHCSR :: addr where "SCB_SHCSR \<equiv> 0xE000ED24"
abbreviation (input) SCB_CPACR :: addr where "SCB_CPACR \<equiv> 0xE000ED88"
abbreviation (input) FPU_FPCCR :: addr where "FPU_FPCCR \<equiv> 0xE000EF34"
abbreviation (input) COREDEBUG_DEMCR :: addr where "COREDEBUG_DEMCR \<equiv> 0xE000EDFC"
abbreviation (input) DWT_CTRL :: addr where "DWT_CTRL \<equiv> 0xE0001000"
abbreviation (input) DWT_CYCCNT :: addr where "DWT_CYCCNT \<equiv> 0xE0001004"
abbreviation (input) MPU_CTRL :: addr where "MPU_CTRL \<equiv> 0xE000ED94"

definition write_reg :: "addr \<Rightarrow> u32 \<Rightarrow> kstate \<Rightarrow> kstate" where [kdefs]:
  "write_reg r v s = s\<lparr>mmio := (mmio s)(r := v)\<rparr>"

section \<open>Critical sections, interrupts, context-switch requests\<close>

definition arch_in_isr :: "kstate \<Rightarrow> int" where [kdefs]:
  "arch_in_isr s = (if ipsr s \<noteq> 0 then 1 else 0)"

definition critical_enter :: "kstate \<Rightarrow> u32 \<times> kstate" where [kdefs]:
  "critical_enter s =
    (let saved_primask = primask s;
         s = s\<lparr>primask := 1\<rparr>;
         s = s\<lparr>g_critical_entries := g_critical_entries s + 1\<rparr>;
         s = s\<lparr>g_critical_nesting := g_critical_nesting s + 1\<rparr>;
         s = (if g_critical_nesting s > g_critical_nesting_max s
              then s\<lparr>g_critical_nesting_max := g_critical_nesting s\<rparr> else s)
     in (saved_primask, s))"

definition critical_exit :: "u32 \<Rightarrow> kstate \<Rightarrow> kstate" where [kdefs]:
  "critical_exit saved_primask s =
    (let s = (if g_critical_nesting s \<noteq> 0
              then s\<lparr>g_critical_nesting := g_critical_nesting s - 1\<rparr> else s)
     in s\<lparr>primask := saved_primask\<rparr>)"

definition arch_critical_enter :: "kstate \<Rightarrow> u32 \<times> kstate" where [kdefs]:
  "arch_critical_enter s = critical_enter s"

definition arch_critical_exit :: "u32 \<Rightarrow> kstate \<Rightarrow> kstate" where [kdefs]:
  "arch_critical_exit saved_primask s = critical_exit saved_primask s"

definition JRT_KernelSetTickHook :: "addr \<Rightarrow> kstate \<Rightarrow> kstate" where [kdefs]:
  "JRT_KernelSetTickHook hook s =
    (if JRT_ENABLE_TEST_HOOKS (cfg s) \<noteq> 0
     then (let (saved_primask, s) = critical_enter s;
               s = s\<lparr>tick_hook := hook\<rparr>
           in critical_exit saved_primask s)
     else s)"

definition request_switch :: "kstate \<Rightarrow> kstate" where [kdefs]:
  "request_switch s = s\<lparr>pendsv_pending := True\<rparr>"

definition arch_request_switch :: "kstate \<Rightarrow> kstate" where [kdefs]:
  "arch_request_switch s = request_switch s"

text \<open>
  \<open>arch_yield\<close> issues SVC 1, whose handler (\<open>svc_dispatch\<close> with the yield service) does
  nothing but pend the switch; the switch itself happens at the next PendSV.
\<close>

definition arch_yield :: "kstate \<Rightarrow> kstate" where [kdefs]:
  "arch_yield s = request_switch s"

definition arch_disable_interrupts :: "kstate \<Rightarrow> kstate" where [kdefs]:
  "arch_disable_interrupts s = s\<lparr>primask := 1\<rparr>"

text \<open>
  \<open>kernel_fatal\<close> with the default (weak) \<open>JRT_FatalErrorHook\<close>, which does nothing; it
  ends in the permanent halt loop, so its result is the state the processor halts in.
\<close>

definition JRT_FatalErrorHook :: "JRT_FatalReason_t \<Rightarrow> kstate \<Rightarrow> kstate" where [kdefs]:
  "JRT_FatalErrorHook reason s = s"

definition kernel_fatal :: "JRT_FatalReason_t \<Rightarrow> kstate \<Rightarrow> 'a halting" where [kdefs]:
  "kernel_fatal reason s =
    (let s = arch_disable_interrupts s;
         s = s\<lparr>g_fatal_reason := fatal_reason_code reason\<rparr>;
         s = s\<lparr>g_fatal_active := 1\<rparr>;
         s = JRT_FatalErrorHook reason s;
         s = s\<lparr>g_fatal_hook_returned := 1\<rparr>
     in Inl s)"

text \<open>\<open>fault_capture\<close> (\<open>arch/cortex_m/fault.c\<close>): the stacked frame is read as words.\<close>

definition fault_capture :: "addr \<Rightarrow> u32 \<Rightarrow> u32 \<Rightarrow> kstate \<Rightarrow> unit halting" where [kdefs]:
  "fault_capture stacked_frame exc_return fault_type s =
    (let frame = (\<lambda>i. mem32 s (stacked_frame + 4 * i));
         s = s\<lparr>g_fault_record := \<lparr>
           fr_r0 = frame 0, fr_r1 = frame 1, fr_r2 = frame 2, fr_r3 = frame 3,
           fr_r12 = frame 4, fr_lr = frame 5, fr_pc = frame 6, fr_xpsr = frame 7,
           fr_exc_return = exc_return,
           fr_cfsr = mmio s 0xE000ED28, fr_hfsr = mmio s 0xE000ED2C,
           fr_dfsr = mmio s 0xE000ED30, fr_mmfar = mmio s 0xE000ED34,
           fr_bfar = mmio s 0xE000ED38, fr_afsr = mmio s 0xE000ED3C,
           fr_fault_type = fault_type \<rparr>\<rparr>;
         s = s\<lparr>g_fault_active := 1\<rparr>
     in kernel_fatal JRT_FATAL_PROCESSOR_FAULT s)"

section \<open>The initial task frame\<close>

text \<open>\<open>*--stack = v\<close>\<close>

definition push_word :: "u32 \<Rightarrow> addr \<times> (addr \<Rightarrow> u32) \<Rightarrow> addr \<times> (addr \<Rightarrow> u32)" where
  "push_word v = (\<lambda>(stack, m). (stack - 4, m(stack - 4 := v)))"

abbreviation (input) ARCH_INITIAL_EXC_RETURN :: u32 where
  "ARCH_INITIAL_EXC_RETURN \<equiv> 0xFFFFFFFD"

definition arch_build_initial_stack :: "addr \<Rightarrow> addr \<Rightarrow> addr \<Rightarrow> kstate \<Rightarrow> addr \<times> kstate" where
  "arch_build_initial_stack stack_top entry argument s =
    (let (stack, m) = fold push_word
       ([0x01000000, entry AND NOT 1, ld_task_exit_trap (cfg s) OR 1, 0, 0, 0, 0, argument]
        @ replicate 8 0 @ [ARCH_INITIAL_EXC_RETURN]) (stack_top, mem32 s)
     in (stack, s\<lparr>mem32 := m\<rparr>))"

section \<open>The tick\<close>

definition tick_init :: "kstate \<Rightarrow> kstate" where [kdefs]:
  "tick_init s =
    (let s = write_reg SCB_SHPR3 ((mmio s SCB_SHPR3 AND 0x0000FFFF)
               OR push_bit 16 (push_bit 4 0x0F) OR push_bit 24 (push_bit 4 0x0E)) s;
         s = write_reg SYST_RVR (JRT_SYSTICK_RELOAD (cfg s)) s;
         s = write_reg SYST_CVR 0 s
     in write_reg SYST_CSR 4 s)"

definition arch_tick_init :: "kstate \<Rightarrow> kstate" where [kdefs]:
  "arch_tick_init s =
    (let s = (if JRT_ARCH_FPU_CONTEXT (cfg s) \<noteq> 0
       then (let s = write_reg SCB_CPACR (mmio s SCB_CPACR OR push_bit 20 0xF) s
             in write_reg FPU_FPCCR (mmio s FPU_FPCCR OR push_bit 31 1 OR push_bit 30 1) s)
       else s)
     in tick_init s)"

definition arch_tick_start :: "kstate \<Rightarrow> kstate" where [kdefs]:
  "arch_tick_start s =
    (let s = write_reg SYST_CVR 0 s
     in write_reg SYST_CSR (4 OR 2 OR 1) s)"

text \<open>
  \<open>JRT_MillisecondsToTicks\<close>; \<open>UL\<close> is 32 bits wide on the target, so every product and sum
  is a 32-bit one.
\<close>

definition JRT_MillisecondsToTicks :: "jrt_config \<Rightarrow> u32 \<Rightarrow> u32" where
  "JRT_MillisecondsToTicks c milliseconds =
    (let whole_seconds = milliseconds div 1000;
         remaining_milliseconds = milliseconds mod 1000
     in if whole_seconds > UINT32_MAX div JRT_TICK_RATE_HZ c then UINT32_MAX
        else
          let whole_ticks = whole_seconds * JRT_TICK_RATE_HZ c;
              remaining_ticks = remaining_milliseconds * (JRT_TICK_RATE_HZ c div 1000);
              fractional_ticks = remaining_milliseconds * (JRT_TICK_RATE_HZ c mod 1000);
              remaining_ticks = remaining_ticks + (fractional_ticks + 999) div 1000
          in if whole_ticks > UINT32_MAX - remaining_ticks then UINT32_MAX
             else whole_ticks + remaining_ticks)"

section \<open>MPU regions\<close>

text \<open>
  The two loops that size a region. Doubling a 32-bit size past \<open>2^31\<close> gives 0, from where
  the loops never end; \<open>None\<close> is that.
\<close>

partial_function (option) region_size_loop :: "u32 \<Rightarrow> u32 \<Rightarrow> u32 \<Rightarrow> (u32 \<times> u32) option" where
  "region_size_loop bytes region_size size_encoding =
    (if region_size < bytes
     then region_size_loop bytes (push_bit 1 region_size) (size_encoding + 1)
     else Some (region_size, size_encoding))"

partial_function (option) region_base_loop ::
  "addr \<Rightarrow> addr \<Rightarrow> addr \<Rightarrow> u32 \<Rightarrow> u32 \<Rightarrow> (addr \<times> u32 \<times> u32) option" where
  "region_base_loop start end_addr base region_size size_encoding =
    (if base + region_size < end_addr
     then region_base_loop start end_addr (start AND NOT (push_bit 1 region_size - 1))
            (push_bit 1 region_size) (size_encoding + 1)
     else Some (base, region_size, size_encoding))"

definition region_fit :: "addr \<Rightarrow> addr \<Rightarrow> (addr \<times> u32 \<times> u32) option" where
  "region_fit start end_addr =
    Option.bind (region_size_loop (end_addr - start) 32 4)
      (\<lambda>(region_size, size_encoding).
         region_base_loop start end_addr (start AND NOT (region_size - 1)) region_size size_encoding)"

definition write_region :: "u32 \<Rightarrow> u32 \<Rightarrow> u32 \<Rightarrow> kstate \<Rightarrow> kstate" where [kdefs]:
  "write_region region rbar rasr s =
     s\<lparr>mpu_rnr := region, mpu_rbar := (mpu_rbar s)(region := rbar),
       mpu_rasr := (mpu_rasr s)(region := rasr)\<rparr>"

definition disable_region :: "u32 \<Rightarrow> kstate \<Rightarrow> kstate" where [kdefs]:
  "disable_region region s = s\<lparr>mpu_rnr := region, mpu_rasr := (mpu_rasr s)(region := 0)\<rparr>"

definition configure_region_range :: "u32 \<Rightarrow> addr \<Rightarrow> addr \<Rightarrow> u32 \<Rightarrow> kstate \<Rightarrow> kstate halting" where
  "configure_region_range region start end_addr attributes s =
    (if end_addr \<le> start then Inr (disable_region region s)
     else case region_fit start end_addr of
       None \<Rightarrow> Inl s
     | Some (base, region_size, size_encoding) \<Rightarrow>
         Inr (write_region region base (attributes OR push_bit 1 size_encoding OR 1) s))"

text \<open>Access permissions and memory attributes of \<open>RASR\<close>.\<close>

definition privileged_flash_attributes :: u32 where
  "privileged_flash_attributes = push_bit 24 5 OR push_bit 17 1"

definition privileged_sram_attributes :: u32 where
  "privileged_sram_attributes =
     push_bit 24 1 OR push_bit 28 1 OR push_bit 19 1 OR push_bit 17 1 OR push_bit 16 1"

definition unprivileged_code_attributes :: u32 where
  "unprivileged_code_attributes = push_bit 24 6 OR push_bit 17 1"

definition unprivileged_rodata_attributes :: u32 where
  "unprivileged_rodata_attributes = push_bit 24 6 OR push_bit 28 1 OR push_bit 17 1"

definition unprivileged_data_attributes :: u32 where
  "unprivileged_data_attributes =
     push_bit 24 3 OR push_bit 28 1 OR push_bit 19 1 OR push_bit 17 1 OR push_bit 16 1"

fun configure_regions :: "(u32 \<times> addr \<times> addr \<times> u32) list \<Rightarrow> kstate \<Rightarrow> kstate halting" where
  "configure_regions [] s = Inr s"
| "configure_regions ((region, start, end_addr, attributes) # rs) s =
    (case configure_region_range region start end_addr attributes s of
       Inl s \<Rightarrow> Inl s
     | Inr s \<Rightarrow> configure_regions rs s)"

definition configure_memory_regions :: "kstate \<Rightarrow> kstate halting" where
  "configure_memory_regions s =
    (let c = cfg s in configure_regions
       [(0, 0x00400000, 0x00600000, privileged_flash_attributes),
        (1, 0x20400000, 0x20420000, privileged_sram_attributes),
        (2, ld_unprivileged_functions_start c, ld_unprivileged_functions_end c,
         unprivileged_code_attributes),
        (3, ld_unprivileged_svc_start c, ld_unprivileged_svc_end c, unprivileged_code_attributes),
        (4, ld_unprivileged_rodata_start c, ld_unprivileged_rodata_end c,
         unprivileged_rodata_attributes),
        (5, ld_unprivileged_task_data_start c, ld_unprivileged_task_data_end c,
         unprivileged_data_attributes)] s)"

abbreviation (input) MPU_TASK_PRIVATE_DATA_REGION :: u32 where "MPU_TASK_PRIVATE_DATA_REGION \<equiv> 14"
abbreviation (input) MPU_STACK_GUARD_REGION :: u32 where "MPU_STACK_GUARD_REGION \<equiv> 15"

definition program_private_region :: "addr \<Rightarrow> u32 \<Rightarrow> kstate \<Rightarrow> kstate halting" where
  "program_private_region base private_data_size s =
    (if JRT_ARCH_HAS_MPU (cfg s) = 0 then Inr s
     else if private_data_size = 0 then Inr (write_region MPU_TASK_PRIVATE_DATA_REGION 0 0 s)
     else case region_size_loop private_data_size 32 4 of
       None \<Rightarrow> Inl s
     | Some (represented_size, size_encoding) \<Rightarrow>
         Inr (write_region MPU_TASK_PRIVATE_DATA_REGION base
           (unprivileged_data_attributes OR push_bit 1 size_encoding OR 1) s))"

definition arch_set_task_private_data :: "addr \<Rightarrow> u32 \<Rightarrow> kstate \<Rightarrow> kstate halting" where
  "arch_set_task_private_data private_data_base private_data_size s =
    (if g_mpu_private_data_base s = private_data_base
        \<and> g_mpu_private_data_size s = private_data_size
     then Inr s
     else case program_private_region private_data_base private_data_size s of
       Inl s \<Rightarrow> Inl s
     | Inr s \<Rightarrow> Inr (s\<lparr>g_mpu_private_data_base := private_data_base,
         g_mpu_private_data_size := private_data_size,
         g_mpu_private_data_updates := g_mpu_private_data_updates s + 1\<rparr>))"

definition arch_set_task_stack_guard :: "addr \<Rightarrow> kstate \<Rightarrow> kstate" where [kdefs]:
  "arch_set_task_stack_guard guard_address s =
    (if g_mpu_stack_guard_base s = guard_address then s
     else
       let s = (if JRT_ARCH_HAS_MPU (cfg s) \<noteq> 0
                then write_region MPU_STACK_GUARD_REGION guard_address
                       (push_bit 28 1 OR push_bit 1 4 OR 1) s
                else s)
       in s\<lparr>g_mpu_stack_guard_base := guard_address,
            g_mpu_stack_guard_updates := g_mpu_stack_guard_updates s + 1\<rparr>)"

definition reset_mpu_diagnostics :: "kstate \<Rightarrow> kstate" where [kdefs]:
  "reset_mpu_diagnostics s = s\<lparr>g_mpu_stack_guard_base := 0, g_mpu_stack_guard_updates := 0,
     g_mpu_private_data_base := 0, g_mpu_private_data_size := 0,
     g_mpu_private_data_updates := 0\<rparr>"

definition install_task_regions :: "addr \<Rightarrow> addr \<Rightarrow> u32 \<Rightarrow> kstate \<Rightarrow> kstate halting" where
  "install_task_regions guard_address private_data_base private_data_size s =
    (case arch_set_task_private_data private_data_base private_data_size s of
       Inl s \<Rightarrow> Inl s
     | Inr s \<Rightarrow> Inr (arch_set_task_stack_guard guard_address s))"

definition arch_configure_mpu :: "addr \<Rightarrow> addr \<Rightarrow> u32 \<Rightarrow> kstate \<Rightarrow> kstate halting" where
  "arch_configure_mpu guard_address private_data_base private_data_size s =
    (if JRT_ARCH_HAS_MPU (cfg s) \<noteq> 0 then
       (let s = write_reg MPU_CTRL 0 s;
            s = write_reg SCB_SHCSR (mmio s SCB_SHCSR OR push_bit 16 1) s;
            s = for_upto 16 disable_region s
        in case configure_memory_regions s of
          Inl s \<Rightarrow> Inl s
        | Inr s \<Rightarrow>
            (case install_task_regions guard_address private_data_base private_data_size
                    (reset_mpu_diagnostics s) of
               Inl s \<Rightarrow> Inl s
             | Inr s \<Rightarrow> Inr (write_reg MPU_CTRL (1 OR 4) s)))
     else install_task_regions guard_address private_data_base private_data_size
            (reset_mpu_diagnostics s))"

section \<open>The cycle counter (JRT\_ENABLE\_TASK\_BENCHMARK)\<close>

definition arch_cycle_counter_available :: "kstate \<Rightarrow> int" where [kdefs]:
  "arch_cycle_counter_available s = (if mmio s DWT_CTRL AND push_bit 25 1 = 0 then 1 else 0)"

definition arch_cycle_counter_init :: "kstate \<Rightarrow> kstate" where [kdefs]:
  "arch_cycle_counter_init s =
    (if arch_cycle_counter_available s = 0 then s
     else
       let s = write_reg COREDEBUG_DEMCR (mmio s COREDEBUG_DEMCR OR push_bit 24 1) s
       in write_reg DWT_CTRL (mmio s DWT_CTRL OR 1) s)"

definition arch_cycle_counter_read :: "kstate \<Rightarrow> u32" where [kdefs]:
  "arch_cycle_counter_read s = mmio s DWT_CYCCNT"

text \<open>
  An operation that is one critical section changes, beside what its body changes, only the
  section counters; these are their values after the section.
\<close>

definition cs_nesting :: "kstate \<Rightarrow> u32" where
  "cs_nesting s = (if g_critical_nesting s + 1 \<noteq> 0 then g_critical_nesting s else 0)"

definition cs_nesting_max :: "kstate \<Rightarrow> u32" where
  "cs_nesting_max s = max (g_critical_nesting_max s) (g_critical_nesting s + 1)"

definition cs_enter :: "kstate \<Rightarrow> kstate" where
  "cs_enter s = s\<lparr>primask := 1, g_critical_entries := g_critical_entries s + 1,
     g_critical_nesting := g_critical_nesting s + 1, g_critical_nesting_max := cs_nesting_max s\<rparr>"

lemma arch_critical_enter_eq: "arch_critical_enter s = (primask s, cs_enter s)"
  by (auto simp: kdefs Let_def cs_enter_def cs_nesting_max_def max_def)

text \<open>\<open>cs_done s\<close> is \<open>s\<close> after an empty critical section.\<close>

definition cs_done :: "kstate \<Rightarrow> kstate" where
  "cs_done s = s\<lparr>g_critical_entries := g_critical_entries s + 1, g_critical_nesting := cs_nesting s,
     g_critical_nesting_max := cs_nesting_max s\<rparr>"

lemma critical_section_eq:
  "arch_critical_exit (primask s) (cs_enter s) =
     s\<lparr>g_critical_entries := g_critical_entries s + 1, g_critical_nesting := cs_nesting s,
       g_critical_nesting_max := cs_nesting_max s\<rparr>"
  by (simp add: kdefs Let_def cs_enter_def cs_nesting_def)

section \<open>Milliseconds to ticks\<close>

lemma ceil_split: "(m * r + 999) div 1000 =
  m div 1000 * r + (m mod 1000 * (r div 1000) + (m mod 1000 * (r mod 1000) + 999) div 1000)" for m r :: nat
proof -
  obtain a b c d where m: "a = m div 1000" "b = m mod 1000" and r: "c = r div 1000" "d = r mod 1000"
    by blast
  have "m = 1000 * a + b" and r': "r = 1000 * c + d" using m r by simp_all
  then have "m * r = 1000 * (a * r) + b * (1000 * c + d)"
    by (simp only: distrib_right mult.assoc)
  then have "m * r + 999 = 1000 * (a * r + b * c) + (b * d + 999)"
    by (simp only: distrib_left mult.left_commute [of b] add.assoc)
  then show ?thesis unfolding m [symmetric] r [symmetric] by simp
qed

text \<open>C39: \<open>JRT_MillisecondsToTicks\<close> is the exact number of ticks rounded up, saturated at
  \<open>UINT32_MAX\<close>: none of its 32-bit products and sums wraps, for every tick rate.\<close>

theorem ms_to_ticks:
  assumes "JRT_TICK_RATE_HZ c \<noteq> 0"
  shows "unat (JRT_MillisecondsToTicks c ms) =
    min (unat UINT32_MAX) ((unat ms * unat (JRT_TICK_RATE_HZ c) + 999) div 1000)"
proof -
  define m r where "m = unat ms" and "r = unat (JRT_TICK_RATE_HZ c)"
  define s q where "s = m div 1000" and "q = m mod 1000"
  define x where "x = q * (r div 1000)"
  define y where "y = (q * (r mod 1000) + 999) div 1000"
  have r: "0 < r" "r \<le> 4294967295" using assms unat_le32 by (auto simp: r_def word_neq_0_unat)
  have q: "q \<le> 999" and r1: "r div 1000 \<le> 4294967" and r2: "r mod 1000 \<le> 999"
    using r by (auto simp: q_def)
  have x: "x \<le> 999 * 4294967" unfolding x_def using q r1 by (rule mult_le_mono)
  have f: "q * (r mod 1000) \<le> 999 * 999" using q r2 by (rule mult_le_mono)
  then have y: "y \<le> 998 + 1" by (simp add: y_def)
  have ceil: "(m * r + 999) div 1000 = s * r + (x + y)"
    unfolding s_def q_def x_def y_def by (rule ceil_split)
  have us: "unat (ms div 1000) = s" and uq: "unat (ms mod 1000) = q"
    by (simp_all add: s_def q_def m_def unat_div32 unat_mod32)
  have ur: "unat (JRT_TICK_RATE_HZ c mod 1000) = r mod 1000"
      "unat (JRT_TICK_RATE_HZ c div 1000) = r div 1000"
    by (simp_all add: r_def unat_mod32 unat_div32)
  have uf: "unat (ms mod 1000 * (JRT_TICK_RATE_HZ c mod 1000)) = q * (r mod 1000)"
    using f by (subst unat_mult_small) (simp_all add: uq ur)
  have uy: "unat ((ms mod 1000 * (JRT_TICK_RATE_HZ c mod 1000) + 999) div 1000) = y"
    using f by (simp add: unat_div32 unat_add_small uf y_def)
  have ux: "unat (ms mod 1000 * (JRT_TICK_RATE_HZ c div 1000)) = x"
    using x by (subst unat_mult_small) (simp_all add: uq ur x_def)
  have uxy: "unat (ms mod 1000 * (JRT_TICK_RATE_HZ c div 1000)
      + (ms mod 1000 * (JRT_TICK_RATE_HZ c mod 1000) + 999) div 1000) = x + y"
    using x y by (subst unat_add_small) (simp_all add: ux uy)
  show ?thesis
  proof (cases "ms div 1000 > UINT32_MAX div JRT_TICK_RATE_HZ c")
    case True
    then have "4294967295 div r < s" by (simp only: word_less_unat us unat_div32 [of UINT32_MAX] r_def) simp
    then have "4294967295 < s * r" using r by (simp add: div_less_iff_less_mult)
    with True show ?thesis by (simp add: JRT_MillisecondsToTicks_def ceil flip: m_def r_def)
  next
    case False
    then have "s \<le> 4294967295 div r" by (simp only: word_less_unat us unat_div32 [of UINT32_MAX] r_def) simp
    then have sr: "s * r \<le> 4294967295" using r by (simp add: less_eq_div_iff_mult_less_eq)
    have usr: "unat (ms div 1000 * JRT_TICK_RATE_HZ c) = s * r"
      using sr by (subst unat_mult_small) (simp_all add: us flip: r_def)
    show ?thesis using False sr x y
      by (simp add: JRT_MillisecondsToTicks_def Let_def word_less_unat unat_sub32 word_le_unat
          uxy usr ceil unat_add_small flip: m_def r_def)
  qed
qed

theorem ms_to_ticks_witness:
  "JRT_TICK_RATE_HZ default_config \<noteq> 0
   \<and> unat (JRT_MillisecondsToTicks default_config 1001) = 7508"
  using ms_to_ticks [of default_config 1001] by (simp add: default_config_def)

section \<open>Fitting an MPU region\<close>

lemma unat_two_power: "k < 32 \<Longrightarrow> unat (2 ^ k :: u32) = 2 ^ k"
proof -
  assume k: "k < 32"
  then have "(2::nat) ^ k < 2 ^ 32" by (intro power_strict_increasing) auto
  moreover have "unat (push_bit k 1 :: u32) = take_bit 32 (push_bit k 1)"
    by (simp only: unsigned_push_bit_eq unsigned_1) simp
  ultimately show ?thesis using k by (simp add: take_bit_nat_eq_self)
qed

lemma and_not_mask32: "(a :: u32) AND NOT (2 ^ k - 1) = push_bit k (drop_bit k a)"
proof -
  have "2 ^ k - 1 = (mask k :: u32)" by (simp add: mask_eq_exp_minus_1)
  then show ?thesis by (auto simp: bit_eq_iff bit_simps)
qed

lemma unat_align_down: "unat ((a :: u32) AND NOT (2 ^ k - 1)) = unat a div 2 ^ k * 2 ^ k"
proof -
  have le: "unat a div 2 ^ k * 2 ^ k \<le> unat a" by simp
  have "unat (push_bit k (drop_bit k a)) = take_bit 32 (push_bit k (drop_bit k (unat a)))"
    using unat_lt32 [of a]
    by (simp only: unsigned_push_bit_eq unsigned_drop_bit_eq)
      (simp add: take_bit_nat_eq_self push_bit_eq_mult drop_bit_eq_div)
  also have "\<dots> = unat a div 2 ^ k * 2 ^ k"
    using le_less_trans [OF le unat_lt32]
    by (simp add: push_bit_eq_mult drop_bit_eq_div take_bit_nat_eq_self)
  finally show ?thesis by (simp add: and_not_mask32)
qed

lemma push_bit_two_power: "push_bit 1 (2 ^ k) = (2 ^ Suc k :: u32)"
  by (simp add: push_bit_eq_mult)

lemma region_size_loop_spec:
  assumes "k \<le> 31" and "unat bytes \<le> 2 ^ 31"
  shows "\<exists>k'. k \<le> k' \<and> k' \<le> 31 \<and> unat bytes \<le> 2 ^ k'
    \<and> region_size_loop bytes (2 ^ k) e = Some (2 ^ k', e + word_of_nat (k' - k))
    \<and> (\<forall>j. k \<le> j \<longrightarrow> j < k' \<longrightarrow> 2 ^ j < unat bytes)"
  using assms
proof (induction "31 - k" arbitrary: k e rule: less_induct)
  case less
  show ?case
  proof (cases "unat bytes \<le> 2 ^ k")
    case True
    with less.prems show ?thesis
      by (intro exI [of _ k])
        (auto simp: region_size_loop.simps [of bytes "2 ^ k"] word_less_unat unat_two_power)
  next
    case False
    with less.prems have "k \<noteq> 31" by auto
    with less.prems have "31 - Suc k < 31 - k" "Suc k \<le> 31" by auto
    from less.hyps [OF this less.prems(2), of "e + 1"] obtain k' where k':
      "Suc k \<le> k'" "k' \<le> 31" "unat bytes \<le> 2 ^ k'"
      "region_size_loop bytes (2 ^ Suc k) (e + 1) = Some (2 ^ k', e + 1 + word_of_nat (k' - Suc k))"
      "\<forall>j. Suc k \<le> j \<longrightarrow> j < k' \<longrightarrow> 2 ^ j < unat bytes" by blast
    have step: "region_size_loop bytes (2 ^ k) e = region_size_loop bytes (2 ^ Suc k) (e + 1)"
      using False less.prems
      by (subst region_size_loop.simps)
        (simp add: word_less_unat unat_two_power push_bit_eq_mult mult.commute)
    have e: "e + 1 + word_of_nat (k' - Suc k) = e + word_of_nat (k' - k)"
    proof -
      have "k' - k = Suc (k' - Suc k)" using k'(1) by simp
      then show ?thesis by (simp add: add.assoc)
    qed
    have "\<forall>j. k \<le> j \<longrightarrow> j < k' \<longrightarrow> 2 ^ j < unat bytes"
      using k'(5) False by (metis Suc_leI le_neq_implies_less not_le)
    with k' step e show ?thesis by (intro exI [of _ k']) auto
  qed
qed

text \<open>The aligned block of \<open>2 ^ k\<close> bytes that holds \<open>start\<close> reaches to \<open>end_addr\<close>.\<close>

definition block_covers :: "nat \<Rightarrow> u32 \<Rightarrow> u32 \<Rightarrow> bool" where
  "block_covers k start end_addr \<longleftrightarrow> unat end_addr \<le> unat start div 2 ^ k * 2 ^ k + 2 ^ k"

lemma region_base_loop_spec:
  assumes "k \<le> 31" and "unat end_addr \<le> 2 ^ 31" and "start < end_addr"
  shows "\<exists>k'. k \<le> k' \<and> k' \<le> 31 \<and> block_covers k' start end_addr
    \<and> region_base_loop start end_addr (start AND NOT (2 ^ k - 1)) (2 ^ k) e =
        Some (start AND NOT (2 ^ k' - 1), 2 ^ k', e + word_of_nat (k' - k))
    \<and> (\<forall>j. k \<le> j \<longrightarrow> j < k' \<longrightarrow> \<not> block_covers j start end_addr)"
  using assms
proof (induction "31 - k" arbitrary: k e rule: less_induct)
  case less
  have sum: "unat ((start AND NOT (2 ^ k - 1)) + 2 ^ k) = unat start div 2 ^ k * 2 ^ k + 2 ^ k"
  proof -
    have "unat start div 2 ^ k * 2 ^ k \<le> unat start" by simp
    moreover have "(2::nat) ^ k \<le> 2 ^ 31" using less.prems(1) by (intro power_increasing) auto
    moreover have "unat start < 2147483648" using assms by (simp add: word_less_unat)
    moreover have "x + y < 4294967296" if "x \<le> a" "y \<le> 2 ^ 31" "a < 2147483648" for x y a :: nat
      using that by simp
    ultimately have "unat start div 2 ^ k * 2 ^ k + 2 ^ k < 4294967296" by blast
    then show ?thesis using less.prems(1)
      by (subst unat_add_small) (simp_all add: unat_align_down unat_two_power)
  qed
  have covers: "block_covers k start end_addr \<longleftrightarrow> \<not> (start AND NOT (2 ^ k - 1)) + 2 ^ k < end_addr"
    by (simp only: block_covers_def word_less_unat sum not_less)
  show ?case
  proof (cases "block_covers k start end_addr")
    case True
    with less.prems covers show ?thesis
      by (intro exI [of _ k]) (auto simp: region_base_loop.simps [of start end_addr _ "2 ^ k"])
  next
    case False
    have "unat start < 2 ^ 31" using assms by (simp add: word_less_unat)
    then have "block_covers 31 start end_addr"
      using less.prems(2) by (simp add: block_covers_def)
    with False less.prems(1) have "31 - Suc k < 31 - k" "Suc k \<le> 31" by (cases "k = 31"; auto)+
    from less.hyps [OF this less.prems(2,3), of "e + 1"] obtain k' where k':
      "Suc k \<le> k'" "k' \<le> 31" "block_covers k' start end_addr"
      "region_base_loop start end_addr (start AND NOT (2 ^ Suc k - 1)) (2 ^ Suc k) (e + 1) =
        Some (start AND NOT (2 ^ k' - 1), 2 ^ k', e + 1 + word_of_nat (k' - Suc k))"
      "\<forall>j. Suc k \<le> j \<longrightarrow> j < k' \<longrightarrow> \<not> block_covers j start end_addr" by blast
    have step: "region_base_loop start end_addr (start AND NOT (2 ^ k - 1)) (2 ^ k) e =
        region_base_loop start end_addr (start AND NOT (2 ^ Suc k - 1)) (2 ^ Suc k) (e + 1)"
      using False covers
      by (subst region_base_loop.simps) (simp only: push_bit_two_power if_True not_not)
    have e: "e + 1 + word_of_nat (k' - Suc k) = e + word_of_nat (k' - k)"
    proof -
      have "k' - k = Suc (k' - Suc k)" using k'(1) by simp
      then show ?thesis by (simp add: add.assoc)
    qed
    have "\<forall>j. k \<le> j \<longrightarrow> j < k' \<longrightarrow> \<not> block_covers j start end_addr"
      using k'(5) False by (metis Suc_leI le_neq_implies_less)
    with k' step e show ?thesis by (intro exI [of _ k']) auto
  qed
qed

text \<open>\<open>configure_region_range\<close> ends for every non-empty range below \<open>2^31\<close> and picks the smallest
  power-of-two region of at least 32 bytes, aligned to its size, that covers the range; the
  size encoding is the exponent less one, as the MPU reads it.\<close>

theorem region_fit_spec:
  assumes "start < end_addr" and "unat end_addr \<le> 2 ^ 31"
  shows "\<exists>k. 5 \<le> k \<and> k \<le> 31 \<and> block_covers k start end_addr
    \<and> region_fit start end_addr = Some (start AND NOT (2 ^ k - 1), 2 ^ k, word_of_nat (k - 1))
    \<and> (\<forall>j. 5 \<le> j \<longrightarrow> j < k \<longrightarrow> \<not> block_covers j start end_addr)"
proof -
  have len: "unat (end_addr - start) = unat end_addr - unat start"
    using assms(1) by (intro unat_sub32) simp
  have "unat (end_addr - start) \<le> 2 ^ 31" using assms(2) by (simp add: len)
  from region_size_loop_spec [OF _ this, of 5 4] obtain k where k: "5 \<le> k" "k \<le> 31"
    "region_size_loop (end_addr - start) 32 4 = Some (2 ^ k, 4 + word_of_nat (k - 5))"
    "\<forall>j. 5 \<le> j \<longrightarrow> j < k \<longrightarrow> 2 ^ j < unat (end_addr - start)" by auto
  from region_base_loop_spec [OF k(2) assms(2,1), of "4 + word_of_nat (k - 5)"] obtain k' where
    k': "k \<le> k'" "k' \<le> 31" "block_covers k' start end_addr"
    "region_base_loop start end_addr (start AND NOT (2 ^ k - 1)) (2 ^ k) (4 + word_of_nat (k - 5)) =
      Some (start AND NOT (2 ^ k' - 1), 2 ^ k', 4 + word_of_nat (k - 5) + word_of_nat (k' - k))"
    "\<forall>j. k \<le> j \<longrightarrow> j < k' \<longrightarrow> \<not> block_covers j start end_addr" by blast
  have small: "\<not> block_covers j start end_addr" if "5 \<le> j" "j < k" for j
  proof -
    have "unat start div 2 ^ j * 2 ^ j \<le> unat start" by simp
    moreover have "2 ^ j < unat end_addr - unat start" using k(4) that len by simp
    moreover have "\<not> b \<le> x + y" if "x \<le> a" "y < b - a" for x y a b :: nat
      using that by linarith
    ultimately show ?thesis unfolding block_covers_def by blast
  qed
  have "4 + word_of_nat (k - 5) + word_of_nat (k' - k) = (word_of_nat (4 + (k - 5) + (k' - k)) :: u32)"
    by (simp only: of_nat_add of_nat_numeral)
  also have "4 + (k - 5) + (k' - k) = k' - 1" using k(1) k'(1) by simp
  finally have "region_fit start end_addr = Some (start AND NOT (2 ^ k' - 1), 2 ^ k', word_of_nat (k' - 1))"
    using k(3) k'(4) by (simp add: region_fit_def)
  moreover have "\<forall>j. 5 \<le> j \<longrightarrow> j < k' \<longrightarrow> \<not> block_covers j start end_addr"
    using small k'(5) by (metis not_le)
  ultimately show ?thesis using k(1) k'(1-3) by (intro exI [of _ k']) auto
qed

theorem region_fit_spec_witness:
  "(0x20400010 :: u32) < 0x20400050 \<and> unat (0x20400050 :: u32) \<le> 2 ^ 31
   \<and> (\<exists>k. 5 \<le> k \<and> k \<le> 31 \<and> block_covers k 0x20400010 0x20400050
        \<and> region_fit 0x20400010 0x20400050 =
            Some (0x20400010 AND NOT (2 ^ k - 1), 2 ^ k, word_of_nat (k - 1))
        \<and> (\<forall>j. 5 \<le> j \<longrightarrow> j < k \<longrightarrow> \<not> block_covers j 0x20400010 0x20400050))"
  using region_fit_spec [of "0x20400010" "0x20400050"] by simp

section \<open>The private-data region\<close>

text \<open>What region 14 must be for a task's private range: disabled, or exactly that range.\<close>

definition private_region_installed :: "addr \<Rightarrow> u32 \<Rightarrow> kstate \<Rightarrow> bool" where
  "private_region_installed base bytes s \<longleftrightarrow>
     (if bytes = 0 then \<not> bit (mpu_rasr s MPU_TASK_PRIVATE_DATA_REGION) 0
      else mpu_rbar s MPU_TASK_PRIVATE_DATA_REGION = base
         \<and> bit (mpu_rasr s MPU_TASK_PRIVATE_DATA_REGION) 0
         \<and> 2 ^ (unat (drop_bit 1 (mpu_rasr s MPU_TASK_PRIVATE_DATA_REGION) AND 31) + 1) = unat bytes)"

definition valid_private_size :: "u32 \<Rightarrow> bool" where
  "valid_private_size bytes \<longleftrightarrow> bytes = 0 \<or> bytes \<in> (\<lambda>k. 2 ^ k) ` {5..31}"

lemma region_size_loop_exact:
  assumes "5 \<le> k" and "k \<le> 31"
  shows "region_size_loop (2 ^ k) 32 4 = Some (2 ^ k, word_of_nat (k - 1))"
proof -
  have u: "unat (2 ^ k :: u32) = 2 ^ k" using assms by (simp add: unat_two_power)
  have "(2::nat) ^ k \<le> 2 ^ 31" using assms by (intro power_increasing) auto
  then have "unat (2 ^ k :: u32) \<le> 2 ^ 31" by (simp only: u)
  from region_size_loop_spec [OF _ this, of 5 4] obtain k' where k':
    "5 \<le> k'" "(2::nat) ^ k \<le> 2 ^ k'" "\<forall>j. 5 \<le> j \<longrightarrow> j < k' \<longrightarrow> (2::nat) ^ j < 2 ^ k"
    "region_size_loop (2 ^ k) 32 4 = Some (2 ^ k', 4 + word_of_nat (k' - 5))"
    by (auto simp: u)
  have "k' = k" using k'(1-3) assms by (metis le_neq_implies_less less_irrefl
        power_increasing_iff one_less_numeral_iff semiring_norm(76))
  moreover have "4 + word_of_nat (k - 5) = (word_of_nat (4 + (k - 5)) :: u32)"
    by (simp only: of_nat_add of_nat_numeral)
  ultimately show ?thesis using k'(4) assms by simp
qed

lemma low_mask_bits: assumes "(a::u32) AND 63 = 0" "j < 6" shows "\<not> bit a j"
proof -
  have "a AND mask 6 = 0" using assms(1) by (simp add: mask_eq_exp_minus_1)
  then have "\<not> bit (a AND mask 6) j" by simp
  then show ?thesis using assms(2) by (simp add: bit_simps)
qed
lemma rasr_size_field:
  assumes "n \<le> 30" and "a AND 63 = 0"
  shows "drop_bit 1 (a OR push_bit 1 (word_of_nat n) OR 1 :: u32) AND 31 = word_of_nat n"
    and "bit (a OR push_bit 1 (word_of_nat n) OR 1 :: u32) 0"
proof -
  have m: "(31 :: u32) = mask 5" by (simp add: mask_eq_exp_minus_1)
  have n: "\<not> bit n i" if "5 \<le> i" for i
  proof -
    have "(2::nat) ^ 5 \<le> 2 ^ i" using that by (intro power_increasing) auto
    then have "n < 2 ^ i" using assms(1) by simp
    then show ?thesis by (simp add: bit_iff_odd)
  qed
  show "drop_bit 1 (a OR push_bit 1 (word_of_nat n) OR 1 :: u32) AND 31 = word_of_nat n"
  proof (rule bit_eqI)
    fix i
    have "\<not> bit a (1 + i)" if "i < 5" using low_mask_bits [OF assms(2)] that by simp
    then show "bit (drop_bit 1 (a OR push_bit 1 (word_of_nat n) OR 1) AND 31) i = bit (word_of_nat n :: u32) i"
      unfolding m using n [of i]
      by (cases "i < 5") (simp_all only: bit_and_iff bit_or_iff bit_drop_bit_eq bit_push_bit_iff
          bit_mask_iff o_apply bit_1_iff, simp_all add: bit_simps)
  qed
  show "bit (a OR push_bit 1 (word_of_nat n) OR 1 :: u32) 0"
    by (simp add: bit_simps)
qed

lemma unprivileged_data_attributes_low: "unprivileged_data_attributes AND 63 = 0"
  by (simp add: unprivileged_data_attributes_def)

lemma program_private_region_installed:
  assumes "JRT_ARCH_HAS_MPU (cfg s) \<noteq> 0" and "valid_private_size bytes"
  shows "\<exists>s'. program_private_region base bytes s = Inr s' \<and> private_region_installed base bytes s'"
proof (cases "bytes = 0")
  case True
  with assms(1) show ?thesis
    by (simp add: program_private_region_def write_region_def private_region_installed_def)
next
  case False
  with assms(2) obtain k where k: "5 \<le> k" "k \<le> 31" "bytes = 2 ^ k"
    by (auto simp: valid_private_size_def)
  have n: "k - 1 \<le> 30" using k by simp
  have u: "unat (word_of_nat (k - 1) :: u32) + 1 = k"
    by (subst unat_of_nat32) (use k in auto)
  then have p: "(2::nat) * 2 ^ unat (word_of_nat (k - 1) :: u32) = 2 ^ k"
    by (metis Suc_eq_plus1 power_Suc)
  show ?thesis
    using assms(1) False k region_size_loop_exact [OF k(1,2)]
      rasr_size_field [OF n unprivileged_data_attributes_low] p
    by (simp add: program_private_region_def write_region_def private_region_installed_def
        unat_two_power del: push_bit_Suc)
qed


definition mpu_config :: jrt_config where
  "mpu_config = default_config\<lparr>JRT_ARCH_HAS_MPU := 1\<rparr>"

lemma valid_private_size_32: "valid_private_size 32"
  unfolding valid_private_size_def by (rule disjI2, rule image_eqI [of _ _ 5]) simp_all


section \<open>The critical-section contract\<close>

text \<open>
  What \<open>port_contract.h\<close> promises of \<open>arch_critical_enter\<close> and \<open>arch_critical_exit\<close>: entry
  masks interrupts and returns the previous mask, exit restores exactly the mask it is given,
  and the nesting depth counts the open sections. The kernel brackets every operation with the
  two calls; \<open>bracketed\<close> is that shape.
\<close>

locale critical_section =
  fixes enter :: "'s \<Rightarrow> 'm \<times> 's"
    and leave :: "'m \<Rightarrow> 's \<Rightarrow> 's"
    and mask_of :: "'s \<Rightarrow> 'm"
    and masked :: "'m \<Rightarrow> bool"
    and depth :: "'s \<Rightarrow> nat"
    and limit :: nat
  assumes enter_saves: "fst (enter s) = mask_of s"
    and enter_masks: "masked (mask_of (snd (enter s)))"
    and leave_restores: "mask_of (leave m s) = m"
    and enter_depth: "depth s < limit \<Longrightarrow> depth (snd (enter s)) = Suc (depth s)"
    and leave_depth: "depth (leave m s) = depth s - 1"
begin

definition bracketed :: "('s \<Rightarrow> 's) \<Rightarrow> 's \<Rightarrow> 's" where
  "bracketed body s = (let (m, s) = enter s in leave m (body s))"

lemma bracketed_mask: "mask_of (bracketed body s) = mask_of s"
  by (simp add: bracketed_def case_prod_beta leave_restores enter_saves)

lemma bracketed_depth:
  assumes "depth s < limit" and "\<And>s. depth (body s) = depth s"
  shows "depth (bracketed body s) = depth s"
  using assms by (simp add: bracketed_def case_prod_beta leave_depth enter_depth)

text \<open>The body runs with interrupts masked, at any depth of nesting.\<close>

lemma bracketed_runs_masked:
  assumes "\<And>s. masked (mask_of s) \<Longrightarrow> P (body s)" and "\<And>m s. P s \<Longrightarrow> P (leave m s)"
  shows "P (bracketed body s)"
  using assms enter_masks by (simp add: bracketed_def case_prod_beta)

lemma nested_mask: "mask_of (bracketed (\<lambda>s. after (bracketed body (before s))) s) = mask_of s"
  by (rule bracketed_mask)

end

interpretation cs: critical_section arch_critical_enter arch_critical_exit primask
  "\<lambda>m. m = 1" "\<lambda>s. unat (g_critical_nesting s)" "unat UINT32_MAX"
proof unfold_locales
  fix s :: kstate and m :: u32
  show "fst (arch_critical_enter s) = primask s"
    by (simp add: kdefs Let_def)
  show "primask (snd (arch_critical_enter s)) = 1"
    by (simp add: kdefs Let_def)
  show "primask (arch_critical_exit m s) = m"
    by (simp add: kdefs Let_def)
  show "unat (g_critical_nesting s) < unat UINT32_MAX \<Longrightarrow>
      unat (g_critical_nesting (snd (arch_critical_enter s))) = Suc (unat (g_critical_nesting s))"
    by (simp add: kdefs Let_def unat_suc_small)
  show "unat (g_critical_nesting (arch_critical_exit m s)) = unat (g_critical_nesting s) - 1"
    by (simp add: kdefs Let_def unat_sub32 word_le_unat word_neq_0_unat)
qed

end
