(* ===== verification/JRT_Benchmark.thy ===== *)
theory JRT_Benchmark
  imports JRT_Port
begin

text \<open>
  Task benchmarking (\<open>kernel/benchmark.c\<close>, \<open>kernel/benchmark.h\<close>). With
  \<open>JRT_ENABLE_TASK_BENCHMARK = 0\<close> the header's stubs do nothing; every operation of the model
  starts with that test. The query that also reads the stack usage is in \<open>JRT_Tasks\<close>.
\<close>

section \<open>Long division\<close>

text \<open>
  The loop of \<open>divide_u64_u32\<close> for the bits \<open>bit - 1\<close> down to 0; the counter is the C loop's
  \<open>bit\<close>, which runs from 64 to 1.
\<close>

fun divide_loop :: "nat \<Rightarrow> u64 \<Rightarrow> u32 \<Rightarrow> u64 \<Rightarrow> u64 \<Rightarrow> u64" where
  "divide_loop 0 numerator denominator quot remainder = quot"
| "divide_loop (Suc b) numerator denominator quot remainder =
    (let remainder = push_bit 1 remainder OR (drop_bit b numerator AND 1)
     in if remainder \<ge> ucast denominator
        then divide_loop b numerator denominator (quot OR push_bit b 1)
               (remainder - ucast denominator)
        else divide_loop b numerator denominator quot remainder)"

definition divide_u64_u32 :: "u64 \<Rightarrow> u32 \<Rightarrow> u64" where
  "divide_u64_u32 numerator denominator = divide_loop 64 numerator denominator 0 0"

definition period_to_cycles :: "jrt_config \<Rightarrow> u32 \<Rightarrow> u32" where
  "period_to_cycles c period_ticks =
    (let period_cycles = ucast period_ticks * ucast (JRT_CORE_CLOCK_HZ c) :: u64;
         period_cycles = divide_u64_u32 period_cycles (JRT_TICK_RATE_HZ c)
     in if period_cycles \<le> ucast UINT32_MAX then ucast period_cycles else 0)"

section \<open>Records\<close>

definition clear_record :: "JRT_TaskBenchmarkRecord_t \<Rightarrow> JRT_TaskBenchmarkRecord_t" where
  "clear_record r = r\<lparr>b_release_count := 0, b_completion_count := 0, b_coalesced_count := 0,
     b_release_cycle := 0, b_activation_start_cycle := 0, b_max_release_latency_cycles := 0,
     b_max_activation_cycles := 0, b_period_cycles := 0, b_release_pending := 0,
     b_activation_active := 0\<rparr>"

definition set_record :: "u32 \<Rightarrow> JRT_TaskBenchmarkRecord_t \<Rightarrow> kstate \<Rightarrow> kstate" where
  "set_record i r s = s\<lparr>benchmark_records := (benchmark_records s)(i := r)\<rparr>"

definition task_benchmark_init ::
  "u32 \<Rightarrow> (u32 \<Rightarrow> JRT_TaskDefinition_t) \<Rightarrow> u32 \<Rightarrow> kstate \<Rightarrow> kstate" where
  "task_benchmark_init n definitions app_count s =
    (if JRT_ENABLE_TASK_BENCHMARK (cfg s) = 0 then s
     else
       let s = arch_cycle_counter_init s;
           s = s\<lparr>benchmark_cycle_counter_available :=
                   (if arch_cycle_counter_available s = 0 then 0 else 1)\<rparr>;
           s = s\<lparr>benchmark_task_count := app_count + 1\<rparr>;
           s = s\<lparr>benchmark_cycle_frequency_hz :=
                   (if benchmark_cycle_counter_available s \<noteq> 0
                    then JRT_CORE_CLOCK_HZ (cfg s) else 0)\<rparr>;
           s = s\<lparr>benchmark_initialized := 0\<rparr>;
           s = for_upto n (\<lambda>i s. set_record i (clear_record (benchmark_records s i)) s) s;
           s = for_upto app_count (\<lambda>i s. set_record i ((benchmark_records s i)
                 \<lparr>b_period_cycles :=
                    period_to_cycles (cfg s) (d_benchmark_period_ticks (definitions i))\<rparr>) s) s
       in s\<lparr>benchmark_initialized := 1\<rparr>)"

definition record_release :: "u32 \<Rightarrow> int \<Rightarrow> JRT_TaskBenchmarkRecord_t \<Rightarrow> JRT_TaskBenchmarkRecord_t" where
  "record_release now coalesced r =
    (let r = r\<lparr>b_release_count := b_release_count r + 1\<rparr>;
         r = (if coalesced \<noteq> 0 then r\<lparr>b_coalesced_count := b_coalesced_count r + 1\<rparr> else r)
     in if b_release_pending r = 0 then r\<lparr>b_release_cycle := now, b_release_pending := 1\<rparr> else r)"

definition task_benchmark_release_locked :: "u32 \<Rightarrow> int \<Rightarrow> kstate \<Rightarrow> kstate" where
  "task_benchmark_release_locked task_id coalesced s =
    (if JRT_ENABLE_TASK_BENCHMARK (cfg s) = 0 then s
     else if benchmark_cycle_counter_available s = 0 then s
     else set_record task_id
            (record_release (arch_cycle_counter_read s) coalesced (benchmark_records s task_id)) s)"

definition task_benchmark_coalesced_locked :: "u32 \<Rightarrow> kstate \<Rightarrow> kstate" where
  "task_benchmark_coalesced_locked task_id s =
    (if JRT_ENABLE_TASK_BENCHMARK (cfg s) = 0 then s
     else if benchmark_cycle_counter_available s \<noteq> 0
     then set_record task_id ((benchmark_records s task_id)
            \<lparr>b_coalesced_count := b_coalesced_count (benchmark_records s task_id) + 1\<rparr>) s
     else s)"

definition record_start :: "u32 \<Rightarrow> JRT_TaskBenchmarkRecord_t \<Rightarrow> JRT_TaskBenchmarkRecord_t" where
  "record_start now r =
    (if b_release_pending r = 0 \<or> b_activation_active r \<noteq> 0 then r
     else
       let latency = now - b_release_cycle r;
           r = (if latency > b_max_release_latency_cycles r
                then r\<lparr>b_max_release_latency_cycles := latency\<rparr> else r)
       in r\<lparr>b_activation_start_cycle := now, b_release_pending := 0, b_activation_active := 1\<rparr>)"

definition task_benchmark_start_locked :: "u32 \<Rightarrow> kstate \<Rightarrow> kstate" where
  "task_benchmark_start_locked task_id s =
    (if JRT_ENABLE_TASK_BENCHMARK (cfg s) = 0 then s
     else if benchmark_cycle_counter_available s = 0 then s
     else set_record task_id
            (record_start (arch_cycle_counter_read s) (benchmark_records s task_id)) s)"

definition record_complete :: "u32 \<Rightarrow> JRT_TaskBenchmarkRecord_t \<Rightarrow> JRT_TaskBenchmarkRecord_t" where
  "record_complete now r =
    (if b_activation_active r = 0 then r
     else
       let duration = now - b_activation_start_cycle r;
           r = (if duration > b_max_activation_cycles r
                then r\<lparr>b_max_activation_cycles := duration\<rparr> else r);
           r = r\<lparr>b_completion_count := b_completion_count r + 1\<rparr>
       in r\<lparr>b_activation_active := 0\<rparr>)"

definition task_benchmark_complete_locked :: "u32 \<Rightarrow> kstate \<Rightarrow> kstate" where
  "task_benchmark_complete_locked task_id s =
    (if JRT_ENABLE_TASK_BENCHMARK (cfg s) = 0 then s
     else if benchmark_cycle_counter_available s = 0 then s
     else set_record task_id
            (record_complete (arch_cycle_counter_read s) (benchmark_records s task_id)) s)"

text \<open>\<open>JRT_BenchmarkGetInfo\<close>: \<open>info\<close> is the address of the result, which is returned.\<close>

record JRT_BenchmarkInfo_t =
  bi_enabled :: u32
  bi_task_count :: u32
  bi_cycle_frequency_hz :: u32

definition JRT_BenchmarkGetInfo ::
  "addr \<Rightarrow> kstate \<Rightarrow> JRT_Status_t \<times> JRT_BenchmarkInfo_t option \<times> kstate" where
  "JRT_BenchmarkGetInfo info s =
    (if info = NULL then (JRT_STATUS_INVALID_TASK, None, s)
     else if benchmark_initialized s = 0 then (JRT_STATUS_NOT_INITIALIZED, None, s)
     else
       let (saved_primask, s) = arch_critical_enter s;
           result = \<lparr>bi_enabled = benchmark_cycle_counter_available s,
                      bi_task_count = benchmark_task_count s,
                      bi_cycle_frequency_hz = benchmark_cycle_frequency_hz s\<rparr>;
           s = arch_critical_exit saved_primask s
       in (JRT_STATUS_OK, Some result, s))"

definition record_reset :: "u32 \<Rightarrow> JRT_TaskBenchmarkRecord_t \<Rightarrow> JRT_TaskBenchmarkRecord_t" where
  "record_reset now r =
    (let r = r\<lparr>b_release_count := 0, b_completion_count := 0, b_coalesced_count := 0,
               b_max_release_latency_cycles := 0, b_max_activation_cycles := 0\<rparr>;
         r = (if b_release_pending r \<noteq> 0 then r\<lparr>b_release_cycle := now\<rparr> else r)
     in if b_activation_active r \<noteq> 0 then r\<lparr>b_activation_start_cycle := now\<rparr> else r)"

definition JRT_BenchmarkReset :: "kstate \<Rightarrow> JRT_Status_t \<times> kstate" where
  "JRT_BenchmarkReset s =
    (if \<not> (kernel_started s \<noteq> 0 \<and> arch_in_isr s = 0) then (JRT_STATUS_INVALID_CONTEXT, s)
     else
       let (saved_primask, s) = arch_critical_enter s;
           now = arch_cycle_counter_read s;
           s = for_upto (benchmark_task_count s)
                 (\<lambda>i s. set_record i (record_reset now (benchmark_records s i)) s) s;
           s = arch_critical_exit saved_primask s
       in (JRT_STATUS_OK, s))"

section \<open>The benchmark hooks touch the records only\<close>

text \<open>Each hook is an update of \<open>benchmark_records\<close>; nothing of the scheduler's state depends on it.\<close>

definition release_records :: "u32 \<Rightarrow> int \<Rightarrow> kstate \<Rightarrow> u32 \<Rightarrow> JRT_TaskBenchmarkRecord_t" where
  "release_records i c s = benchmark_records (task_benchmark_release_locked i c s)"

definition complete_records :: "u32 \<Rightarrow> kstate \<Rightarrow> u32 \<Rightarrow> JRT_TaskBenchmarkRecord_t" where
  "complete_records i s = benchmark_records (task_benchmark_complete_locked i s)"

definition start_records :: "u32 \<Rightarrow> kstate \<Rightarrow> u32 \<Rightarrow> JRT_TaskBenchmarkRecord_t" where
  "start_records i s = benchmark_records (task_benchmark_start_locked i s)"

definition coalesced_records :: "u32 \<Rightarrow> kstate \<Rightarrow> u32 \<Rightarrow> JRT_TaskBenchmarkRecord_t" where
  "coalesced_records i s = benchmark_records (task_benchmark_coalesced_locked i s)"

lemma release_frame [frame]:
  "task_benchmark_release_locked i c s = s\<lparr>benchmark_records := release_records i c s\<rparr>"
  by (simp add: task_benchmark_release_locked_def release_records_def set_record_def)

lemma complete_frame [frame]:
  "task_benchmark_complete_locked i s = s\<lparr>benchmark_records := complete_records i s\<rparr>"
  by (simp add: task_benchmark_complete_locked_def complete_records_def set_record_def)

lemma start_frame [frame]:
  "task_benchmark_start_locked i s = s\<lparr>benchmark_records := start_records i s\<rparr>"
  by (simp add: task_benchmark_start_locked_def start_records_def set_record_def)

lemma coalesced_frame [frame]:
  "task_benchmark_coalesced_locked i s = s\<lparr>benchmark_records := coalesced_records i s\<rparr>"
  by (simp add: task_benchmark_coalesced_locked_def coalesced_records_def set_record_def)

section \<open>The division is exact\<close>

lemma unat_ucast_32_64: "unat (ucast (x :: u32) :: u64) = unat x"
proof -
  have "unat x < 2 ^ 64" using unat_lt32 [of x] by simp
  then show ?thesis by (simp add: unsigned_ucast_eq take_bit_nat_eq_self)
qed

lemma shift_in_bit:
  assumes "unat r < 2 ^ 63"
  shows "unat (push_bit 1 r OR (drop_bit b n AND 1) :: u64) = 2 * unat r + unat n div 2 ^ b mod 2"
proof -
  have b: "unat (drop_bit b n AND 1) = unat n div 2 ^ b mod 2"
  proof -
    have "unat (drop_bit b n) = unat n div 2 ^ b"
      using unsigned_less [of n, where 'a = nat]
      by (simp only: unsigned_drop_bit_eq) (simp add: drop_bit_eq_div take_bit_nat_eq_self)
    then show ?thesis by (simp add: and_one_eq unat_mod)
  qed
  have "push_bit 1 r OR (drop_bit b n AND 1) = push_bit 1 r + (drop_bit b n AND 1)"
    by (rule disjunctive_add_eq_or [symmetric], rule bit_eqI)
      (simp only: bit_and_iff bit_push_bit_iff bit_1_iff, simp)
  moreover have "unat (push_bit 1 r) = 2 * unat r"
    using assms by (simp add: unat_word_ariths)
  ultimately show ?thesis using assms b by (simp add: unat_word_ariths)
qed

lemma set_clear_bit:
  assumes "unat (q :: u64) = x * 2 ^ Suc b" and "b < 64"
  shows "unat (q OR push_bit b 1) = unat q + 2 ^ b"
proof -
  have p: "unat (push_bit b 1 :: u64) = push_bit b 1"
    using power_strict_increasing [OF assms(2), of "2 :: nat"] assms(2)
    by (simp only: unsigned_push_bit_eq) (simp add: take_bit_nat_eq_self)
  have "\<not> bit (unat q) b"
    unfolding assms(1) push_bit_eq_mult [symmetric] by (simp only: bit_push_bit_iff) simp
  then have "unat q OR push_bit b 1 = unat q + push_bit b 1"
    by (intro disjunctive_add_eq_or [symmetric] bit_eqI)
      (simp only: bit_and_iff bit_push_bit_iff bit_1_iff, use le_antisym in fastforce)
  then show ?thesis by (simp only: unsigned_or_eq p) simp
qed

lemma div_mod_unique:
  assumes "m = c * d + (x :: nat)" and "x < d"
  shows "m div d = c" and "m mod d = x"
  using assms by simp_all

text \<open>
  Before the iteration for bit \<open>b\<close> the loop has divided the top \<open>64 - b\<close> bits: the quotient
  so far is in place from bit \<open>b\<close> up and the remainder is below the divisor.
\<close>

lemma divide_loop_invariant:
  assumes "0 < unat d" and "b \<le> 64"
    and "unat r = unat n div 2 ^ b mod unat d"
    and "unat q = unat n div 2 ^ b div unat d * 2 ^ b"
  shows "unat (divide_loop b n d q r) = unat n div unat d"
  using assms(2-)
proof (induction b arbitrary: q r)
  case 0
  then show ?case by simp
next
  case (Suc b)
  let ?N = "unat n div 2 ^ Suc b" and ?M = "unat n div 2 ^ b"
  let ?r = "push_bit 1 r OR (drop_bit b n AND 1)"
  have M: "?M = 2 * ?N + ?M mod 2"
    by (metis div_exp_eq mult_div_mod_eq plus_1_eq_Suc power_one_right semiring_normalization_rules(27) add.commute)
  have r_less: "unat r < unat d" using Suc.prems(2) assms(1) by simp
  then have "unat r < 2 ^ 63" using unat_lt32 [of d] by simp
  then have ur: "unat ?r = 2 * unat r + ?M mod 2" by (rule shift_in_bit)
  have Meq: "?M = 2 * (?N div unat d) * unat d + unat ?r"
  proof -
    have "?N = ?N div unat d * unat d + unat r" by (simp add: Suc.prems(2))
    then show ?thesis using M ur by (metis (no_types) add.assoc distrib_left mult.assoc)
  qed
  have q: "unat q = 2 * (?N div unat d) * 2 ^ b" using Suc.prems(3) by simp
  show ?case
  proof (cases "ucast d \<le> ?r")
    case True
    then have le: "unat d \<le> unat ?r" by (simp add: word_le_nat_alt unat_ucast_32_64)
    have sub: "unat (?r - ucast d) = unat ?r - unat d"
      using True by (simp add: unat_sub unat_ucast_32_64)
    have "unat ?r - unat d < unat d" using ur r_less by linarith
    moreover have "?M = (2 * (?N div unat d) + 1) * unat d + (unat ?r - unat d)"
      using Meq le by (simp add: distrib_right)
    ultimately have dm: "?M div unat d = 2 * (?N div unat d) + 1" "?M mod unat d = unat ?r - unat d"
      using div_mod_unique by blast+
    have "unat (q OR push_bit b 1) = unat q + 2 ^ b"
      by (rule set_clear_bit [OF Suc.prems(3)]) (use Suc.prems(1) in simp)
    then have "unat (q OR push_bit b 1) = ?M div unat d * 2 ^ b"
      using q dm(1) by (simp add: distrib_right)
    moreover have "unat (?r - ucast d) = ?M mod unat d" using sub dm(2) by simp
    ultimately have "unat (divide_loop b n d (q OR push_bit b 1) (?r - ucast d)) = unat n div unat d"
      using Suc.IH Suc.prems(1) by simp
    with True show ?thesis by (simp add: Let_def del: push_bit_Suc)
  next
    case False
    then have "unat ?r < unat d" by (simp add: word_le_nat_alt unat_ucast_32_64)
    then have dm: "?M div unat d = 2 * (?N div unat d)" "?M mod unat d = unat ?r"
      using Meq by (simp_all add: div_add1_eq)
    with q have "unat q = ?M div unat d * 2 ^ b" by simp
    then have "unat (divide_loop b n d q ?r) = unat n div unat d"
      using Suc.IH Suc.prems(1) dm(2) by simp
    with False show ?thesis by (simp add: Let_def del: push_bit_Suc)
  qed
qed

text \<open>
  \<open>divide_u64_u32\<close> is division: for every 64-bit numerator and non-zero 32-bit denominator it
  returns the exact quotient.
\<close>

lemma divide_correct:
  assumes "denominator \<noteq> 0"
  shows "unat (divide_u64_u32 numerator denominator) = unat numerator div unat denominator"
  unfolding divide_u64_u32_def
proof (rule divide_loop_invariant)
  have small: "unat numerator div 2 ^ 64 = 0" using unsigned_less [of numerator, where 'a = nat] by simp
  show "0 < unat denominator" using assms by (simp add: word_neq_0_unat)
  show "unat (0 :: u64) = unat numerator div 2 ^ 64 mod unat denominator"
    and "unat (0 :: u64) = unat numerator div 2 ^ 64 div unat denominator * 2 ^ 64"
    using small by simp_all
qed simp

text \<open>C40: the cycles of a benchmark period are \<open>period * clock / tick rate\<close> rounded down, or 0
  when that does not fit in 32 bits; the intermediate product never wraps.\<close>

theorem period_to_cycles_correct:
  assumes "JRT_TICK_RATE_HZ c \<noteq> 0"
  shows "unat (period_to_cycles c period_ticks) =
    (let cycles = unat period_ticks * unat (JRT_CORE_CLOCK_HZ c) div unat (JRT_TICK_RATE_HZ c)
     in if cycles \<le> unat UINT32_MAX then cycles else 0)"
proof -
  let ?n = "ucast period_ticks * ucast (JRT_CORE_CLOCK_HZ c) :: u64"
  have "unat period_ticks * unat (JRT_CORE_CLOCK_HZ c) < 4294967296 * 4294967296"
    using unat_lt32 by (intro mult_strict_mono) auto
  then have n: "unat ?n = unat period_ticks * unat (JRT_CORE_CLOCK_HZ c)"
    by (simp add: unat_word_ariths unat_ucast_32_64)
  have d: "unat (divide_u64_u32 ?n (JRT_TICK_RATE_HZ c)) =
      unat period_ticks * unat (JRT_CORE_CLOCK_HZ c) div unat (JRT_TICK_RATE_HZ c)"
    by (simp add: divide_correct [OF assms] n)
  have "unat (ucast w :: u32) = unat w" if "unat w \<le> 4294967295" for w :: u64
    using that by (simp add: unsigned_ucast_eq take_bit_nat_eq_self)
  with d show ?thesis
    by (simp add: period_to_cycles_def Let_def word_le_nat_alt unat_ucast_32_64)
qed

theorem period_to_cycles_witness:
  "JRT_TICK_RATE_HZ default_config \<noteq> 0 \<and> unat (period_to_cycles default_config 100) = 1600000"
  using period_to_cycles_correct [of default_config 100] by (simp add: default_config_def Let_def)

end
