(* ===== verification/JRT_Wait.thy ===== *)
theory JRT_Wait
  imports JRT_Benchmark
begin

text \<open>
  Waiting and waking (\<open>kernel/task.c\<close>, lines 481 to 535 and 854 to 987): the transitions of a
  task into and out of \<open>BLOCKED\<close>, deadlines, and the choice of the waiter to wake. Every
  blocking service of the kernel is built from these operations.
\<close>

section \<open>Transitions of one task\<close>

definition set_task :: "u32 \<Rightarrow> task_t \<Rightarrow> kstate \<Rightarrow> kstate" where [kdefs]:
  "set_task i t s = s\<lparr>tasks := (tasks s)(i := t)\<rparr>"

definition task_wait_begin_until ::
  "u32 \<Rightarrow> addr \<Rightarrow> task_wait_kind_t \<Rightarrow> task_wait_deadline_t \<Rightarrow> kstate \<Rightarrow> kstate" where
  "task_wait_begin_until task object wait_kind deadline s =
    (let s = task_benchmark_complete_locked task s
     in set_task task ((tasks s task)\<lparr>
          t_wait_object := object, t_wait_kind := wait_kind,
          t_wait_start := dl_start deadline, t_wait_deadline := dl_tick deadline,
          t_wait_forever := dl_forever deadline, t_wait_result := 0,
          t_state := JRT_TASK_STATE_BLOCKED\<rparr>) s)"

definition make_deadline :: "u32 \<Rightarrow> u32 \<Rightarrow> task_wait_deadline_t" where
  "make_deadline now timeout_ticks =
     \<lparr>dl_start = now, dl_tick = now + timeout_ticks,
      dl_forever = (if timeout_ticks = JRT_WAIT_FOREVER then 1 else 0)\<rparr>"

definition task_wait_begin ::
  "u32 \<Rightarrow> addr \<Rightarrow> task_wait_kind_t \<Rightarrow> u32 \<Rightarrow> kstate \<Rightarrow> kstate" where
  "task_wait_begin task object wait_kind timeout_ticks s =
    (let s = task_benchmark_complete_locked task s;
         deadline = make_deadline (g_kernel_ticks s) timeout_ticks
     in set_task task ((tasks s task)\<lparr>
          t_wait_object := object, t_wait_kind := wait_kind,
          t_wait_start := dl_start deadline, t_wait_deadline := dl_tick deadline,
          t_wait_forever := dl_forever deadline, t_wait_result := 0,
          t_state := JRT_TASK_STATE_BLOCKED\<rparr>) s)"

definition task_wait_end :: "u32 \<Rightarrow> u32 \<Rightarrow> int \<Rightarrow> kstate \<Rightarrow> kstate" where
  "task_wait_end task result coalesced s =
    (let s = task_benchmark_release_locked task coalesced s
     in set_task task ((tasks s task)\<lparr>
          t_state := JRT_TASK_STATE_READY, t_wait_result := result, t_wait_object := NULL,
          t_wait_kind := TASK_WAIT_NONE, t_wait_start := 0, t_wait_deadline := 0,
          t_wait_forever := 0\<rparr>) s)"

definition task_wait_reset :: "u32 \<Rightarrow> kstate \<Rightarrow> kstate" where [kdefs]:
  "task_wait_reset task s =
     set_task task ((tasks s task)\<lparr>
       t_wait_object := NULL, t_wait_kind := TASK_WAIT_NONE, t_wait_start := 0,
       t_wait_deadline := 0, t_wait_forever := 0, t_wait_result := 0,
       t_notification_value := 0, t_event_wait_bits := 0, t_event_wait_all := 0,
       t_event_clear_on_exit := 0\<rparr>) s"

text \<open>What the two transitions do to a control block.\<close>

definition blocked_on :: "addr \<Rightarrow> task_wait_kind_t \<Rightarrow> task_wait_deadline_t \<Rightarrow> task_t \<Rightarrow> task_t" where
  "blocked_on object wait_kind deadline t = t\<lparr>
     t_wait_object := object, t_wait_kind := wait_kind,
     t_wait_start := dl_start deadline, t_wait_deadline := dl_tick deadline,
     t_wait_forever := dl_forever deadline, t_wait_result := 0,
     t_state := JRT_TASK_STATE_BLOCKED\<rparr>"

definition awake :: "u32 \<Rightarrow> task_t \<Rightarrow> task_t" where
  "awake result t = t\<lparr>
     t_state := JRT_TASK_STATE_READY, t_wait_result := result, t_wait_object := NULL,
     t_wait_kind := TASK_WAIT_NONE, t_wait_start := 0, t_wait_deadline := 0,
     t_wait_forever := 0\<rparr>"

lemma awake_simps [simp]:
  "t_state (awake r t) = JRT_TASK_STATE_READY" "t_wait_result (awake r t) = r"
  "t_wait_object (awake r t) = NULL" "t_wait_kind (awake r t) = TASK_WAIT_NONE"
  "t_wait_start (awake r t) = 0" "t_wait_deadline (awake r t) = 0"
  "t_wait_forever (awake r t) = 0" "t_priority (awake r t) = t_priority t"
  "t_base_priority (awake r t) = t_base_priority t"
  "t_notification_value (awake r t) = t_notification_value t"
  "t_event_wait_bits (awake r t) = t_event_wait_bits t"
  "t_event_wait_all (awake r t) = t_event_wait_all t"
  "t_event_clear_on_exit (awake r t) = t_event_clear_on_exit t"
  "t_sleep_ticks (awake r t) = t_sleep_ticks t"
  "t_flags (awake r t) = t_flags t" "t_sp (awake r t) = t_sp t"
  "t_stack_bottom (awake r t) = t_stack_bottom t" "t_stack_top (awake r t) = t_stack_top t"
  by (simp_all add: awake_def)

lemma blocked_on_simps [simp]:
  "t_state (blocked_on ob k d t) = JRT_TASK_STATE_BLOCKED" "t_wait_result (blocked_on ob k d t) = 0"
  "t_wait_object (blocked_on ob k d t) = ob" "t_wait_kind (blocked_on ob k d t) = k"
  "t_wait_start (blocked_on ob k d t) = dl_start d" "t_wait_deadline (blocked_on ob k d t) = dl_tick d"
  "t_wait_forever (blocked_on ob k d t) = dl_forever d"
  "t_priority (blocked_on ob k d t) = t_priority t"
  "t_base_priority (blocked_on ob k d t) = t_base_priority t"
  "t_notification_value (blocked_on ob k d t) = t_notification_value t"
  "t_event_wait_bits (blocked_on ob k d t) = t_event_wait_bits t"
  "t_event_wait_all (blocked_on ob k d t) = t_event_wait_all t"
  "t_event_clear_on_exit (blocked_on ob k d t) = t_event_clear_on_exit t"
  "t_sleep_ticks (blocked_on ob k d t) = t_sleep_ticks t"
  "t_flags (blocked_on ob k d t) = t_flags t" "t_sp (blocked_on ob k d t) = t_sp t"
  by (simp_all add: blocked_on_def)

lemma task_wait_end_eq:
  "task_wait_end i r c s = s\<lparr>benchmark_records := release_records i c s,
     tasks := (tasks s)(i := awake r (tasks s i))\<rparr>"
  by (simp add: task_wait_end_def release_frame set_task_def awake_def)

lemma task_wait_begin_until_eq:
  "task_wait_begin_until i ob k d s = s\<lparr>benchmark_records := complete_records i s,
     tasks := (tasks s)(i := blocked_on ob k d (tasks s i))\<rparr>"
  by (simp add: task_wait_begin_until_def complete_frame set_task_def blocked_on_def)

lemma task_wait_begin_eq:
  "task_wait_begin i ob k timeout s =
     task_wait_begin_until i ob k (make_deadline (g_kernel_ticks s) timeout) s"
  by (simp add: task_wait_begin_def task_wait_begin_until_def complete_frame set_task_def Let_def)

section \<open>Deadlines\<close>

definition task_wait_deadline :: "u32 \<Rightarrow> kstate \<Rightarrow> task_wait_deadline_t \<times> kstate" where [kdefs]:
  "task_wait_deadline timeout_ticks s =
    (let (saved_primask, s) = arch_critical_enter s;
         deadline = make_deadline (g_kernel_ticks s) timeout_ticks;
         s = arch_critical_exit saved_primask s
     in (deadline, s))"

text \<open>The expiry test of \<open>task_block_until_locked\<close> and of the tick handler.\<close>

definition deadline_passed :: "u32 \<Rightarrow> u32 \<Rightarrow> u32 \<Rightarrow> u32 \<Rightarrow> bool" where
  "deadline_passed now start tick forever \<longleftrightarrow> forever = 0 \<and> now - start \<ge> tick - start"

section \<open>Blocking the current task\<close>

text \<open>
  The blocking functions up to their \<open>arch_yield\<close>. \<open>Some r\<close>: they return \<open>r\<close> without
  blocking. \<open>None\<close>: the caller is blocked and its yield is made; what they return after it
  is \<open>task_block_resume\<close>, evaluated when the task runs again.
\<close>

definition task_block_until_locked ::
  "addr \<Rightarrow> task_wait_kind_t \<Rightarrow> task_wait_deadline_t \<Rightarrow> u32 \<Rightarrow> kstate \<Rightarrow> int blocking" where
  "task_block_until_locked object wait_kind deadline saved_critical s =
    (if deadline_passed (g_kernel_ticks s) (dl_start deadline) (dl_tick deadline) (dl_forever deadline)
     then (Some 0, arch_critical_exit saved_critical s)
     else
       let s = task_wait_begin_until (current_task s) object wait_kind deadline s;
           s = arch_critical_exit saved_critical s
       in (None, arch_yield s))"

definition task_block_locked ::
  "addr \<Rightarrow> task_wait_kind_t \<Rightarrow> u32 \<Rightarrow> u32 \<Rightarrow> kstate \<Rightarrow> int blocking" where
  "task_block_locked object wait_kind timeout_ticks saved_critical s =
    (let s = task_wait_begin (current_task s) object wait_kind timeout_ticks s;
         s = arch_critical_exit saved_critical s
     in (None, arch_yield s))"

definition task_block :: "addr \<Rightarrow> task_wait_kind_t \<Rightarrow> u32 \<Rightarrow> kstate \<Rightarrow> int blocking" where
  "task_block object wait_kind timeout_ticks s =
    (if timeout_ticks = 0 then (Some 0, s)
     else
       let (saved_primask, s) = arch_critical_enter s;
           s = task_wait_begin (current_task s) object wait_kind timeout_ticks s;
           s = arch_critical_exit saved_primask s
       in (None, arch_yield s))"

definition task_block_resume :: "kstate \<Rightarrow> int" where
  "task_block_resume s = int32 (t_wait_result (tasks s (current_task s)))"

definition sleep_current :: "u32 \<Rightarrow> kstate \<Rightarrow> kstate" where
  "sleep_current ticks s =
    (let (saved_primask, s) = arch_critical_enter s;
         s = (if ticks \<noteq> 0 then task_benchmark_complete_locked (g_current_task_index s) s else s);
         i = current_task s;
         s = set_task i ((tasks s i)\<lparr>t_sleep_ticks := ticks,
               t_state := (if ticks = 0 then JRT_TASK_STATE_READY else JRT_TASK_STATE_SLEEPING)\<rparr>) s
     in arch_critical_exit saved_primask s)"

section \<open>Waking the best waiter\<close>

definition waits_on :: "addr \<Rightarrow> task_wait_kind_t \<Rightarrow> task_t \<Rightarrow> bool" where
  "waits_on object wait_kind t \<longleftrightarrow>
     t_state t = JRT_TASK_STATE_BLOCKED \<and> t_wait_object t = object \<and> t_wait_kind t = wait_kind"

text \<open>
  The scan of \<open>task_wake_get_id\<close>: the loop's state is \<open>(selected_index, selected_priority)\<close> and
  \<open>n\<close> is \<open>task_count\<close>, which also stands for "none selected".
\<close>

definition wake_scan ::
  "u32 \<Rightarrow> (u32 \<Rightarrow> task_t) \<Rightarrow> addr \<Rightarrow> task_wait_kind_t \<Rightarrow> u32 \<Rightarrow> u32 \<times> u32 \<Rightarrow> u32 \<times> u32" where
  "wake_scan n ts object wait_kind index sel =
    (if waits_on object wait_kind (ts index)
     then if fst sel = n \<or> t_priority (ts index) > snd sel
          then (index, t_priority (ts index)) else sel
     else sel)"

definition select_waiter :: "u32 \<Rightarrow> (u32 \<Rightarrow> task_t) \<Rightarrow> addr \<Rightarrow> task_wait_kind_t \<Rightarrow> u32" where
  "select_waiter n ts object wait_kind = fst (for_upto n (wake_scan n ts object wait_kind) (n, 0))"

definition task_wake_get_id :: "addr \<Rightarrow> task_wait_kind_t \<Rightarrow> kstate \<Rightarrow> u32 \<times> kstate" where
  "task_wake_get_id object wait_kind s =
    (let (saved_primask, s) = arch_critical_enter s;
         selected_index = select_waiter (task_count s) (tasks s) object wait_kind;
         s = (if selected_index \<noteq> task_count s then task_wait_end selected_index 1 0 s else s);
         s = arch_critical_exit saved_primask s
     in (if selected_index \<noteq> task_count s then selected_index else UINT32_MAX, s))"

definition task_wake :: "addr \<Rightarrow> task_wait_kind_t \<Rightarrow> kstate \<Rightarrow> int \<times> kstate" where
  "task_wake object wait_kind s =
    (let (woken, s) = task_wake_get_id object wait_kind s
     in (if woken \<noteq> UINT32_MAX then 1 else 0, s))"

section \<open>Wakes as state updates\<close>

lemma arch_critical_exit_eq: "arch_critical_exit p s =
   s\<lparr>g_critical_nesting := (if g_critical_nesting s \<noteq> 0 then g_critical_nesting s - 1 else 0), primask := p\<rparr>"
  by (simp add: kdefs Let_def)

lemma release_records_cs_enter: "release_records i c (cs_enter s) = release_records i c s"
  by (simp add: release_records_def task_benchmark_release_locked_def cs_enter_def set_record_def arch_cycle_counter_read_def)

lemma complete_records_cs_enter: "complete_records i (cs_enter s) = complete_records i s"
  by (simp add: complete_records_def task_benchmark_complete_locked_def cs_enter_def set_record_def arch_cycle_counter_read_def)

lemma task_wake_get_id_eq:
  "task_wake_get_id ob k s =
    (let i = select_waiter (task_count s) (tasks s) ob k;
         c = s\<lparr>g_critical_entries := g_critical_entries s + 1, g_critical_nesting := cs_nesting s,
               g_critical_nesting_max := cs_nesting_max s\<rparr>
     in if i = task_count s then (UINT32_MAX, c)
        else (i, c\<lparr>benchmark_records := release_records i 0 s,
                   tasks := (tasks s)(i := awake 1 (tasks s i))\<rparr>))"
  unfolding task_wake_get_id_def arch_critical_enter_eq task_wait_end_eq Let_def prod.case
    release_records_cs_enter arch_critical_exit_eq
  by (simp add: cs_enter_def cs_nesting_def)

definition waiters :: "u32 \<Rightarrow> (u32 \<Rightarrow> task_t) \<Rightarrow> addr \<Rightarrow> task_wait_kind_t \<Rightarrow> u32 set" where
  "waiters n ts ob k = {i. i < n \<and> waits_on ob k (ts i)}"

lemma finite_waiters [simp]: "finite (waiters n ts ob k)"
  by simp

text \<open>
  The scan's invariant: after \<open>m\<close> iterations the selection is the first of the best waiters among
  the first \<open>m\<close> tasks, or \<open>n\<close> when there is none.
\<close>

definition best_so_far :: "u32 \<Rightarrow> (u32 \<Rightarrow> task_t) \<Rightarrow> u32 set \<Rightarrow> u32 \<times> u32 \<Rightarrow> bool" where
  "best_so_far n ts W sel \<longleftrightarrow>
     (if W = {} then sel = (n, 0)
      else fst sel \<in> W \<and> snd sel = t_priority (ts (fst sel))
         \<and> (\<forall>j\<in>W. t_priority (ts j) \<le> snd sel \<and> (t_priority (ts j) = snd sel \<longrightarrow> fst sel \<le> j)))"

lemma best_so_far_step:
  assumes "best_so_far n ts W sel" and "\<forall>j\<in>W. j < i" and "i < n"
    and "W' = (if waits_on ob k (ts i) then insert i W else W)"
  shows "best_so_far n ts W' (wake_scan n ts ob k i sel)"
proof (cases "waits_on ob k (ts i)")
  case False
  with assms show ?thesis by (simp add: wake_scan_def)
next
  case True
  have "fst sel < n" if "W \<noteq> {}" using assms(1-3) that by (auto simp: best_so_far_def)
  with True assms show ?thesis
    by (cases "W = {}") (auto simp: best_so_far_def wake_scan_def)
qed

lemma select_waiter_best:
  "\<exists>p. best_so_far n ts (waiters n ts ob k) (select_waiter n ts ob k, p)"
proof -
  let ?W = "\<lambda>m. {i. unat i < m \<and> waits_on ob k (ts i)}"
  have "best_so_far n ts (?W (unat n)) (for_upto n (wake_scan n ts ob k) (n, 0))"
  proof (rule for_upto_induct)
    show "best_so_far n ts (?W 0) (n, 0)" by (simp add: best_so_far_def)
  next
    fix m :: nat and sel
    assume m: "m < unat n" "word_of_nat m < n" "unat (word_of_nat m :: u32) = m"
      and IH: "best_so_far n ts (?W m) sel"
    have "unat i < Suc m \<longleftrightarrow> unat i < m \<or> i = word_of_nat m" for i :: u32
      using m(3) by (auto simp: less_Suc_eq)
    then have "?W (Suc m) = (if waits_on ob k (ts (word_of_nat m)) then insert (word_of_nat m) (?W m) else ?W m)"
      by auto
    moreover have "\<forall>j\<in>?W m. j < word_of_nat m" by (simp add: word_less_unat m(3))
    ultimately show "best_so_far n ts (?W (Suc m)) (wake_scan n ts ob k (word_of_nat m) sel)"
      using IH m(2) by (intro best_so_far_step)
  qed
  moreover have "?W (unat n) = waiters n ts ob k" by (simp add: waiters_def word_less_unat)
  ultimately show ?thesis
    unfolding select_waiter_def by (metis prod.collapse)
qed

lemma select_waiter_none: "(select_waiter n ts ob k = n) = (waiters n ts ob k = {})"
  using select_waiter_best [of n ts ob k]
  by (auto simp: best_so_far_def waiters_def split: if_splits)

lemma select_waiter_in: "waiters n ts ob k \<noteq> {} \<Longrightarrow> select_waiter n ts ob k \<in> waiters n ts ob k"
  using select_waiter_best [of n ts ob k] by (auto simp: best_so_far_def)

lemma select_waiter_max:
  "j \<in> waiters n ts ob k \<Longrightarrow> t_priority (ts j) \<le> t_priority (ts (select_waiter n ts ob k))"
  using select_waiter_best [of n ts ob k] by (auto simp: best_so_far_def split: if_splits)

lemma select_waiter_first:
  "j \<in> waiters n ts ob k \<Longrightarrow> t_priority (ts j) = t_priority (ts (select_waiter n ts ob k))
    \<Longrightarrow> select_waiter n ts ob k \<le> j"
  using select_waiter_best [of n ts ob k] by (auto simp: best_so_far_def split: if_splits)

lemma waiters_awake:
  assumes "k \<noteq> TASK_WAIT_NONE"
  shows "waiters n (ts(i := awake r (ts i))) ob k = waiters n ts ob k - {i}"
  by (auto simp: waiters_def waits_on_def)


section \<open>The wait-queue interface\<close>

text \<open>
  What the synchronization objects rely on when they wake a task: the object's waiters form a
  finite set, a wake removes a waiter of the highest priority or reports that there is none, and
  does not change priorities. \<open>drain\<close> wakes up to \<open>n\<close> times and lists the tasks it woke.
\<close>

fun drain :: "('s \<Rightarrow> 'i option \<times> 's) \<Rightarrow> nat \<Rightarrow> 's \<Rightarrow> 'i list \<times> 's" where
  "drain wake 0 s = ([], s)"
| "drain wake (Suc n) s =
    (case wake s of
       (None, s) \<Rightarrow> ([], s)
     | (Some i, s) \<Rightarrow> (let (is, s) = drain wake n s in (i # is, s)))"

locale wait_queue =
  fixes wake :: "'s \<Rightarrow> 'i option \<times> 's"
    and waiting :: "'s \<Rightarrow> 'i set"
    and prio :: "'s \<Rightarrow> 'i \<Rightarrow> 'p :: linorder"
  assumes finite_waiting: "finite (waiting s)"
    and wake_none: "waiting s = {} \<Longrightarrow> fst (wake s) = None"
    and wake_some: "waiting s \<noteq> {} \<Longrightarrow> \<exists>i. fst (wake s) = Some i \<and> i \<in> waiting s"
    and wake_best: "fst (wake s) = Some i \<Longrightarrow> j \<in> waiting s \<Longrightarrow> prio s j \<le> prio s i"
    and wake_removes: "fst (wake s) = Some i \<Longrightarrow> waiting (snd (wake s)) = waiting s - {i}"
    and wake_prio: "prio (snd (wake s)) = prio s"
begin

lemma wake_None_iff: "(fst (wake s) = None) = (waiting s = {})"
  using wake_none wake_some by (metis option.distinct(1))

lemma wake_Some_in: "fst (wake s) = Some i \<Longrightarrow> i \<in> waiting s"
  using wake_None_iff wake_some by (metis option.distinct(1) option.inject)

lemma drain_all:
  "card (waiting s) = n \<Longrightarrow> drain wake n s = (is, t) \<Longrightarrow>
     set is = waiting s \<and> distinct is \<and> sorted_wrt (\<lambda>i j. prio s j \<le> prio s i) is
     \<and> waiting t = {} \<and> prio t = prio s"
proof (induction n arbitrary: s "is" t)
  case 0
  then show ?case using finite_waiting by simp
next
  case (Suc n)
  from Suc.prems(1) have "waiting s \<noteq> {}" by auto
  then obtain i where i: "fst (wake s) = Some i" "i \<in> waiting s" using wake_some by blast
  obtain js u where rest: "drain wake n (snd (wake s)) = (js, u)" by fastforce
  from Suc.prems(2) i rest have eq: "is = i # js" "t = u" by (auto simp: prod.case_eq_if)
  have rem: "waiting (snd (wake s)) = waiting s - {i}" by (rule wake_removes [OF i(1)])
  then have "card (waiting (snd (wake s))) = n"
    using Suc.prems(1) i(2) finite_waiting by simp
  from Suc.IH [OF this rest] have js: "set js = waiting s - {i}" "distinct js"
    "sorted_wrt (\<lambda>i j. prio s j \<le> prio s i) js" "waiting u = {}" "prio u = prio s"
    by (simp_all add: rem wake_prio)
  have "\<forall>j\<in>set js. prio s j \<le> prio s i" using js(1) wake_best [OF i(1)] by blast
  with js eq i(2) show ?case by auto
qed

end

definition wake_option :: "addr \<Rightarrow> task_wait_kind_t \<Rightarrow> kstate \<Rightarrow> u32 option \<times> kstate" where
  "wake_option ob k s =
    (let (i, s) = task_wake_get_id ob k s in (if i = UINT32_MAX then None else Some i, s))"

definition kernel_waiters :: "addr \<Rightarrow> task_wait_kind_t \<Rightarrow> kstate \<Rightarrow> u32 set" where
  "kernel_waiters ob k s = waiters (task_count s) (tasks s) ob k"

lemma select_waiter_not_max:
  "select_waiter n ts ob k \<noteq> n \<Longrightarrow> select_waiter n ts ob k \<noteq> UINT32_MAX"
  using select_waiter_in [of n ts ob k] unat_le32 [of n]
  by (auto simp: select_waiter_none waiters_def word_less_unat)

lemma wake_option_eq:
  "wake_option ob k s =
    (let i = select_waiter (task_count s) (tasks s) ob k
     in (if i = task_count s then None else Some i, snd (task_wake_get_id ob k s)))"
  using select_waiter_not_max [of "task_count s" "tasks s" ob k]
  by (auto simp: wake_option_def task_wake_get_id_eq Let_def)

lemma wait_queue_kernel:
  assumes "k \<noteq> TASK_WAIT_NONE"
  shows "wait_queue (wake_option ob k) (kernel_waiters ob k) (\<lambda>s i. t_priority (tasks s i))"
proof
  fix s :: kstate and i j :: u32
  let ?i = "select_waiter (task_count s) (tasks s) ob k"
  show "finite (kernel_waiters ob k s)" by (simp add: kernel_waiters_def)
  show "kernel_waiters ob k s = {} \<Longrightarrow> fst (wake_option ob k s) = None"
    by (simp add: wake_option_eq Let_def kernel_waiters_def flip: select_waiter_none)
  show "kernel_waiters ob k s \<noteq> {} \<Longrightarrow> \<exists>i. fst (wake_option ob k s) = Some i \<and> i \<in> kernel_waiters ob k s"
    using select_waiter_none select_waiter_in by (auto simp: wake_option_eq Let_def kernel_waiters_def)
  show "fst (wake_option ob k s) = Some i \<Longrightarrow> j \<in> kernel_waiters ob k s \<Longrightarrow>
      t_priority (tasks s j) \<le> t_priority (tasks s i)"
    by (auto simp: wake_option_eq Let_def kernel_waiters_def select_waiter_max split: if_splits)
  show "fst (wake_option ob k s) = Some i \<Longrightarrow>
      kernel_waiters ob k (snd (wake_option ob k s)) = kernel_waiters ob k s - {i}"
    by (auto simp: wake_option_eq Let_def kernel_waiters_def task_wake_get_id_eq
        waiters_awake [OF assms] split: if_splits)
  show "(\<lambda>i. t_priority (tasks (snd (wake_option ob k s)) i)) = (\<lambda>i. t_priority (tasks s i))"
    by (auto simp: wake_option_eq Let_def task_wake_get_id_eq fun_eq_iff)
qed

interpretation semaphore_waiters: wait_queue "wake_option ob TASK_WAIT_SEMAPHORE"
  "kernel_waiters ob TASK_WAIT_SEMAPHORE" "\<lambda>s i. t_priority (tasks s i)"
  by (rule wait_queue_kernel) simp

interpretation mutex_waiters: wait_queue "wake_option ob TASK_WAIT_MUTEX"
  "kernel_waiters ob TASK_WAIT_MUTEX" "\<lambda>s i. t_priority (tasks s i)"
  by (rule wait_queue_kernel) simp

interpretation send_waiters: wait_queue "wake_option ob TASK_WAIT_QUEUE_SEND"
  "kernel_waiters ob TASK_WAIT_QUEUE_SEND" "\<lambda>s i. t_priority (tasks s i)"
  by (rule wait_queue_kernel) simp

interpretation receive_waiters: wait_queue "wake_option ob TASK_WAIT_QUEUE_RECEIVE"
  "kernel_waiters ob TASK_WAIT_QUEUE_RECEIVE" "\<lambda>s i. t_priority (tasks s i)"
  by (rule wait_queue_kernel) simp


section \<open>Wakes, field by field\<close>

definition best_waiter :: "addr \<Rightarrow> task_wait_kind_t \<Rightarrow> kstate \<Rightarrow> u32" where
  "best_waiter ob k s = select_waiter (task_count s) (tasks s) ob k"

definition woken_tasks :: "addr \<Rightarrow> task_wait_kind_t \<Rightarrow> kstate \<Rightarrow> u32 \<Rightarrow> task_t" where
  "woken_tasks ob k s = (if kernel_waiters ob k s = {} then tasks s
     else (tasks s)(best_waiter ob k s := awake 1 (tasks s (best_waiter ob k s))))"

lemma best_waiter_in: "kernel_waiters ob k s \<noteq> {} \<Longrightarrow> best_waiter ob k s \<in> kernel_waiters ob k s"
  by (simp add: best_waiter_def kernel_waiters_def select_waiter_in)

lemma best_waiter_max:
  "j \<in> kernel_waiters ob k s \<Longrightarrow> t_priority (tasks s j) \<le> t_priority (tasks s (best_waiter ob k s))"
  by (simp add: best_waiter_def kernel_waiters_def select_waiter_max)

lemma best_waiter_below:
  assumes "kernel_waiters ob k s \<noteq> {}"
  shows "best_waiter ob k s < task_count s" and "best_waiter ob k s \<noteq> UINT32_MAX"
proof -
  show lt: "best_waiter ob k s < task_count s"
    using best_waiter_in [OF assms] by (simp add: kernel_waiters_def waiters_def)
  show "best_waiter ob k s \<noteq> UINT32_MAX"
    using lt unat_le32 [of "task_count s"] by (auto simp: word_less_unat)
qed

lemma best_waiter_none: "(best_waiter ob k s = task_count s) = (kernel_waiters ob k s = {})"
  by (simp add: best_waiter_def kernel_waiters_def select_waiter_none)

lemma waiters_cs_enter [simp]:
  "kernel_waiters ob k (cs_enter s) = kernel_waiters ob k s"
  "best_waiter ob k (cs_enter s) = best_waiter ob k s"
  "woken_tasks ob k (cs_enter s) = woken_tasks ob k s"
  by (simp_all add: kernel_waiters_def best_waiter_def woken_tasks_def cs_enter_def)

lemma task_wake_get_id_fields:
  "fst (task_wake_get_id ob k s) = (if kernel_waiters ob k s = {} then UINT32_MAX else best_waiter ob k s)"
  "tasks (snd (task_wake_get_id ob k s)) = woken_tasks ob k s"
  "task_count (snd (task_wake_get_id ob k s)) = task_count s"
  "current_task (snd (task_wake_get_id ob k s)) = current_task s"
  "g_current_task_index (snd (task_wake_get_id ob k s)) = g_current_task_index s"
  "primask (snd (task_wake_get_id ob k s)) = primask s"
  "ipsr (snd (task_wake_get_id ob k s)) = ipsr s"
  "g_kernel_ticks (snd (task_wake_get_id ob k s)) = g_kernel_ticks s"
  "semaphores (snd (task_wake_get_id ob k s)) = semaphores s"
  "mutexes (snd (task_wake_get_id ob k s)) = mutexes s"
  "mutex_list (snd (task_wake_get_id ob k s)) = mutex_list s"
  "queues (snd (task_wake_get_id ob k s)) = queues s"
  "mem8 (snd (task_wake_get_id ob k s)) = mem8 s"
  by (simp_all add: task_wake_get_id_eq Let_def woken_tasks_def
      flip: best_waiter_def best_waiter_none)

lemma task_wake_fields:
  "fst (task_wake ob k s) = (if kernel_waiters ob k s = {} then 0 else 1)"
  "tasks (snd (task_wake ob k s)) = woken_tasks ob k s"
  "task_count (snd (task_wake ob k s)) = task_count s"
  "current_task (snd (task_wake ob k s)) = current_task s"
  "g_current_task_index (snd (task_wake ob k s)) = g_current_task_index s"
  "primask (snd (task_wake ob k s)) = primask s"
  "ipsr (snd (task_wake ob k s)) = ipsr s"
  "g_kernel_ticks (snd (task_wake ob k s)) = g_kernel_ticks s"
  "semaphores (snd (task_wake ob k s)) = semaphores s"
  "mutexes (snd (task_wake ob k s)) = mutexes s"
  "mutex_list (snd (task_wake ob k s)) = mutex_list s"
  "queues (snd (task_wake ob k s)) = queues s"
  "mem8 (snd (task_wake ob k s)) = mem8 s"
  using best_waiter_below(2) [of ob k s]
  by (simp_all add: task_wake_def case_prod_beta task_wake_get_id_fields)

text \<open>A wake removes the woken task from every wait set and adds nobody to any.\<close>

lemma kernel_waiters_woken:
  assumes "tasks t = woken_tasks ob k s" and "task_count t = task_count s"
  shows "kernel_waiters ob' k' t =
    kernel_waiters ob' k' s - (if kernel_waiters ob k s = {} then {} else {best_waiter ob k s})"
  using assms by (auto simp: kernel_waiters_def waiters_def waits_on_def woken_tasks_def)

lemma kernel_waiters_blocked:
  assumes "tasks t = (tasks s)(i := blocked_on ob k d (tasks s i))" and "task_count t = task_count s"
    and "i < task_count s"
  shows "kernel_waiters ob' k' t =
    (if ob' = ob \<and> k' = k then insert i (kernel_waiters ob' k' s) else kernel_waiters ob' k' s - {i})"
  using assms by (auto simp: kernel_waiters_def waiters_def waits_on_def)

lemma task_block_until_locked_fields:
  "fst (task_block_until_locked ob k d p s) =
     (if deadline_passed (g_kernel_ticks s) (dl_start d) (dl_tick d) (dl_forever d) then Some 0 else None)"
  "tasks (snd (task_block_until_locked ob k d p s)) =
     (if deadline_passed (g_kernel_ticks s) (dl_start d) (dl_tick d) (dl_forever d) then tasks s
      else (tasks s)(current_task s := blocked_on ob k d (tasks s (current_task s))))"
  "task_count (snd (task_block_until_locked ob k d p s)) = task_count s"
  "current_task (snd (task_block_until_locked ob k d p s)) = current_task s"
  "g_current_task_index (snd (task_block_until_locked ob k d p s)) = g_current_task_index s"
  "primask (snd (task_block_until_locked ob k d p s)) = p"
  "g_kernel_ticks (snd (task_block_until_locked ob k d p s)) = g_kernel_ticks s"
  "semaphores (snd (task_block_until_locked ob k d p s)) = semaphores s"
  "mutexes (snd (task_block_until_locked ob k d p s)) = mutexes s"
  "mutex_list (snd (task_block_until_locked ob k d p s)) = mutex_list s"
  "queues (snd (task_block_until_locked ob k d p s)) = queues s"
  "mem8 (snd (task_block_until_locked ob k d p s)) = mem8 s"
  by (simp_all add: task_block_until_locked_def task_wait_begin_until_eq arch_critical_exit_eq
      arch_yield_def request_switch_def Let_def)

lemma cs_enter_fields [simp]:
  "tasks (cs_enter s) = tasks s" "task_count (cs_enter s) = task_count s"
  "current_task (cs_enter s) = current_task s"
  "g_current_task_index (cs_enter s) = g_current_task_index s"
  "primask (cs_enter s) = 1" "ipsr (cs_enter s) = ipsr s" "cfg (cs_enter s) = cfg s"
  "g_kernel_ticks (cs_enter s) = g_kernel_ticks s" "semaphores (cs_enter s) = semaphores s"
  "mutexes (cs_enter s) = mutexes s" "mutex_list (cs_enter s) = mutex_list s"
  "queues (cs_enter s) = queues s" "mem8 (cs_enter s) = mem8 s" "mem32 (cs_enter s) = mem32 s"
  "event_groups (cs_enter s) = event_groups s" "timers (cs_enter s) = timers s"
  "timer_list (cs_enter s) = timer_list s" "pools (cs_enter s) = pools s"
  "application_task_count (cs_enter s) = application_task_count s"
  "kernel_initialized (cs_enter s) = kernel_initialized s" "kernel_started (cs_enter s) = kernel_started s"
  "timer_service_task_index (cs_enter s) = timer_service_task_index s"
  by (simp_all add: cs_enter_def)

lemma cs_exit_fields [simp]:
  "tasks (arch_critical_exit p s) = tasks s" "task_count (arch_critical_exit p s) = task_count s"
  "current_task (arch_critical_exit p s) = current_task s"
  "g_current_task_index (arch_critical_exit p s) = g_current_task_index s"
  "primask (arch_critical_exit p s) = p" "ipsr (arch_critical_exit p s) = ipsr s"
  "cfg (arch_critical_exit p s) = cfg s"
  "g_kernel_ticks (arch_critical_exit p s) = g_kernel_ticks s"
  "semaphores (arch_critical_exit p s) = semaphores s"
  "mutexes (arch_critical_exit p s) = mutexes s" "mutex_list (arch_critical_exit p s) = mutex_list s"
  "queues (arch_critical_exit p s) = queues s" "mem8 (arch_critical_exit p s) = mem8 s"
  "mem32 (arch_critical_exit p s) = mem32 s"
  "event_groups (arch_critical_exit p s) = event_groups s" "timers (arch_critical_exit p s) = timers s"
  "timer_list (arch_critical_exit p s) = timer_list s" "pools (arch_critical_exit p s) = pools s"
  "application_task_count (arch_critical_exit p s) = application_task_count s"
  "kernel_initialized (arch_critical_exit p s) = kernel_initialized s"
  "kernel_started (arch_critical_exit p s) = kernel_started s"
  "timer_service_task_index (arch_critical_exit p s) = timer_service_task_index s"
  by (simp_all add: arch_critical_exit_eq)

lemma switch_fields [simp]:
  "tasks (arch_request_switch s) = tasks s" "task_count (arch_request_switch s) = task_count s"
  "current_task (arch_request_switch s) = current_task s" "primask (arch_request_switch s) = primask s"
  "semaphores (arch_request_switch s) = semaphores s" "mutexes (arch_request_switch s) = mutexes s"
  "queues (arch_request_switch s) = queues s" "mem8 (arch_request_switch s) = mem8 s"
  "event_groups (arch_request_switch s) = event_groups s" "timers (arch_request_switch s) = timers s"
  "timer_list (arch_request_switch s) = timer_list s" "pendsv_pending (arch_request_switch s)"
  "g_kernel_ticks (arch_request_switch s) = g_kernel_ticks s"
  "ipsr (arch_request_switch s) = ipsr s" "cfg (arch_request_switch s) = cfg s"
  by (simp_all add: arch_request_switch_def request_switch_def)

lemma task_wait_deadline_eq:
  "task_wait_deadline timeout s = (make_deadline (g_kernel_ticks s) timeout, cs_done s)"
  by (simp add: task_wait_deadline_def arch_critical_enter_eq critical_section_eq cs_done_def)

lemma cs_done_fields [simp]:
  "tasks (cs_done s) = tasks s" "task_count (cs_done s) = task_count s"
  "current_task (cs_done s) = current_task s"
  "g_current_task_index (cs_done s) = g_current_task_index s"
  "primask (cs_done s) = primask s" "ipsr (cs_done s) = ipsr s" "cfg (cs_done s) = cfg s"
  "g_kernel_ticks (cs_done s) = g_kernel_ticks s" "semaphores (cs_done s) = semaphores s"
  "mutexes (cs_done s) = mutexes s" "mutex_list (cs_done s) = mutex_list s"
  "queues (cs_done s) = queues s" "mem8 (cs_done s) = mem8 s"
  "event_groups (cs_done s) = event_groups s" "timers (cs_done s) = timers s"
  "timer_list (cs_done s) = timer_list s" "pools (cs_done s) = pools s"
  by (simp_all add: cs_done_def)

lemma waiters_cs_done [simp]:
  "kernel_waiters ob k (cs_done s) = kernel_waiters ob k s"
  "best_waiter ob k (cs_done s) = best_waiter ob k s"
  "woken_tasks ob k (cs_done s) = woken_tasks ob k s"
  by (simp_all add: kernel_waiters_def best_waiter_def woken_tasks_def)

section \<open>Properties of waiting and waking\<close>

definition wait_task :: "addr \<Rightarrow> task_wait_kind_t \<Rightarrow> u32 \<Rightarrow> task_t" where
  "wait_task ob k p = zero_task\<lparr>t_state := JRT_TASK_STATE_BLOCKED, t_wait_object := ob,
     t_wait_kind := k, t_priority := p\<rparr>"

text \<open>Three semaphore waiters of priorities 2, 7 and 7 on one object, and a running task.\<close>

definition waiting_state :: kstate where
  "waiting_state = (reset_state default_config)\<lparr>task_count := 4, tasks :=
     ((tasks (reset_state default_config))
        (0 := zero_task\<lparr>t_state := JRT_TASK_STATE_RUNNING\<rparr>,
         1 := wait_task 0x100 TASK_WAIT_SEMAPHORE 2,
         2 := wait_task 0x100 TASK_WAIT_SEMAPHORE 7,
         3 := wait_task 0x100 TASK_WAIT_SEMAPHORE 7))\<rparr>"

text \<open>\<open>task_wake_get_id\<close> wakes exactly one task when the object has waiters of the kind: the one
  with the lowest index among those of the highest priority. It becomes READY with result 1 and
  cleared wait data, every other control block is untouched, and its ID is returned. Without
  waiters no task changes and the result is \<open>UINT32_MAX\<close>.\<close>

theorem task_wake_get_id_spec:
  assumes "task_wake_get_id ob k s = (woken, s')"
  shows "if kernel_waiters ob k s = {} then woken = UINT32_MAX \<and> tasks s' = tasks s
    else woken \<in> kernel_waiters ob k s
      \<and> (\<forall>j \<in> kernel_waiters ob k s. t_priority (tasks s j) \<le> t_priority (tasks s woken)
           \<and> (t_priority (tasks s j) = t_priority (tasks s woken) \<longrightarrow> woken \<le> j))
      \<and> tasks s' = (tasks s)(woken := awake 1 (tasks s woken))"
  using assms select_waiter_in [of "task_count s" "tasks s" ob k]
    select_waiter_max [of _ "task_count s" "tasks s" ob k]
    select_waiter_first [of _ "task_count s" "tasks s" ob k]
  by (auto simp: task_wake_get_id_eq Let_def kernel_waiters_def select_waiter_none split: if_splits)

theorem task_wake_get_id_witness:
  "kernel_waiters 0x100 TASK_WAIT_SEMAPHORE waiting_state \<noteq> {}
   \<and> fst (task_wake_get_id 0x100 TASK_WAIT_SEMAPHORE waiting_state) = 2"
proof -
  let ?s = waiting_state
  have W: "kernel_waiters 0x100 TASK_WAIT_SEMAPHORE ?s = {1, 2, 3}"
    by (auto simp: kernel_waiters_def waiters_def waits_on_def waiting_state_def wait_task_def
        reset_state_def zero_task_def)
  obtain w s' where w: "task_wake_get_id 0x100 TASK_WAIT_SEMAPHORE ?s = (w, s')" by fastforce
  have p: "t_priority (tasks ?s 1) = 2" "t_priority (tasks ?s 2) = 7" "t_priority (tasks ?s 3) = 7"
    by (simp_all add: waiting_state_def wait_task_def)
  from task_wake_get_id_spec [OF w] W p have "w = 2" by auto
  with w W show ?thesis by simp
qed

text \<open>Waking an object until no waiter is left releases every waiter exactly once, in
  order of non-increasing priority, and changes no priority: no waiter is lost or starved by
  the wake order.\<close>

theorem wake_drains_by_priority:
  assumes "k \<noteq> TASK_WAIT_NONE"
    and "drain (wake_option ob k) (card (kernel_waiters ob k s)) s = (ids, s')"
  shows "set ids = kernel_waiters ob k s \<and> distinct ids
    \<and> sorted_wrt (\<lambda>i j. t_priority (tasks s j) \<le> t_priority (tasks s i)) ids
    \<and> kernel_waiters ob k s' = {}"
  using wait_queue.drain_all [OF wait_queue_kernel [OF assms(1)] refl assms(2)] by simp

theorem wake_drains_witness:
  "TASK_WAIT_SEMAPHORE \<noteq> TASK_WAIT_NONE
   \<and> set (fst (drain (wake_option 0x100 TASK_WAIT_SEMAPHORE)
       (card (kernel_waiters 0x100 TASK_WAIT_SEMAPHORE waiting_state)) waiting_state)) = {1, 2, 3}"
proof -
  have W: "kernel_waiters 0x100 TASK_WAIT_SEMAPHORE waiting_state = {1, 2, 3}"
    by (auto simp: kernel_waiters_def waiters_def waits_on_def waiting_state_def wait_task_def
        reset_state_def zero_task_def)
  show ?thesis
    using wake_drains_by_priority [of TASK_WAIT_SEMAPHORE "0x100" waiting_state, OF _ prod.collapse [symmetric]] W
    by simp
qed

text \<open>A finite timeout expires at exactly the tick it names, for every start tick and
  every timeout up to \<open>UINT32_MAX - 1\<close>: after \<open>n\<close> ticks the wait has expired if and only if
  \<open>timeout \<le> n\<close>, also when the tick counter wraps in between.\<close>

theorem deadline_exact:
  assumes "timeout_ticks \<noteq> JRT_WAIT_FOREVER" and "n < 2 ^ 32"
  shows "let d = make_deadline now timeout_ticks in
    deadline_passed (now + word_of_nat n) (dl_start d) (dl_tick d) (dl_forever d)
      \<longleftrightarrow> unat timeout_ticks \<le> n"
  using assms by (simp add: deadline_passed_def make_deadline_def word_le_unat unat_of_nat32)

theorem deadline_exact_witness:
  "(10 :: u32) \<noteq> JRT_WAIT_FOREVER \<and> (10 :: nat) < 2 ^ 32
   \<and> (let d = make_deadline 0xFFFFFFFE 10 in
       deadline_passed (0xFFFFFFFE + word_of_nat 10) (dl_start d) (dl_tick d) (dl_forever d))"
  using deadline_exact [of 10 10 "0xFFFFFFFE"] by simp

end
