(* ===== verification/JRT_Priority.thy ===== *)
theory JRT_Priority
  imports JRT_Wait
begin

text \<open>
  Priority inheritance (\<open>kernel/task.c\<close>, lines 299 to 433). The functions read the mutex store
  and change only the \<open>priority\<close> fields, so their loops are written over those two and the
  task count; \<open>exact_priorities\<close> is the contract: every task's priority is its base priority
  or that of its most urgent mutex waiter, whichever is higher.
\<close>

section \<open>The loops\<close>

text \<open>Task \<open>i\<close> is blocked on a locked mutex whose owner is \<open>tid\<close>.\<close>

definition blocked_on_mutex :: "task_t \<Rightarrow> bool" where
  "blocked_on_mutex t \<longleftrightarrow> t_state t = JRT_TASK_STATE_BLOCKED \<and> t_wait_kind t = TASK_WAIT_MUTEX
     \<and> t_wait_object t \<noteq> NULL"

definition waits_for :: "(addr \<Rightarrow> JRT_Mutex_t) \<Rightarrow> (u32 \<Rightarrow> task_t) \<Rightarrow> u32 \<Rightarrow> u32 \<Rightarrow> bool" where
  "waits_for ms ts i tid \<longleftrightarrow> blocked_on_mutex (ts i)
     \<and> m_locked (ms (t_wait_object (ts i))) \<noteq> 0 \<and> m_owner (ms (t_wait_object (ts i))) = tid"

definition set_priority :: "u32 \<Rightarrow> u32 \<Rightarrow> (u32 \<Rightarrow> task_t) \<Rightarrow> u32 \<Rightarrow> task_t" where
  "set_priority i p ts = ts(i := (ts i)\<lparr>t_priority := p\<rparr>)"

text \<open>The loop of \<open>task_inherit_priority\<close>; the first argument counts down from \<open>task_count\<close>.\<close>

fun inherit_loop ::
  "nat \<Rightarrow> u32 \<Rightarrow> (addr \<Rightarrow> JRT_Mutex_t) \<Rightarrow> u32 \<Rightarrow> u32 \<Rightarrow> (u32 \<Rightarrow> task_t) \<Rightarrow> u32 \<Rightarrow> task_t" where
  "inherit_loop 0 n ms owner_id inherited ts = ts"
| "inherit_loop (Suc depth) n ms owner_id inherited ts =
    (if owner_id \<ge> n then ts
     else
       let ts = (if t_priority (ts owner_id) < inherited
                 then set_priority owner_id inherited ts else ts)
       in if \<not> blocked_on_mutex (ts owner_id) then ts
          else
            let blocking_mutex = ms (t_wait_object (ts owner_id))
            in if m_locked blocking_mutex = 0 \<or> m_owner blocking_mutex \<ge> n
                  \<or> m_owner blocking_mutex = owner_id
               then ts
               else inherit_loop depth n ms (m_owner blocking_mutex) inherited ts)"

definition task_inherit_priority :: "u32 \<Rightarrow> u32 \<Rightarrow> kstate \<Rightarrow> kstate" where
  "task_inherit_priority task_id priority s =
    (let (saved_primask, s) = arch_critical_enter s;
         s = s\<lparr>tasks := inherit_loop (unat (task_count s)) (task_count s) (mutexes s)
                 task_id priority (tasks s)\<rparr>
     in arch_critical_exit saved_primask s)"

text \<open>The inner scan, shared by \<open>restore_priority_chain\<close> and \<open>task_restore_priority\<close>.\<close>

definition effective_priority :: "u32 \<Rightarrow> (addr \<Rightarrow> JRT_Mutex_t) \<Rightarrow> (u32 \<Rightarrow> task_t) \<Rightarrow> u32 \<Rightarrow> u32" where
  "effective_priority n ms ts tid =
    for_upto n (\<lambda>scan effective.
        if waits_for ms ts scan tid \<and> t_priority (ts scan) > effective
        then t_priority (ts scan) else effective)
      (t_base_priority (ts tid))"

fun restore_loop ::
  "nat \<Rightarrow> u32 \<Rightarrow> (addr \<Rightarrow> JRT_Mutex_t) \<Rightarrow> u32 \<Rightarrow> (u32 \<Rightarrow> task_t) \<Rightarrow> u32 \<Rightarrow> task_t" where
  "restore_loop 0 n ms tid ts = ts"
| "restore_loop (Suc depth) n ms tid ts =
    (if tid \<ge> n then ts
     else
       let old_priority = t_priority (ts tid);
           effective = effective_priority n ms ts tid;
           ts = set_priority tid effective ts
       in if effective = old_priority then ts
          else if \<not> blocked_on_mutex (ts tid) then ts
          else
            let m = ms (t_wait_object (ts tid))
            in if m_locked m = 0 \<or> m_owner m \<ge> n \<or> m_owner m = tid then ts
               else restore_loop depth n ms (m_owner m) ts)"

definition restore_priority_chain :: "u32 \<Rightarrow> kstate \<Rightarrow> kstate" where [kdefs]:
  "restore_priority_chain start_id s =
     s\<lparr>tasks := restore_loop (unat (task_count s)) (task_count s) (mutexes s) start_id (tasks s)\<rparr>"

definition task_restore_priority :: "u32 \<Rightarrow> kstate \<Rightarrow> kstate" where
  "task_restore_priority task_id s =
    (let (saved_primask, s) = arch_critical_enter s;
         s = (if task_id < task_count s
              then s\<lparr>tasks := set_priority task_id
                     (effective_priority (task_count s) (mutexes s) (tasks s) task_id) (tasks s)\<rparr>
              else s)
     in arch_critical_exit saved_primask s)"

section \<open>Only priorities change\<close>

lemma set_priority_simps [simp]:
  "t_priority (set_priority i p ts j) = (if j = i then p else t_priority (ts j))"
  "t_base_priority (set_priority i p ts j) = t_base_priority (ts j)"
  "t_state (set_priority i p ts j) = t_state (ts j)"
  "t_wait_kind (set_priority i p ts j) = t_wait_kind (ts j)"
  "t_wait_object (set_priority i p ts j) = t_wait_object (ts j)"
  by (simp_all add: set_priority_def)

lemma blocked_on_mutex_set_priority [simp]:
  "blocked_on_mutex (set_priority i p ts j) = blocked_on_mutex (ts j)"
  by (simp add: blocked_on_mutex_def)

lemma waits_for_set_priority [simp]: "waits_for ms (set_priority i p ts) = waits_for ms ts"
  by (simp add: waits_for_def fun_eq_iff)

definition same_but_priority :: "(u32 \<Rightarrow> task_t) \<Rightarrow> (u32 \<Rightarrow> task_t) \<Rightarrow> bool" where
  "same_but_priority ts ts' \<longleftrightarrow> (\<forall>i. \<exists>p. ts' i = (ts i)\<lparr>t_priority := p\<rparr>)"

lemma same_but_priority_refl [simp]: "same_but_priority ts ts"
  unfolding same_but_priority_def by (metis task_t.surjective task_t.update_convs(11))

lemma same_but_priority_set_priority [simp]: "same_but_priority ts (set_priority i p ts)"
  unfolding same_but_priority_def set_priority_def
  by (metis fun_upd_apply task_t.surjective task_t.update_convs(11))

lemma same_but_priority_trans:
  assumes "same_but_priority ts us" and "same_but_priority us vs"
  shows "same_but_priority ts vs"
  unfolding same_but_priority_def
proof
  fix i
  from assms obtain p q where "us i = (ts i)\<lparr>t_priority := p\<rparr>" "vs i = (us i)\<lparr>t_priority := q\<rparr>"
    unfolding same_but_priority_def by blast
  then show "\<exists>p. vs i = (ts i)\<lparr>t_priority := p\<rparr>" by auto
qed

lemma same_but_priority_fields:
  assumes "same_but_priority ts us"
  shows "t_state (us i) = t_state (ts i)" and "t_base_priority (us i) = t_base_priority (ts i)"
    and "t_wait_object (us i) = t_wait_object (ts i)" and "t_wait_kind (us i) = t_wait_kind (ts i)"
    and "t_wait_result (us i) = t_wait_result (ts i)"
    and "t_wait_start (us i) = t_wait_start (ts i)"
    and "t_wait_deadline (us i) = t_wait_deadline (ts i)"
    and "t_wait_forever (us i) = t_wait_forever (ts i)"
    and "t_sleep_ticks (us i) = t_sleep_ticks (ts i)"
    and "t_notification_value (us i) = t_notification_value (ts i)"
proof -
  from assms obtain p where "us i = (ts i)\<lparr>t_priority := p\<rparr>"
    unfolding same_but_priority_def by blast
  then show "t_state (us i) = t_state (ts i)" and "t_base_priority (us i) = t_base_priority (ts i)"
    and "t_wait_object (us i) = t_wait_object (ts i)" and "t_wait_kind (us i) = t_wait_kind (ts i)"
    and "t_wait_result (us i) = t_wait_result (ts i)"
    and "t_wait_start (us i) = t_wait_start (ts i)"
    and "t_wait_deadline (us i) = t_wait_deadline (ts i)"
    and "t_wait_forever (us i) = t_wait_forever (ts i)"
    and "t_sleep_ticks (us i) = t_sleep_ticks (ts i)"
    and "t_notification_value (us i) = t_notification_value (ts i)"
    by simp_all
qed

lemma waits_for_same: "same_but_priority ts us \<Longrightarrow> waits_for ms us = waits_for ms ts"
  by (simp add: waits_for_def blocked_on_mutex_def fun_eq_iff same_but_priority_fields)

lemma same_but_priority_inherit: "same_but_priority ts (inherit_loop d n ms i p ts)"
proof (induction d arbitrary: i ts)
  case (Suc d)
  let ?ts = "if t_priority (ts i) < p then set_priority i p ts else ts"
  have "same_but_priority ts ?ts" by simp
  moreover have "same_but_priority ?ts (inherit_loop d n ms j p ?ts)" for j by (rule Suc.IH)
  ultimately have step: "same_but_priority ts (inherit_loop d n ms j p ?ts)" for j
    by (rule same_but_priority_trans)
  show ?case
    using step by (cases "t_priority (ts i) < p") (simp_all add: Let_def)
qed simp

lemma same_but_priority_restore: "same_but_priority ts (restore_loop d n ms i ts)"
proof (induction d arbitrary: i ts)
  case (Suc d)
  let ?ts = "set_priority i (effective_priority n ms ts i) ts"
  have "same_but_priority ts ?ts" by simp
  moreover have "same_but_priority ?ts (restore_loop d n ms j ?ts)" for j by (rule Suc.IH)
  ultimately have "same_but_priority ts (restore_loop d n ms j ?ts)" for j
    by (rule same_but_priority_trans)
  then show ?case by (simp add: Let_def)
qed simp

section \<open>The effective priority\<close>

text \<open>
  The contract. \<open>demand D i\<close> is the priority task \<open>i\<close> is entitled to: the highest of its base
  priority, the priorities of the tasks that wait for a mutex it owns, and of \<open>D i\<close>, the demands
  that are registered but not yet visible as a blocked task.
\<close>

definition mutex_waiters_of :: "u32 \<Rightarrow> (addr \<Rightarrow> JRT_Mutex_t) \<Rightarrow> (u32 \<Rightarrow> task_t) \<Rightarrow> u32 \<Rightarrow> u32 set" where
  "mutex_waiters_of n ms ts i = {j. j < n \<and> waits_for ms ts j i}"

definition demand ::
  "u32 \<Rightarrow> (addr \<Rightarrow> JRT_Mutex_t) \<Rightarrow> (u32 \<Rightarrow> u32 set) \<Rightarrow> (u32 \<Rightarrow> task_t) \<Rightarrow> u32 \<Rightarrow> u32" where
  "demand n ms D ts i =
     Max (insert (t_base_priority (ts i)) (D i \<union> (\<lambda>j. t_priority (ts j)) ` mutex_waiters_of n ms ts i))"

definition exact_with ::
  "u32 \<Rightarrow> (addr \<Rightarrow> JRT_Mutex_t) \<Rightarrow> (u32 \<Rightarrow> u32 set) \<Rightarrow> (u32 \<Rightarrow> task_t) \<Rightarrow> bool" where
  "exact_with n ms D ts \<longleftrightarrow> (\<forall>i<n. t_priority (ts i) = demand n ms D ts i)"

lemma mutex_waiters_of_set_priority [simp]:
  "mutex_waiters_of n ms (set_priority k p ts) = mutex_waiters_of n ms ts"
  by (simp add: mutex_waiters_of_def fun_eq_iff)

lemma waits_for_unique: "waits_for ms ts k i \<Longrightarrow> waits_for ms ts k j \<Longrightarrow> i = j"
  by (simp add: waits_for_def)

lemma demand_le_iff:
  "demand n ms D ts i \<le> p \<longleftrightarrow> t_base_priority (ts i) \<le> p \<and> (\<forall>q\<in>D i. q \<le> p)
     \<and> (\<forall>j\<in>mutex_waiters_of n ms ts i. t_priority (ts j) \<le> p)"
  by (auto simp: demand_def)

lemma waiter_le_demand: "k \<in> mutex_waiters_of n ms ts i \<Longrightarrow> t_priority (ts k) \<le> demand n ms D ts i"
  using demand_le_iff by blast

lemma base_le_demand: "t_base_priority (ts i) \<le> demand n ms D ts i"
  using demand_le_iff by blast

lemma demand_cong:
  assumes "mutex_waiters_of n ms ts' i = mutex_waiters_of n ms ts i"
    and "t_base_priority (ts' i) = t_base_priority (ts i)" and "D' i = D i"
    and "\<And>j. j \<in> mutex_waiters_of n ms ts i \<Longrightarrow> t_priority (ts' j) = t_priority (ts j)"
  shows "demand n ms D' ts' i = demand n ms D ts i"
  using assms by (simp add: demand_def cong: image_cong_simp)

lemma demand_set_priority_other:
  "k \<notin> mutex_waiters_of n ms ts i \<Longrightarrow> demand n ms D (set_priority k p ts) i = demand n ms D ts i"
  by (rule demand_cong) auto

lemma demand_raise:
  assumes "k \<in> mutex_waiters_of n ms ts i" and "t_priority (ts k) \<le> p"
  shows "demand n ms D (set_priority k p ts) i = max (demand n ms D ts i) p"
proof (rule order.antisym)
  show "demand n ms D (set_priority k p ts) i \<le> max (demand n ms D ts i) p"
    unfolding demand_le_iff
    using demand_le_iff [of n ms D ts i "demand n ms D ts i"] by (auto simp: le_max_iff_disj)
  let ?d = "demand n ms D (set_priority k p ts) i"
  have "p \<le> ?d"
    using waiter_le_demand [of k n ms "set_priority k p ts" i D] assms(1) by simp
  moreover have "demand n ms D ts i \<le> ?d"
    unfolding demand_le_iff
  proof (intro conjI ballI)
    show "t_base_priority (ts i) \<le> ?d" using base_le_demand [of "set_priority k p ts" i] by simp
    show "q \<le> ?d" if "q \<in> D i" for q using that demand_le_iff by blast
    show "t_priority (ts j) \<le> ?d" if "j \<in> mutex_waiters_of n ms ts i" for j
      using waiter_le_demand [of j n ms "set_priority k p ts" i D] that assms(2)
      by (auto split: if_splits)
  qed
  ultimately show "max (demand n ms D ts i) p \<le> ?d" by simp
qed

lemma demand_lower:
  assumes "p \<le> t_priority (ts k)"
  shows "demand n ms D (set_priority k p ts) i \<le> demand n ms D ts i"
proof -
  have "t_priority (set_priority k p ts j) \<le> t_priority (ts j)" for j using assms by simp
  then have "t_priority (set_priority k p ts j) \<le> demand n ms D ts i"
    if "j \<in> mutex_waiters_of n ms ts i" for j
    using waiter_le_demand [OF that] order_trans by blast
  then show ?thesis
    unfolding demand_le_iff
    using demand_le_iff [of n ms D ts i "demand n ms D ts i"] by simp
qed

text \<open>The scan computes the demand without pending ones.\<close>

lemma effective_priority_demand: "effective_priority n ms ts tid = demand n ms (\<lambda>_. {}) ts tid"
proof -
  let ?W = "\<lambda>k. {j. unat j < k \<and> waits_for ms ts j tid}"
  let ?P = "\<lambda>k e. e = Max (insert (t_base_priority (ts tid)) ((\<lambda>j. t_priority (ts j)) ` ?W k))"
  have "?P (unat n) (effective_priority n ms ts tid)"
    unfolding effective_priority_def
  proof (rule for_upto_induct)
    show "?P 0 (t_base_priority (ts tid))" by simp
  next
    fix k :: nat and e :: u32
    assume k: "unat (word_of_nat k :: u32) = k" and IH: "?P k e"
    let ?i = "word_of_nat k :: u32"
    have "unat j < Suc k \<longleftrightarrow> unat j < k \<or> j = ?i" for j :: u32
      using k by (auto simp: less_Suc_eq)
    then have "?W (Suc k) = (if waits_for ms ts ?i tid then insert ?i (?W k) else ?W k)" by auto
    then have "Max (insert (t_base_priority (ts tid)) ((\<lambda>j. t_priority (ts j)) ` ?W (Suc k)))
        = (if waits_for ms ts ?i tid then max (t_priority (ts ?i)) e else e)"
      by (simp only: IH image_insert insert_commute [of "t_base_priority (ts tid)"] if_distrib if_cancel
          cong: if_cong) (simp del: Max_insert add: Max_insert [of "insert _ _"])
    then show "?P (Suc k) (if waits_for ms ts ?i tid \<and> e < t_priority (ts ?i)
        then t_priority (ts ?i) else e)"
      by (simp only: max_def not_less) auto
  qed
  then show ?thesis by (simp add: demand_def mutex_waiters_of_def word_less_unat)
qed


section \<open>Inheritance keeps the contract\<close>

text \<open>
  While \<open>task_inherit_priority\<close> is at task \<open>k\<close>, only \<open>k\<close> may lack its demand, and what it lacks is
  the inherited priority. The fuel \<open>task_count\<close> is enough because every raise takes a task out of
  the set of those below the inherited priority.
\<close>

definition raise_pending ::
  "u32 \<Rightarrow> (addr \<Rightarrow> JRT_Mutex_t) \<Rightarrow> (u32 \<Rightarrow> u32 set) \<Rightarrow> u32 \<Rightarrow> u32 \<Rightarrow> (u32 \<Rightarrow> task_t) \<Rightarrow> bool" where
  "raise_pending n ms D p k ts \<longleftrightarrow>
     (\<forall>i<n. i \<noteq> k \<longrightarrow> t_priority (ts i) = demand n ms D ts i)
   \<and> (k < n \<longrightarrow> demand n ms D ts k = max (t_priority (ts k)) p)"

lemma next_owner:
  "blocked_on_mutex (ts k) \<Longrightarrow> m_locked (ms (t_wait_object (ts k))) \<noteq> 0 \<Longrightarrow>
    waits_for ms ts k (m_owner (ms (t_wait_object (ts k))))"
  by (simp add: waits_for_def)

lemma no_next_owner:
  "\<not> blocked_on_mutex (ts k) \<or> m_locked (ms (t_wait_object (ts k))) = 0 \<Longrightarrow> \<not> waits_for ms ts k i"
  by (auto simp: waits_for_def)

lemma inherit_loop_idle:
  assumes "exact_with n ms D ts" and "k < n \<Longrightarrow> p \<le> t_priority (ts k)"
  shows "inherit_loop d n ms k p ts = ts"
  using assms(2)
proof (induction d arbitrary: k)
  case (Suc d)
  show ?case
  proof (cases "n \<le> k \<or> \<not> blocked_on_mutex (ts k) \<or> m_locked (ms (t_wait_object (ts k))) = 0")
    case True
    with Suc.prems show ?thesis by (auto simp: not_less [symmetric] Let_def)
  next
    case False
    let ?j = "m_owner (ms (t_wait_object (ts k)))"
    have k: "k < n" using False by (simp add: not_le)
    have "waits_for ms ts k ?j" using False by (simp add: next_owner)
    with k have "t_priority (ts k) \<le> demand n ms D ts ?j"
      by (intro waiter_le_demand) (simp add: mutex_waiters_of_def)
    with assms(1) Suc.prems k have "?j < n \<Longrightarrow> p \<le> t_priority (ts ?j)"
      by (auto simp: exact_with_def intro: order_trans)
    from Suc.IH [OF this] k Suc.prems show ?thesis by (simp add: Let_def not_less [symmetric])
  qed
qed simp

lemma raise_pending_step:
  assumes pend: "raise_pending n ms D p k ts" and k: "k < n" "t_priority (ts k) < p"
  shows "\<not> (\<exists>j<n. j \<noteq> k \<and> waits_for ms ts k j) \<Longrightarrow> exact_with n ms D (set_priority k p ts)"
    and "waits_for ms ts k j \<Longrightarrow> j \<noteq> k \<Longrightarrow> j < n \<Longrightarrow> raise_pending n ms D p j (set_priority k p ts)"
proof -
  let ?ts = "set_priority k p ts"
  have own: "demand n ms D ?ts k = p"
  proof (cases "k \<in> mutex_waiters_of n ms ts k")
    case True
    then show ?thesis using pend k by (simp add: demand_raise raise_pending_def)
  next
    case False
    then show ?thesis using pend k by (simp add: demand_set_priority_other raise_pending_def)
  qed
  have other: "demand n ms D ?ts i = demand n ms D ts i" if "\<not> waits_for ms ts k i" for i
    using that by (intro demand_set_priority_other) (simp add: mutex_waiters_of_def)
  show "exact_with n ms D ?ts" if none: "\<not> (\<exists>j<n. j \<noteq> k \<and> waits_for ms ts k j)"
    unfolding exact_with_def
  proof (intro allI impI)
    fix i assume i: "i < n"
    show "t_priority (?ts i) = demand n ms D ?ts i"
    proof (cases "i = k")
      case False
      with none i have "\<not> waits_for ms ts k i" by blast
      with other i False pend show ?thesis by (simp add: raise_pending_def)
    qed (simp add: own)
  qed
  show "raise_pending n ms D p j ?ts" if j: "waits_for ms ts k j" "j \<noteq> k" "j < n"
    unfolding raise_pending_def
  proof (intro conjI allI impI)
    fix i assume i: "i < n" "i \<noteq> j"
    show "t_priority (?ts i) = demand n ms D ?ts i"
    proof (cases "i = k")
      case False
      with waits_for_unique [OF j(1)] i have "\<not> waits_for ms ts k i" by blast
      with other i False pend show ?thesis by (simp add: raise_pending_def)
    qed (simp add: own)
  next
    have "demand n ms D ?ts j = max (demand n ms D ts j) p"
      using j(1) k by (intro demand_raise) (simp_all add: mutex_waiters_of_def)
    with pend j show "demand n ms D ?ts j = max (t_priority (?ts j)) p"
      by (simp add: raise_pending_def)
  qed
qed

lemma below_after_raise:
  assumes "k < n" and "t_priority (ts k) < p"
  shows "card {i. i < n \<and> t_priority (set_priority k p ts i) < p} < card {i. i < n \<and> t_priority (ts i) < p}"
  by (rule psubset_card_mono) (use assms in \<open>auto split: if_splits\<close>)

lemma raise_settled:
  assumes "raise_pending n ms D p k ts" and "k < n \<Longrightarrow> p \<le> t_priority (ts k)"
  shows "exact_with n ms D ts"
  unfolding exact_with_def
proof (intro allI impI)
  fix i assume "i < n"
  with assms show "t_priority (ts i) = demand n ms D ts i"
    by (cases "i = k") (auto simp: raise_pending_def max_def)
qed

lemma inherit_loop_exact:
  "raise_pending n ms D p k ts \<Longrightarrow> card {i. i < n \<and> t_priority (ts i) < p} \<le> d \<Longrightarrow>
     exact_with n ms D (inherit_loop d n ms k p ts)"
proof (induction d arbitrary: k ts)
  case (Suc d)
  show ?case
  proof (cases "k < n \<and> t_priority (ts k) < p")
    case False
    with Suc.prems(1) have "exact_with n ms D ts"
      by (intro raise_settled) (auto simp: not_less)
    with False show ?thesis using inherit_loop_idle [of n ms D ts k p] by (auto simp: not_less simp del: inherit_loop.simps)
  next
    case True
    let ?ts = "set_priority k p ts"
    let ?j = "m_owner (ms (t_wait_object (ts k)))"
    have fuel: "card {i. i < n \<and> t_priority (?ts i) < p} \<le> d"
      using below_after_raise [of k n ts p] True Suc.prems(2) by simp
    show ?thesis
    proof (cases "blocked_on_mutex (ts k) \<and> m_locked (ms (t_wait_object (ts k))) \<noteq> 0 \<and> ?j < n \<and> ?j \<noteq> k")
      case go: True
      then have "raise_pending n ms D p ?j ?ts"
        using raise_pending_step(2) [OF Suc.prems(1)] True by (simp add: next_owner)
      from Suc.IH [OF this fuel] go True show ?thesis by (simp add: Let_def not_less [symmetric])
    next
      case stop: False
      then have "\<not> (\<exists>j<n. j \<noteq> k \<and> waits_for ms ts k j)" by (auto simp: waits_for_def)
      from raise_pending_step(1) [OF Suc.prems(1) _ _ this] True have "exact_with n ms D ?ts" by simp
      moreover have "inherit_loop (Suc d) n ms k p ts = ?ts"
        using stop True by (auto simp: Let_def not_less [symmetric])
      ultimately show ?thesis by simp
    qed
  qed
next
  case 0
  then have "\<not> (k < n \<and> t_priority (ts k) < p)" by auto
  then have "k < n \<Longrightarrow> p \<le> t_priority (ts k)" by (simp add: not_less)
  from raise_settled [OF 0(1) this] show ?case by simp
qed

section \<open>Restoring keeps the contract\<close>

text \<open>
  While \<open>restore_priority_chain\<close> is at task \<open>k\<close>, only \<open>k\<close> may hold more than its demand. Each
  task the loop passes drops below the priority of the next one, so the tasks of at least the
  current priority get fewer and the fuel \<open>task_count\<close> is enough; a task on a cycle of waits
  keeps its priority, so the loop stops there.
\<close>

definition lower_pending ::
  "u32 \<Rightarrow> (addr \<Rightarrow> JRT_Mutex_t) \<Rightarrow> u32 \<Rightarrow> (u32 \<Rightarrow> task_t) \<Rightarrow> bool" where
  "lower_pending n ms k ts \<longleftrightarrow>
     (\<forall>i<n. i \<noteq> k \<longrightarrow> t_priority (ts i) = effective_priority n ms ts i)
   \<and> (k < n \<longrightarrow> effective_priority n ms ts k \<le> t_priority (ts k))"

definition exact :: "u32 \<Rightarrow> (addr \<Rightarrow> JRT_Mutex_t) \<Rightarrow> (u32 \<Rightarrow> task_t) \<Rightarrow> bool" where
  "exact n ms ts \<longleftrightarrow> (\<forall>i<n. t_priority (ts i) = effective_priority n ms ts i)"

lemma exact_iff_with: "exact n ms ts = exact_with n ms (\<lambda>_. {}) ts"
  by (simp add: exact_def exact_with_def effective_priority_demand)

lemma waiter_le_effective:
  "k < n \<Longrightarrow> waits_for ms ts k i \<Longrightarrow> t_priority (ts k) \<le> effective_priority n ms ts i"
  unfolding effective_priority_demand by (rule waiter_le_demand) (simp add: mutex_waiters_of_def)

lemma lower_pending_step:
  assumes pend: "lower_pending n ms k ts" and k: "k < n" and e: "e = effective_priority n ms ts k"
    and drop: "e \<noteq> t_priority (ts k)"
  shows "\<not> (\<exists>j<n. j \<noteq> k \<and> waits_for ms ts k j) \<Longrightarrow> exact n ms (set_priority k e ts)"
    and "waits_for ms ts k j \<Longrightarrow> j \<noteq> k \<Longrightarrow> j < n \<Longrightarrow> lower_pending n ms j (set_priority k e ts)"
proof -
  let ?ts = "set_priority k e ts"
  have le: "e \<le> t_priority (ts k)" using pend e k by (simp add: lower_pending_def)
  have "\<not> waits_for ms ts k k"
    using waiter_le_effective [OF k, of ms ts k] le drop e by (auto dest: order.antisym)
  have other: "effective_priority n ms ?ts i = effective_priority n ms ts i" if "\<not> waits_for ms ts k i" for i
    unfolding effective_priority_demand
    using that by (intro demand_set_priority_other) (simp add: mutex_waiters_of_def)
  have own: "effective_priority n ms ?ts k = e" using other \<open>\<not> waits_for ms ts k k\<close> e by simp
  have rest: "t_priority (?ts i) = effective_priority n ms ?ts i"
    if "i < n" and "\<not> waits_for ms ts k i" for i
    using that other own pend by (cases "i = k") (simp_all add: lower_pending_def)
  show "exact n ms ?ts" if "\<not> (\<exists>j<n. j \<noteq> k \<and> waits_for ms ts k j)"
    unfolding exact_def using rest that \<open>\<not> waits_for ms ts k k\<close> by blast
  show "lower_pending n ms j ?ts" if j: "waits_for ms ts k j" "j \<noteq> k" "j < n"
    unfolding lower_pending_def
  proof (intro conjI allI impI)
    show "t_priority (?ts i) = effective_priority n ms ?ts i" if "i < n" "i \<noteq> j" for i
      using rest [OF that(1)] waits_for_unique [OF j(1)] that(2) by blast
    have "effective_priority n ms ?ts j \<le> effective_priority n ms ts j"
      unfolding effective_priority_demand using le by (rule demand_lower)
    with pend j show "effective_priority n ms ?ts j \<le> t_priority (?ts j)"
      by (simp add: lower_pending_def)
  qed
qed

lemma above_after_drop:
  assumes pend: "lower_pending n ms k ts" and k: "k < n" and e: "e = effective_priority n ms ts k"
    and drop: "e \<noteq> t_priority (ts k)" and j: "waits_for ms ts k j" "j \<noteq> k" "j < n"
  shows "card {i. i < n \<and> t_priority (set_priority k e ts j) \<le> t_priority (set_priority k e ts i)}
    < card {i. i < n \<and> t_priority (ts k) \<le> t_priority (ts i)}"
proof (rule psubset_card_mono)
  have lt: "e < t_priority (ts k)"
    using pend e drop k by (auto simp: lower_pending_def order.strict_iff_order)
  have le: "t_priority (ts k) \<le> t_priority (ts j)"
    using waiter_le_effective [OF k j(1)] pend j by (simp add: lower_pending_def)
  let ?A = "{i. i < n \<and> t_priority (set_priority k e ts j) \<le> t_priority (set_priority k e ts i)}"
  let ?B = "{i. i < n \<and> t_priority (ts k) \<le> t_priority (ts i)}"
  have "k \<notin> ?A" using lt le j(2) by (auto simp: not_le)
  moreover have "k \<in> ?B" using k by simp
  moreover have "?A \<subseteq> ?B" using le lt j(2) by (auto split: if_splits)
  ultimately show "?A \<subset> ?B" by blast
qed simp

lemma restore_loop_exact:
  "lower_pending n ms k ts \<Longrightarrow> card {i. i < n \<and> t_priority (ts k) \<le> t_priority (ts i)} \<le> d \<Longrightarrow>
     exact n ms (restore_loop d n ms k ts)"
proof (induction d arbitrary: k ts)
  case 0
  then have "n \<le> k" by (auto simp: not_less)
  with 0 show ?case by (auto simp: lower_pending_def exact_def)
next
  case (Suc d)
  let ?e = "effective_priority n ms ts k"
  let ?ts = "set_priority k ?e ts"
  let ?j = "m_owner (ms (t_wait_object (ts k)))"
  consider (out) "n \<le> k" | (same) "k < n" "?e = t_priority (ts k)"
    | (drop) "k < n" "?e \<noteq> t_priority (ts k)" by (meson not_le)
  then show ?case
  proof cases
    case out
    with Suc.prems(1) show ?thesis by (auto simp: lower_pending_def exact_def)
  next
    case same
    then have "?ts = ts" by (simp add: set_priority_def)
    moreover have "exact n ms ts" using Suc.prems(1) same by (auto simp: lower_pending_def exact_def)
    ultimately show ?thesis using same by (simp add: Let_def not_less [symmetric])
  next
    case drop
    note step = lower_pending_step [OF Suc.prems(1) drop(1) refl drop(2)]
    show ?thesis
    proof (cases "blocked_on_mutex (ts k) \<and> m_locked (ms (t_wait_object (ts k))) \<noteq> 0 \<and> ?j < n \<and> ?j \<noteq> k")
      case go: True
      then have w: "waits_for ms ts k ?j" by (simp add: next_owner)
      have "card {i. i < n \<and> t_priority (?ts ?j) \<le> t_priority (?ts i)} \<le> d"
        using above_after_drop [OF Suc.prems(1) drop(1) refl drop(2) w] go Suc.prems(2) by simp
      from Suc.IH [OF step(2) [OF w] this] go drop show ?thesis by (simp add: Let_def not_less [symmetric])
    next
      case stop: False
      then have "\<not> (\<exists>j<n. j \<noteq> k \<and> waits_for ms ts k j)" by (auto simp: waits_for_def)
      from step(1) [OF this] have "exact n ms ?ts" .
      moreover have "restore_loop (Suc d) n ms k ts = ?ts"
        using stop drop by (auto simp: Let_def not_less [symmetric])
      ultimately show ?thesis by simp
    qed
  qed
qed

section \<open>The kernel's operations\<close>

definition exact_priorities :: "kstate \<Rightarrow> bool" where
  "exact_priorities s \<longleftrightarrow> exact (task_count s) (mutexes s) (tasks s)"

lemma task_inherit_priority_fields:
  "tasks (task_inherit_priority i p s) = inherit_loop (unat (task_count s)) (task_count s) (mutexes s) i p (tasks s)"
  "task_count (task_inherit_priority i p s) = task_count s"
  "mutexes (task_inherit_priority i p s) = mutexes s"
  "current_task (task_inherit_priority i p s) = current_task s"
  "g_kernel_ticks (task_inherit_priority i p s) = g_kernel_ticks s"
  "primask (task_inherit_priority i p s) = primask s"
  "g_current_task_index (task_inherit_priority i p s) = g_current_task_index s"
  by (simp_all add: task_inherit_priority_def arch_critical_enter_eq arch_critical_exit_eq cs_enter_def)

lemma task_restore_priority_fields:
  "tasks (task_restore_priority i s) =
     (if i < task_count s then set_priority i (effective_priority (task_count s) (mutexes s) (tasks s) i) (tasks s)
      else tasks s)"
  "task_count (task_restore_priority i s) = task_count s"
  "mutexes (task_restore_priority i s) = mutexes s"
  "current_task (task_restore_priority i s) = current_task s"
  "primask (task_restore_priority i s) = primask s"
  by (simp_all add: task_restore_priority_def arch_critical_enter_eq arch_critical_exit_eq cs_enter_def)

lemma card_below_count: "card {i. i < n \<and> P i} \<le> unat (n :: u32)"
proof -
  have "card {i. i < n \<and> P i} \<le> card {i. i < n}" by (rule card_mono) auto
  also have "\<dots> = unat n" using distinct_card [OF distinct_indices [of n]] by simp
  finally show ?thesis .
qed

lemma inherit_loop_keeps_high:
  "p \<le> t_priority (ts i) \<Longrightarrow> t_priority (inherit_loop d n ms k p ts i) = t_priority (ts i)"
proof (induction d arbitrary: k ts)
  case (Suc d)
  have "t_priority ((if t_priority (ts k) < p then set_priority k p ts else ts) i) = t_priority (ts i)"
    using Suc.prems by auto
  with Suc show ?case by (auto simp: Let_def)
qed simp

lemma demand_extra:
  "demand n ms (\<lambda>i. if i = k then {p} else {}) ts i =
     (if i = k then max (effective_priority n ms ts i) p else effective_priority n ms ts i)"
  by (simp add: demand_def effective_priority_demand max.commute insert_commute)

lemma inherit_then_block:
  assumes ex: "exact n ms ts" and c: "c < n" "\<not> blocked_on_mutex (ts c)"
    and ob: "ob \<noteq> NULL" "m_locked (ms ob) \<noteq> 0"
    and ts': "ts' = inherit_loop (unat n) n ms (m_owner (ms ob)) (t_priority (ts c)) ts"
  shows "exact n ms (ts'(c := blocked_on ob TASK_WAIT_MUTEX d (ts' c)))"
proof -
  let ?o = "m_owner (ms ob)" and ?p = "t_priority (ts c)"
  let ?D = "\<lambda>i. if i = ?o then {?p} else {}"
  let ?us = "ts'(c := blocked_on ob TASK_WAIT_MUTEX d (ts' c))"
  have same: "same_but_priority ts ts'" using ts' by (simp add: same_but_priority_inherit)
  have "raise_pending n ms ?D ?p ?o ts"
    using ex by (auto simp: raise_pending_def demand_extra exact_def)
  then have "exact_with n ms ?D ts'"
    unfolding ts' by (rule inherit_loop_exact) (rule card_below_count)
  then have prio: "t_priority (ts' i) = demand n ms ?D ts' i" if "i < n" for i
    using that by (simp add: exact_with_def)
  have pc: "t_priority (ts' c) = ?p" unfolding ts' by (rule inherit_loop_keeps_high) simp
  have c': "\<not> blocked_on_mutex (ts' c)"
    using c(2) same by (simp add: blocked_on_mutex_def same_but_priority_fields)
  have "waits_for ms ?us j i \<longleftrightarrow> (if j = c then i = ?o else waits_for ms ts' j i)" for i j
    using ob by (auto simp: waits_for_def blocked_on_mutex_def)
  then have W: "mutex_waiters_of n ms ?us i =
      (if i = ?o then insert c (mutex_waiters_of n ms ts' i) else mutex_waiters_of n ms ts' i)" for i
    using c' c(1) by (auto simp: mutex_waiters_of_def waits_for_def)
  have us: "t_priority (?us j) = t_priority (ts' j)" "t_base_priority (?us j) = t_base_priority (ts' j)" for j
    by simp_all
  have "effective_priority n ms ?us i = demand n ms ?D ts' i" for i
    unfolding effective_priority_demand demand_def W us
    by (simp add: pc)
  with prio us show ?thesis by (simp add: exact_def)
qed

lemma stop_waiting_then_restore:
  assumes ex: "exact n ms ts" and w: "waits_for ms ts c k"
    and ts': "ts' = ts(c := awake r (ts c))"
  shows "exact n ms (restore_loop (unat n) n ms k ts')"
proof (rule restore_loop_exact [OF _ card_below_count])
  have W: "mutex_waiters_of n ms ts' i = mutex_waiters_of n ms ts i - {c}" for i
    by (auto simp: mutex_waiters_of_def waits_for_def blocked_on_mutex_def ts')
  have same: "t_priority (ts' j) = t_priority (ts j)" "t_base_priority (ts' j) = t_base_priority (ts j)" for j
    by (simp_all add: ts')
  have "effective_priority n ms ts' i = effective_priority n ms ts i" if "i \<noteq> k" for i
    unfolding effective_priority_demand
  proof (rule demand_cong)
    show "mutex_waiters_of n ms ts' i = mutex_waiters_of n ms ts i"
      using W [of i] waits_for_unique [OF w] that by (auto simp: mutex_waiters_of_def)
  qed (simp_all add: same)
  moreover have "effective_priority n ms ts' k \<le> effective_priority n ms ts k"
    unfolding effective_priority_demand demand_le_iff W same
    by (auto intro: base_le_demand waiter_le_demand)
  ultimately show "lower_pending n ms k ts'"
    using ex by (cases "k < n") (auto simp: lower_pending_def exact_def same ts')
qed

section \<open>Properties of priority inheritance\<close>

text \<open>
  Four tasks: task 0 owns the mutex at 0x100, task 1 owns the one at 0x200 and waits for the
  first, task 2 (priority 9) is about to wait for the second, task 3 is idle.
\<close>

definition chain_state :: kstate where
  "chain_state = (reset_state default_config)\<lparr>task_count := 4, current_task := 2, g_current_task_index := 2,
     mutexes := (mutexes (reset_state default_config))
       (0x100 := \<lparr>m_locked = 1, m_owner = 0, m_recursion = 1, m_next = 0\<rparr>,
        0x200 := \<lparr>m_locked = 1, m_owner = 1, m_recursion = 1, m_next = 0x100\<rparr>),
     tasks := (tasks (reset_state default_config))
       (0 := zero_task\<lparr>t_state := JRT_TASK_STATE_READY, t_priority := 5, t_base_priority := 2\<rparr>,
        1 := (wait_task 0x100 TASK_WAIT_MUTEX 5)\<lparr>t_base_priority := 5\<rparr>,
        2 := zero_task\<lparr>t_state := JRT_TASK_STATE_RUNNING, t_priority := 9, t_base_priority := 9\<rparr>)\<rparr>"

lemma below_four: "(i :: u32) < 4 \<longleftrightarrow> i = 0 \<or> i = 1 \<or> i = 2 \<or> i = 3"
proof -
  have "unat i < 4 \<Longrightarrow> unat i = 0 \<or> unat i = 1 \<or> unat i = 2 \<or> unat i = 3" by arith
  then show ?thesis by (auto simp: word_less_unat word_eq_unat)
qed

lemma chain_state_exact: "exact_priorities chain_state"
proof -
  have "indices 4 = [0, 1, 2, 3]" by (simp add: indices_def upt_conv_Cons)
  then show ?thesis
    by (auto simp: exact_priorities_def exact_def effective_priority_def for_upto_def below_four
        chain_state_def wait_task_def zero_task_def reset_state_def waits_for_def blocked_on_mutex_def)
qed

text \<open>When the running task \<open>c\<close> finds the mutex \<open>ob\<close> locked and registers as a waiter (inherit,
  then block), every task's priority is again exactly the highest of its base priority and the
  priorities of the tasks waiting for mutexes it owns, along ownership chains of any length up
  to the task count; so no owner runs below a task it delays.\<close>

theorem inherit_then_block_exact:
  assumes "exact_priorities s" and "c < task_count s" and "\<not> blocked_on_mutex (tasks s c)"
    and "ob \<noteq> NULL" and "m_locked (mutexes s ob) \<noteq> 0"
  shows "exact_priorities (task_wait_begin_until c ob TASK_WAIT_MUTEX deadline
           (task_inherit_priority (m_owner (mutexes s ob)) (t_priority (tasks s c)) s))"
  using inherit_then_block [of "task_count s" "mutexes s" "tasks s" c ob _ deadline, OF _ assms(2-5) refl] assms(1)
  by (simp add: exact_priorities_def task_wait_begin_until_eq task_inherit_priority_fields)

theorem inherit_then_block_witness:
  "exact_priorities chain_state \<and> \<not> blocked_on_mutex (tasks chain_state 2)
   \<and> exact_priorities (task_wait_begin_until 2 0x200 TASK_WAIT_MUTEX (make_deadline 0 10)
        (task_inherit_priority 1 9 chain_state))"
proof -
  have c: "(2 :: u32) < task_count chain_state" "\<not> blocked_on_mutex (tasks chain_state 2)"
    and ob: "m_locked (mutexes chain_state 0x200) \<noteq> 0" "m_owner (mutexes chain_state 0x200) = 1"
    and p: "t_priority (tasks chain_state 2) = 9"
    by (simp_all add: chain_state_def blocked_on_mutex_def)
  show ?thesis
    using inherit_then_block_exact [OF chain_state_exact c _ ob(1), of "make_deadline 0 10"]
      chain_state_exact c ob(2) p by simp
qed

text \<open>When a mutex waiter stops waiting (its deadline passed) and the chain of owners is
  recalculated, every task's priority is exact again: inherited priorities are withdrawn all the
  way up the chain, and the recalculation always ends.\<close>

theorem restore_after_timeout_exact:
  assumes "exact_priorities s" and "waits_for (mutexes s) (tasks s) c k"
  shows "exact_priorities (restore_priority_chain k (task_wait_end c result coalesced s))"
  using stop_waiting_then_restore [of "task_count s" "mutexes s" "tasks s" c k _ result, OF _ assms(2) refl] assms(1)
  by (simp add: exact_priorities_def restore_priority_chain_def task_wait_end_eq)

theorem restore_after_timeout_witness:
  "exact_priorities chain_state \<and> waits_for (mutexes chain_state) (tasks chain_state) 1 0
   \<and> exact_priorities (restore_priority_chain 0 (task_wait_end 1 0 0 chain_state))"
proof -
  have "waits_for (mutexes chain_state) (tasks chain_state) 1 0"
    by (simp add: chain_state_def waits_for_def blocked_on_mutex_def wait_task_def)
  with restore_after_timeout_exact [OF chain_state_exact this, of 0 0] chain_state_exact
  show ?thesis by simp
qed

end
