(* ===== verification/JRT_Scheduler.thy ===== *)
theory JRT_Scheduler
  imports JRT_Priority
begin

text \<open>
  The scheduler (\<open>kernel/task.c\<close>, \<open>fill_stack\<close>, \<open>update_stack_usage\<close> and \<open>pendsv_switch\<close>): stack
  accounting of the task that is switched out and the two-pass selection of the next one. A task
  stack is one C array, so a pointer that walks it is \<open>stack_bottom\<close> plus four times an index.
\<close>

section \<open>Stacks\<close>

definition stack_words_of :: "addr \<Rightarrow> addr \<Rightarrow> u32" where
  "stack_words_of stack_bottom stack_top = (stack_top - stack_bottom) div 4"

definition fill_stack :: "addr \<Rightarrow> addr \<Rightarrow> kstate \<Rightarrow> kstate" where
  "fill_stack stack_bottom stack_top s =
     s\<lparr>mem32 := for_upto (stack_words_of stack_bottom stack_top)
        (\<lambda>i m. m(stack_bottom + 4 * i := JRT_TASK_STACK_FILL)) (mem32 s)\<rparr>"

definition task_stack_guard :: "task_t \<Rightarrow> addr" where
  "task_stack_guard task = t_stack_bottom task - 4 * JRT_TASK_GUARD_WORDS"

text \<open>
  The scan for the first word that no longer holds the fill pattern; the first argument counts
  down the words left in the array.
\<close>

fun usage_scan :: "nat \<Rightarrow> addr \<Rightarrow> (addr \<Rightarrow> u32) \<Rightarrow> addr" where
  "usage_scan 0 word m = word"
| "usage_scan (Suc left) word m =
    (if m word = JRT_TASK_STACK_FILL then usage_scan left (word + 4) m else word)"

definition update_stack_usage :: "u32 \<Rightarrow> addr \<Rightarrow> kstate \<Rightarrow> kstate halting" where
  "update_stack_usage i current_sp s =
    (let task = tasks s i in
     if current_sp < t_stack_bottom task \<or> current_sp > t_stack_top task \<or> current_sp AND 3 \<noteq> 0
     then
       let s = s\<lparr>g_stack_fault := 1, g_stack_fault_task := g_current_task_index s,
                 g_stack_fault_sp := current_sp\<rparr>
       in kernel_fatal JRT_FATAL_STACK_OVERFLOW s
     else
       let task = (if current_sp < t_minimum_sp task then task\<lparr>t_minimum_sp := current_sp\<rparr> else task);
           word = usage_scan (unat (stack_words_of (t_stack_bottom task) (t_stack_top task)))
                    (t_stack_bottom task) (mem32 s);
           task = task\<lparr>t_high_water_words := stack_words_of word (t_stack_top task)\<rparr>;
           s = set_task i task s
       in if t_high_water_words task > g_stack_high_water_words s
          then Inr (s\<lparr>g_stack_high_water_words := t_high_water_words task,
                      g_stack_high_water_task := g_current_task_index s\<rparr>)
          else Inr s)"

section \<open>Selection\<close>

definition pass1_step :: "u32 \<Rightarrow> u32 \<Rightarrow> (u32 \<Rightarrow> task_t) \<Rightarrow> u32 \<Rightarrow> u32 \<Rightarrow> u32" where
  "pass1_step n base_index ts offset best_priority =
    (let next_index = (base_index + offset) mod n
     in if t_state (ts next_index) = JRT_TASK_STATE_READY \<and> t_priority (ts next_index) > best_priority
        then t_priority (ts next_index) else best_priority)"

definition sched_pass1 :: "u32 \<Rightarrow> u32 \<Rightarrow> (u32 \<Rightarrow> task_t) \<Rightarrow> u32" where
  "sched_pass1 n base_index ts = for_upto n (pass1_step n base_index ts) 0"

text \<open>
  The second pass: offsets \<open>offset\<close>, \<open>offset + 1\<close>, \<dots>, as many as the first argument says. The
  result is the offset and index selected.
\<close>

fun sched_pass2 :: "nat \<Rightarrow> u32 \<Rightarrow> u32 \<Rightarrow> u32 \<Rightarrow> u32 \<Rightarrow> (u32 \<Rightarrow> task_t) \<Rightarrow> (u32 \<times> u32) option" where
  "sched_pass2 0 offset n base_index best_priority ts = None"
| "sched_pass2 (Suc left) offset n base_index best_priority ts =
    (let next_index = (base_index + offset) mod n
     in if t_state (ts next_index) = JRT_TASK_STATE_READY \<and> t_priority (ts next_index) = best_priority
        then Some (offset, next_index)
        else sched_pass2 left (offset + 1) n base_index best_priority ts)"

text \<open>Both passes: the selected offset and index, if any.\<close>

definition pendsv_select :: "u32 \<Rightarrow> u32 \<Rightarrow> (u32 \<Rightarrow> task_t) \<Rightarrow> (u32 \<times> u32) option" where
  "pendsv_select n base_index ts =
     sched_pass2 (unat n) 1 n base_index (sched_pass1 n base_index ts) ts"

section \<open>The switch\<close>

text \<open>The outgoing task: saved stack pointer, run count, RUNNING back to READY.\<close>

definition pendsv_account :: "addr \<Rightarrow> kstate \<Rightarrow> kstate halting" where
  "pendsv_account current_sp s =
    (let i = current_task s;
         s = set_task i ((tasks s i)\<lparr>t_sp := current_sp\<rparr>) s
     in case update_stack_usage i current_sp s of
       Inl s \<Rightarrow> Inl s
     | Inr s \<Rightarrow>
        let s = set_task i ((tasks s i)\<lparr>t_run_count := t_run_count (tasks s i) + 1\<rparr>) s
        in Inr (if t_state (tasks s i) = JRT_TASK_STATE_RUNNING
                then set_task i ((tasks s i)\<lparr>t_state := JRT_TASK_STATE_READY\<rparr>) s else s))"

text \<open>The scheduler's counters and \<open>g_current_task_index\<close> after the selection.\<close>

definition pendsv_count :: "u32 \<Rightarrow> (u32 \<times> u32) option \<Rightarrow> kstate \<Rightarrow> kstate" where
  "pendsv_count base_index selection s =
    (let pass2_iters = (case selection of None \<Rightarrow> task_count s | Some (offset, _) \<Rightarrow> offset);
         selected_offset = (case selection of None \<Rightarrow> task_count s | Some (offset, _) \<Rightarrow> offset);
         s = (case selection of None \<Rightarrow> s | Some (_, next_index) \<Rightarrow> s\<lparr>g_current_task_index := next_index\<rparr>);
         s = s\<lparr>g_sched_pass1_iters_total := g_sched_pass1_iters_total s + task_count s\<rparr>;
         s = s\<lparr>g_sched_pass2_iters_total := g_sched_pass2_iters_total s + pass2_iters\<rparr>;
         s = (if pass2_iters > g_sched_pass2_iters_max s
              then s\<lparr>g_sched_pass2_iters_max := pass2_iters\<rparr> else s);
         s = (if selected_offset < task_count s \<and> selected_offset > g_ready_scan_depth_max s
              then s\<lparr>g_ready_scan_depth_max := selected_offset\<rparr> else s)
     in if g_current_task_index s \<noteq> base_index
        then s\<lparr>g_context_switches := g_context_switches s + 1\<rparr> else s)"

text \<open>The incoming task: RUNNING, its benchmark activation, its MPU regions.\<close>

definition pendsv_dispatch :: "kstate \<Rightarrow> kstate halting" where
  "pendsv_dispatch s =
    (let i = g_current_task_index s;
         s = s\<lparr>current_task := i\<rparr>;
         s = set_task i ((tasks s i)\<lparr>t_state := JRT_TASK_STATE_RUNNING\<rparr>) s;
         s = task_benchmark_start_locked i s
     in case arch_set_task_private_data (t_private_data_base (tasks s i)) (t_private_data_size (tasks s i)) s of
       Inl s \<Rightarrow> Inl s
     | Inr s \<Rightarrow> Inr (arch_set_task_stack_guard (task_stack_guard (tasks s i)) s))"

definition pendsv_switch :: "addr \<Rightarrow> kstate \<Rightarrow> (addr \<times> kstate) halting" where
  "pendsv_switch current_sp s =
    (let (saved_primask, s) = arch_critical_enter s;
         base_index = g_current_task_index s
     in case pendsv_account current_sp s of
       Inl s \<Rightarrow> Inl s
     | Inr s \<Rightarrow>
        (case pendsv_dispatch (pendsv_count base_index (pendsv_select (task_count s) base_index (tasks s)) s) of
           Inl s \<Rightarrow> Inl s
         | Inr s \<Rightarrow>
            let s = arch_critical_exit saved_primask s
            in Inr (t_sp (tasks s (current_task s)), s)))"

section \<open>The selection is the first best task after the current one\<close>

definition ready_tasks :: "u32 \<Rightarrow> (u32 \<Rightarrow> task_t) \<Rightarrow> u32 set" where
  "ready_tasks n ts = {i. i < n \<and> t_state (ts i) = JRT_TASK_STATE_READY}"

text \<open>Offsets are taken modulo the task count; below \<open>2^31\<close> tasks the sum does not wrap.\<close>

lemma unat_cyclic:
  fixes n :: u32
  assumes "base < n" and "offset \<le> n" and "n < 0x80000000"
  shows "unat ((base + offset) mod n) = (unat base + unat offset) mod unat n"
proof -
  have "unat base < unat n" "unat offset \<le> unat n" "unat n < 2147483648"
    using assms word_less_unat [of n "0x80000000"] by (auto simp: word_less_unat word_le_unat)
  then have "unat base + unat offset < 4294967296" by linarith
  then show ?thesis by (simp add: unat_mod32 unat_add_small)
qed

definition cyclic_distance :: "u32 \<Rightarrow> u32 \<Rightarrow> u32 \<Rightarrow> nat" where
  "cyclic_distance n base j =
     (if base < j then unat j - unat base else unat j + unat n - unat base)"

lemma cyclic_distance_range:
  assumes "base < n" and "j < n"
  shows "0 < cyclic_distance n base j" and "cyclic_distance n base j \<le> unat n"
  using assms by (auto simp: cyclic_distance_def word_less_unat)

lemma cyclic_distance_reaches:
  assumes "base < n" and "j < n" and "n < 0x80000000"
  shows "(base + word_of_nat (cyclic_distance n base j)) mod n = j"
proof -
  let ?d = "cyclic_distance n base j"
  have d: "?d \<le> unat n" by (rule cyclic_distance_range) (use assms in auto)
  then have u: "unat (word_of_nat ?d :: u32) = ?d"
    using unat_lt32 [of n] by (intro unat_of_nat32) linarith
  have "(unat base + ?d) mod unat n = unat j"
    using assms by (auto simp: cyclic_distance_def word_less_unat)
  then show ?thesis
    using assms d u by (simp add: word_eq_unat unat_cyclic word_le_unat)
qed

lemma cyclic_distance_unique:
  assumes "base < n" and "n < 0x80000000" and d: "0 < d" "d \<le> unat n"
    and "(base + word_of_nat d) mod n = j"
  shows "cyclic_distance n base j = d"
proof -
  have u: "unat (word_of_nat d :: u32) = d"
    using d unat_lt32 [of n] by (intro unat_of_nat32) linarith
  have j: "unat j = (unat base + d) mod unat n"
    using assms u by (simp add: unat_cyclic word_le_unat flip: assms(5))
  show ?thesis
  proof (cases "unat base + d < unat n")
    case True
    with j d show ?thesis by (simp add: cyclic_distance_def word_less_unat)
  next
    case False
    then have "(unat base + d) mod unat n = unat base + d - unat n"
      using assms(1) d by (simp add: mod_if word_less_unat)
    with j False d assms(1) show ?thesis by (auto simp: cyclic_distance_def word_less_unat)
  qed
qed

lemma sched_pass1_best:
  assumes "base < n" and "n < 0x80000000"
  shows "sched_pass1 n base ts = Max (insert 0 ((\<lambda>i. t_priority (ts i)) ` ready_tasks n ts))"
proof -
  let ?R = "\<lambda>m. {i. \<exists>k<m. i = (base + word_of_nat k) mod n \<and> t_state (ts i) = JRT_TASK_STATE_READY}"
  let ?P = "\<lambda>m e. e = Max (insert 0 ((\<lambda>i. t_priority (ts i)) ` ?R m))"
  have "?P (unat n) (sched_pass1 n base ts)"
    unfolding sched_pass1_def
  proof (rule for_upto_induct)
    show "?P 0 0" by simp
  next
    fix m :: nat and e :: u32
    assume IH: "?P m e"
    let ?i = "(base + word_of_nat m) mod n"
    have "?R (Suc m) = (if t_state (ts ?i) = JRT_TASK_STATE_READY then insert ?i (?R m) else ?R m)"
      by (auto simp: less_Suc_eq)
    then have "Max (insert 0 ((\<lambda>i. t_priority (ts i)) ` ?R (Suc m)))
        = (if t_state (ts ?i) = JRT_TASK_STATE_READY then max (t_priority (ts ?i)) e else e)"
      by (simp only: IH image_insert insert_commute [of 0] if_distrib if_cancel
          cong: if_cong) (simp del: Max_insert add: Max_insert [of "insert _ _"])
    then show "?P (Suc m) (pass1_step n base ts (word_of_nat m) e)"
      by (simp only: max_def not_less pass1_step_def Let_def) auto
  qed
  moreover have "?R (unat n) = ready_tasks n ts"
  proof -
    have "\<exists>k<unat n. i = (base + word_of_nat k) mod n" if i: "i < n" for i
    proof -
      let ?d = "cyclic_distance n base i"
      have r: "(base + word_of_nat ?d) mod n = i" by (rule cyclic_distance_reaches) (use assms i in auto)
      show ?thesis
      proof (cases "?d = unat n")
        case True
        then have "i = base" using i assms(1) by (auto simp: cyclic_distance_def word_eq_unat word_less_unat split: if_splits)
        then show ?thesis using assms(1) i by (intro exI [of _ 0]) (auto simp: word_less_unat mod_word_less)
      next
        case False
        with cyclic_distance_range(2) [OF assms(1) i] r show ?thesis by (intro exI [of _ ?d]) simp
      qed
    qed
    moreover have "i mod n < n" for i using assms(1) by (simp add: word_less_unat unat_mod32)
    ultimately show ?thesis by (auto simp: ready_tasks_def)
  qed
  ultimately show ?thesis by simp
qed

lemma mod_below: "base < n \<Longrightarrow> i mod n < (n :: u32)"
  by (simp add: word_less_unat unat_mod32)

text \<open>The second pass stops at the first offset whose task is a candidate.\<close>

lemma sched_pass2_first:
  "unat off + left \<le> 4294967295 \<Longrightarrow>
   (case sched_pass2 left off n base best ts of
      Some (d, i) \<Rightarrow> \<exists>k<left. d = off + word_of_nat k \<and> i = (base + d) mod n
        \<and> t_state (ts i) = JRT_TASK_STATE_READY \<and> t_priority (ts i) = best
        \<and> (\<forall>k'<k. let j = (base + (off + word_of_nat k')) mod n
             in \<not> (t_state (ts j) = JRT_TASK_STATE_READY \<and> t_priority (ts j) = best))
    | None \<Rightarrow> (\<forall>k<left. let j = (base + (off + word_of_nat k)) mod n
             in \<not> (t_state (ts j) = JRT_TASK_STATE_READY \<and> t_priority (ts j) = best)))"
proof (induction left arbitrary: off)
  case (Suc left)
  let ?c = "\<lambda>j. t_state (ts j) = JRT_TASK_STATE_READY \<and> t_priority (ts j) = best"
  have shift: "off + word_of_nat (Suc k) = (off + 1) + word_of_nat k" for k by simp
  show ?case
  proof (cases "?c ((base + off) mod n)")
    case True
    then show ?thesis by (simp add: Let_def) (intro exI [of _ 0], simp)
  next
    case False
    have "unat (off + 1) + left \<le> 4294967295" using Suc.prems by (simp add: unat_suc_small)
    from Suc.IH [OF this] show ?thesis
    proof (cases "sched_pass2 left (off + 1) n base best ts")
      case None
      with Suc.IH [OF \<open>unat (off + 1) + left \<le> 4294967295\<close>] False show ?thesis
        by (auto simp: Let_def less_Suc_eq_0_disj add.assoc)
    next
      case (Some r)
      obtain d i where r: "r = (d, i)" by fastforce
      with Some Suc.IH [OF \<open>unat (off + 1) + left \<le> 4294967295\<close>] obtain k where
        k: "k < left" "d = off + 1 + word_of_nat k" "i = (base + d) mod n" "?c i"
          "\<forall>k'<k. \<not> ?c ((base + (off + 1 + word_of_nat k')) mod n)"
        by (auto simp: Let_def)
      have eq: "sched_pass2 (Suc left) off n base best ts = Some (d, i)"
        using False Some r by (auto simp: Let_def)
      have before: "\<forall>k'<Suc k. \<not> ?c ((base + (off + word_of_nat k')) mod n)"
        using False k(5) by (auto simp: less_Suc_eq_0_disj add.assoc)
      show ?thesis
        unfolding eq option.case prod.case Let_def
        by (rule exI [of _ "Suc k"]) (use k before in \<open>simp add: add.assoc\<close>)
    qed
  qed
qed simp

definition best_ready :: "u32 \<Rightarrow> (u32 \<Rightarrow> task_t) \<Rightarrow> u32 set" where
  "best_ready n ts = {i \<in> ready_tasks n ts. \<forall>j \<in> ready_tasks n ts. t_priority (ts j) \<le> t_priority (ts i)}"

lemma best_ready_alt:
  assumes "ready_tasks n ts \<noteq> {}"
  shows "best_ready n ts =
    {i \<in> ready_tasks n ts. t_priority (ts i) = Max (insert 0 ((\<lambda>i. t_priority (ts i)) ` ready_tasks n ts))}"
proof -
  let ?P = "(\<lambda>i. t_priority (ts i)) ` ready_tasks n ts"
  have "Max (insert 0 ?P) = Max ?P" using assms by simp
  then show ?thesis using assms by (auto simp: best_ready_def Max_ge_iff eq_Max_iff intro!: order.antisym)
qed

lemma best_ready_nonempty:
  assumes "ready_tasks n ts \<noteq> {}"
  shows "best_ready n ts \<noteq> {}"
proof -
  let ?P = "(\<lambda>i. t_priority (ts i)) ` ready_tasks n ts"
  have "Max ?P \<in> ?P" using assms by (intro Max_in) auto
  then obtain i where "i \<in> ready_tasks n ts" "t_priority (ts i) = Max ?P" by auto
  then have "i \<in> best_ready n ts" by (auto simp: best_ready_def)
  then show ?thesis by blast
qed

lemma pendsv_select_first:
  assumes base: "base < n" and n: "n < 0x80000000" and R: "ready_tasks n ts \<noteq> {}"
  shows "\<exists>i \<in> best_ready n ts. pendsv_select n base ts = Some (word_of_nat (cyclic_distance n base i), i)
    \<and> (\<forall>j \<in> best_ready n ts. cyclic_distance n base i \<le> cyclic_distance n base j)"
proof -
  let ?best = "sched_pass1 n base ts"
  let ?c = "\<lambda>j. t_state (ts j) = JRT_TASK_STATE_READY \<and> t_priority (ts j) = ?best"
  have cand: "i \<in> best_ready n ts \<longleftrightarrow> i < n \<and> ?c i" for i
    using R by (simp add: best_ready_alt sched_pass1_best [OF base n] ready_tasks_def)
  have nn: "unat n < 4294967295" using n by (simp add: word_less_unat)
  note first = sched_pass2_first [where off = 1 and left = "unat n" and n = n and base = base and best = ?best and ts = ts]
  obtain i0 where i0: "i0 \<in> best_ready n ts"
    using best_ready_nonempty [OF R] by blast
  have at: "(base + (1 + word_of_nat (cyclic_distance n base j - 1))) mod n = j"
    and below: "cyclic_distance n base j - 1 < unat n" if "j < n" for j
  proof -
    have d: "0 < cyclic_distance n base j" "cyclic_distance n base j \<le> unat n"
      using cyclic_distance_range [OF base that] by auto
    then have "(1 :: u32) + word_of_nat (cyclic_distance n base j - 1) = word_of_nat (cyclic_distance n base j)"
      by (metis Suc_pred' of_nat_Suc)
    with cyclic_distance_reaches [OF base that n] d
    show "(base + (1 + word_of_nat (cyclic_distance n base j - 1))) mod n = j"
      and "cyclic_distance n base j - 1 < unat n" by auto
  qed
  show ?thesis
  proof (cases "pendsv_select n base ts")
    case None
    with first nn have "\<forall>k<unat n. \<not> ?c ((base + (1 + word_of_nat k)) mod n)"
      by (simp add: pendsv_select_def Let_def)
    with at [of i0] below [of i0] i0 cand [of i0] show ?thesis by metis
  next
    case (Some r)
    obtain d i where r: "r = (d, i)" by fastforce
    with Some first nn obtain k where
      k: "k < unat n" "d = 1 + word_of_nat k" "i = (base + d) mod n" "?c i"
        "\<forall>k'<k. \<not> ?c ((base + (1 + word_of_nat k')) mod n)"
      by (auto simp: pendsv_select_def Let_def)
    have i: "i \<in> best_ready n ts" using k mod_below [OF base] cand by blast
    have d: "d = word_of_nat (Suc k)" using k(2) by simp
    have dist: "cyclic_distance n base i = Suc k"
      using cyclic_distance_unique [OF base n, of "Suc k" i] k(1,3) d by simp
    have "Suc k \<le> cyclic_distance n base j" if "j \<in> best_ready n ts" for j
    proof (rule ccontr)
      assume "\<not> Suc k \<le> cyclic_distance n base j"
      moreover have "j < n" "?c j" using that cand by auto
      moreover have "0 < cyclic_distance n base j" by (rule cyclic_distance_range) (use base \<open>j < n\<close> in auto)
      ultimately show False using k(5) at [of j] by (metis Suc_leI Suc_pred' not_le not_less_eq_eq)
    qed
    with i dist d Some r show ?thesis by (intro bexI [of _ i]) auto
  qed
qed

section \<open>Round robin\<close>

text \<open>
  Among the best ready tasks the scheduler takes turns: each switch brings every other candidate
  closer, so with the ready set unchanged each candidate runs within \<open>task_count\<close> switches.
\<close>

definition next_task :: "u32 \<Rightarrow> (u32 \<Rightarrow> task_t) \<Rightarrow> u32 \<Rightarrow> u32" where
  "next_task n ts base = (case pendsv_select n base ts of None \<Rightarrow> base | Some (_, i) \<Rightarrow> i)"

lemma next_task_first:
  assumes "base < n" and "n < 0x80000000" and "ready_tasks n ts \<noteq> {}"
  shows "next_task n ts base \<in> best_ready n ts"
    and "j \<in> best_ready n ts \<Longrightarrow> cyclic_distance n base (next_task n ts base) \<le> cyclic_distance n base j"
  using pendsv_select_first [OF assms] by (auto simp: next_task_def)

lemma cyclic_distance_decreases:
  assumes "base < n" "i < n" "j < n" "i \<noteq> j" and "cyclic_distance n base i \<le> cyclic_distance n base j"
  shows "cyclic_distance n i j < cyclic_distance n base j"
  using assms by (auto simp: cyclic_distance_def word_less_unat word_eq_unat split: if_splits)

lemma round_robin_reaches:
  assumes n: "n < 0x80000000" and j: "j \<in> best_ready n ts"
  shows "base < n \<Longrightarrow> \<exists>k. 0 < k \<and> k \<le> cyclic_distance n base j \<and> (next_task n ts ^^ k) base = j"
proof (induction "cyclic_distance n base j" arbitrary: base rule: less_induct)
  case less
  have jn: "j < n" and R: "ready_tasks n ts \<noteq> {}" using j by (auto simp: best_ready_def ready_tasks_def)
  let ?i = "next_task n ts base"
  note first = next_task_first [OF less.prems n R]
  have i: "?i < n" using first(1) by (auto simp: best_ready_def ready_tasks_def)
  show ?case
  proof (cases "?i = j")
    case True
    then show ?thesis
      using cyclic_distance_range(1) [OF less.prems jn] by (intro exI [of _ 1]) auto
  next
    case False
    have closer: "cyclic_distance n ?i j < cyclic_distance n base j"
      by (rule cyclic_distance_decreases [OF less.prems i jn False first(2) [OF j]])
    from less.hyps [OF this i] obtain k where
      "0 < k" "k \<le> cyclic_distance n ?i j" "(next_task n ts ^^ k) ?i = j" by blast
    with closer show ?thesis
      by (intro exI [of _ "Suc k"]) (auto simp: funpow_swap1)
  qed
qed

section \<open>What a switch changes\<close>

definition stack_pointer_ok :: "task_t \<Rightarrow> addr \<Rightarrow> bool" where
  "stack_pointer_ok t sp \<longleftrightarrow> t_stack_bottom t \<le> sp \<and> sp \<le> t_stack_top t \<and> sp AND 3 = 0"

definition switched_out :: "addr \<Rightarrow> addr \<Rightarrow> u32 \<Rightarrow> task_t \<Rightarrow> task_t" where
  "switched_out sp min_sp high t = t\<lparr>t_sp := sp, t_minimum_sp := min_sp, t_high_water_words := high,
     t_run_count := t_run_count t + 1,
     t_state := (if t_state t = JRT_TASK_STATE_RUNNING then JRT_TASK_STATE_READY else t_state t)\<rparr>"

lemma switched_out_simps [simp]:
  "t_priority (switched_out sp m h t) = t_priority t"
  "t_sp (switched_out sp m h t) = sp"
  "t_state (switched_out sp m h t) =
     (if t_state t = JRT_TASK_STATE_RUNNING then JRT_TASK_STATE_READY else t_state t)"
  "t_private_data_base (switched_out sp m h t) = t_private_data_base t"
  "t_private_data_size (switched_out sp m h t) = t_private_data_size t"
  by (simp_all add: switched_out_def)

definition with_usage :: "addr \<Rightarrow> (addr \<Rightarrow> u32) \<Rightarrow> task_t \<Rightarrow> task_t" where
  "with_usage sp m t = t\<lparr>
     t_minimum_sp := (if sp < t_minimum_sp t then sp else t_minimum_sp t),
     t_high_water_words := stack_words_of
       (usage_scan (unat (stack_words_of (t_stack_bottom t) (t_stack_top t))) (t_stack_bottom t) m)
       (t_stack_top t)\<rparr>"

lemma update_stack_usage_ok:
  assumes "stack_pointer_ok (tasks s i) sp"
  shows "\<exists>w k. update_stack_usage i sp s = Inr (s\<lparr>tasks := (tasks s)(i := with_usage sp (mem32 s) (tasks s i)),
     g_stack_high_water_words := w, g_stack_high_water_task := k\<rparr>)"
proof -
  let ?t = "with_usage sp (mem32 s) (tasks s i)"
  let ?s = "s\<lparr>tasks := (tasks s)(i := ?t)\<rparr>"
  have in_bounds: "\<not> (sp < t_stack_bottom (tasks s i) \<or> sp > t_stack_top (tasks s i) \<or> sp AND 3 \<noteq> 0)"
    using assms by (simp add: stack_pointer_ok_def not_less)
  have "update_stack_usage i sp s =
      (if t_high_water_words ?t > g_stack_high_water_words s
       then Inr (?s\<lparr>g_stack_high_water_words := t_high_water_words ?t,
                    g_stack_high_water_task := g_current_task_index s\<rparr>)
       else Inr ?s)"
    unfolding update_stack_usage_def Let_def if_not_P [OF in_bounds]
    by (cases "sp < t_minimum_sp (tasks s i)") (simp_all add: with_usage_def set_task_def)
  moreover have "?s = ?s\<lparr>g_stack_high_water_words := g_stack_high_water_words s,
      g_stack_high_water_task := g_stack_high_water_task s\<rparr>" by simp
  ultimately show ?thesis by metis
qed

lemma pendsv_account_ok:
  assumes "stack_pointer_ok (tasks s (current_task s)) sp"
  shows "\<exists>m h w k. pendsv_account sp s = Inr (s\<lparr>
     tasks := (tasks s)(current_task s := switched_out sp m h (tasks s (current_task s))),
     g_stack_high_water_words := w, g_stack_high_water_task := k\<rparr>)"
proof -
  let ?i = "current_task s" and ?t = "(tasks s (current_task s))\<lparr>t_sp := sp\<rparr>"
  let ?s = "set_task ?i ?t s"
  have "stack_pointer_ok (tasks ?s ?i) sp"
    using assms by (simp add: stack_pointer_ok_def set_task_def)
  from update_stack_usage_ok [OF this] obtain w k where
    u: "update_stack_usage ?i sp ?s = Inr (?s\<lparr>tasks := (tasks ?s)(?i := with_usage sp (mem32 ?s) (tasks ?s ?i)),
      g_stack_high_water_words := w, g_stack_high_water_task := k\<rparr>)" by blast
  define m where "m = t_minimum_sp (with_usage sp (mem32 s) ?t)"
  define h where "h = t_high_water_words (with_usage sp (mem32 s) ?t)"
  have wu: "with_usage sp (mem32 s) ?t = ?t\<lparr>t_minimum_sp := m, t_high_water_words := h\<rparr>"
    by (simp add: m_def h_def with_usage_def)
  have "pendsv_account sp s = Inr (s\<lparr>tasks := (tasks s)(?i := switched_out sp m h (tasks s ?i)),
     g_stack_high_water_words := w, g_stack_high_water_task := k\<rparr>)"
    unfolding pendsv_account_def Let_def u sum.case
    by (simp add: set_task_def wu switched_out_def)
  then show ?thesis by blast
qed

lemma pendsv_account_fault:
  assumes "\<not> stack_pointer_ok (tasks s (current_task s)) sp"
  shows "\<exists>s'. pendsv_account sp s = Inl s' \<and> g_fatal_active s' = 1
     \<and> g_fatal_reason s' = fatal_reason_code JRT_FATAL_STACK_OVERFLOW \<and> primask s' = 1
     \<and> g_stack_fault s' = 1 \<and> g_stack_fault_task s' = g_current_task_index s \<and> g_stack_fault_sp s' = sp
     \<and> current_task s' = current_task s"
  using assms
  by (auto simp: pendsv_account_def update_stack_usage_def set_task_def stack_pointer_ok_def not_le
      not_less kernel_fatal_def JRT_FatalErrorHook_def arch_disable_interrupts_def Let_def)

lemma pendsv_count_fields [simp]:
  "tasks (pendsv_count b sel s) = tasks s"
  "task_count (pendsv_count b sel s) = task_count s"
  "cfg (pendsv_count b sel s) = cfg s"
  "g_current_task_index (pendsv_count b sel s) =
     (case sel of None \<Rightarrow> g_current_task_index s | Some (_, i) \<Rightarrow> i)"
  by (simp_all add: pendsv_count_def Let_def split: option.splits prod.splits)

lemma private_data_frame:
  assumes "arch_set_task_private_data base bytes s = Inr s'"
  shows "tasks s' = tasks s" "task_count s' = task_count s" "current_task s' = current_task s"
    "g_current_task_index s' = g_current_task_index s" "primask s' = primask s" "cfg s' = cfg s"
    "mutexes s' = mutexes s" "g_kernel_ticks s' = g_kernel_ticks s"
proof -
  let ?same = "\<lambda>t. tasks t = tasks s \<and> task_count t = task_count s \<and> current_task t = current_task s
    \<and> g_current_task_index t = g_current_task_index s \<and> primask t = primask s \<and> cfg t = cfg s
    \<and> mutexes t = mutexes s \<and> g_kernel_ticks t = g_kernel_ticks s"
  have region: "?same u" if "program_private_region base bytes s = Inr u" for u
    using that by (auto simp: program_private_region_def write_region_def
        split: if_splits option.splits)
  have "?same s'"
    using assms region unfolding arch_set_task_private_data_def
    by (auto split: if_splits sum.splits)
  then show "tasks s' = tasks s" "task_count s' = task_count s" "current_task s' = current_task s"
    "g_current_task_index s' = g_current_task_index s" "primask s' = primask s" "cfg s' = cfg s"
    "mutexes s' = mutexes s" "g_kernel_ticks s' = g_kernel_ticks s"
    by simp_all
qed

lemma private_data_returns:
  assumes "valid_private_size bytes"
  shows "\<exists>s'. arch_set_task_private_data base bytes s = Inr s'"
proof (cases "JRT_ARCH_HAS_MPU (cfg s) \<noteq> 0")
  case True
  from program_private_region_installed [OF True assms] obtain s' where
    "program_private_region base bytes s = Inr s'" by blast
  then show ?thesis by (simp add: arch_set_task_private_data_def)
qed (simp add: arch_set_task_private_data_def program_private_region_def)

lemma stack_guard_frame [simp]:
  "tasks (arch_set_task_stack_guard g s) = tasks s"
  "task_count (arch_set_task_stack_guard g s) = task_count s"
  "current_task (arch_set_task_stack_guard g s) = current_task s"
  "g_current_task_index (arch_set_task_stack_guard g s) = g_current_task_index s"
  "primask (arch_set_task_stack_guard g s) = primask s"
  "mutexes (arch_set_task_stack_guard g s) = mutexes s"
  by (simp_all add: arch_set_task_stack_guard_def write_region_def Let_def)

definition running :: "task_t \<Rightarrow> task_t" where
  "running t = t\<lparr>t_state := JRT_TASK_STATE_RUNNING\<rparr>"

lemma running_simps [simp]:
  "t_state (running t) = JRT_TASK_STATE_RUNNING" "t_priority (running t) = t_priority t"
  "t_sp (running t) = t_sp t" "t_private_data_size (running t) = t_private_data_size t"
  by (simp_all add: running_def)

lemma pendsv_dispatch_ok:
  assumes "valid_private_size (t_private_data_size (tasks s (g_current_task_index s)))"
  shows "\<exists>s'. pendsv_dispatch s = Inr s'
    \<and> tasks s' = (tasks s)(g_current_task_index s := running (tasks s (g_current_task_index s)))
    \<and> current_task s' = g_current_task_index s \<and> g_current_task_index s' = g_current_task_index s
    \<and> task_count s' = task_count s"
proof -
  let ?i = "g_current_task_index s"
  let ?u = "task_benchmark_start_locked ?i
     (set_task ?i (running (tasks s ?i)) (s\<lparr>current_task := ?i\<rparr>))"
  have u: "tasks ?u = (tasks s)(?i := running (tasks s ?i))" "current_task ?u = ?i"
    "g_current_task_index ?u = ?i" "task_count ?u = task_count s"
    by (simp_all add: start_frame set_task_def)
  have "valid_private_size (t_private_data_size (tasks ?u ?i))" using assms by (simp add: u(1))
  from private_data_returns [OF this] obtain v where
    v: "arch_set_task_private_data (t_private_data_base (tasks ?u ?i))
      (t_private_data_size (tasks ?u ?i)) ?u = Inr v" by blast
  have "pendsv_dispatch s = Inr (arch_set_task_stack_guard (task_stack_guard (tasks v ?i)) v)"
    using v by (simp add: pendsv_dispatch_def Let_def running_def set_task_def)
  with private_data_frame [OF v] u show ?thesis by simp
qed

section \<open>Properties of the scheduler\<close>

text \<open>The tasks that may run next: the ready ones, and the current one unless it has blocked.\<close>

definition candidates :: "kstate \<Rightarrow> u32 set" where
  "candidates s = {i. i < task_count s \<and> (t_state (tasks s i) = JRT_TASK_STATE_READY
     \<or> i = g_current_task_index s \<and> t_state (tasks s i) = JRT_TASK_STATE_RUNNING)}"

definition best_candidates :: "kstate \<Rightarrow> u32 set" where
  "best_candidates s = {i \<in> candidates s. \<forall>j \<in> candidates s. t_priority (tasks s j) \<le> t_priority (tasks s i)}"

text \<open>
  The scheduler's view is coherent: the two records of the current task agree, no other task is
  RUNNING, and the table is small enough for the index arithmetic.
\<close>

definition scheduler_inv :: "kstate \<Rightarrow> bool" where
  "scheduler_inv s \<longleftrightarrow> task_count s < 0x80000000 \<and> g_current_task_index s < task_count s
     \<and> current_task s = g_current_task_index s
     \<and> (\<forall>i < task_count s. t_state (tasks s i) = JRT_TASK_STATE_RUNNING \<longrightarrow> i = g_current_task_index s)
     \<and> (\<forall>i < task_count s. valid_private_size (t_private_data_size (tasks s i)))"

lemma pendsv_switch_steps:
  assumes inv: "scheduler_inv s" and cand: "candidates s \<noteq> {}"
    and sp: "stack_pointer_ok (tasks s (current_task s)) sp"
  shows "\<exists>s' m h i ts. pendsv_switch sp s = Inr (t_sp (ts i), s')
    \<and> ts = (tasks s)(current_task s := switched_out sp m h (tasks s (current_task s)))
    \<and> i \<in> best_candidates s
    \<and> (\<forall>j \<in> best_candidates s. cyclic_distance (task_count s) (g_current_task_index s) i
          \<le> cyclic_distance (task_count s) (g_current_task_index s) j)
    \<and> tasks s' = ts(i := running (ts i)) \<and> current_task s' = i \<and> g_current_task_index s' = i
    \<and> task_count s' = task_count s \<and> primask s' = primask s"
proof -
  let ?n = "task_count s" and ?base = "g_current_task_index s"
  have cur: "current_task s = ?base" and base: "?base < ?n" and n: "?n < 0x80000000"
    using inv by (auto simp: scheduler_inv_def)
  have cs: "tasks (cs_enter s) = tasks s" "task_count (cs_enter s) = ?n"
    "current_task (cs_enter s) = ?base" "g_current_task_index (cs_enter s) = ?base"
    by (simp_all add: cs_enter_def cur)
  from pendsv_account_ok [of "cs_enter s" sp] sp obtain m h w k where
    acc: "pendsv_account sp (cs_enter s) = Inr ((cs_enter s)\<lparr>
       tasks := (tasks s)(?base := switched_out sp m h (tasks s ?base)),
       g_stack_high_water_words := w, g_stack_high_water_task := k\<rparr>)" (is "_ = Inr ?a")
    by (auto simp: cs cur)
  let ?ts = "(tasks s)(?base := switched_out sp m h (tasks s ?base))"
  have ready: "ready_tasks ?n ?ts = candidates s"
    using base by (auto simp: ready_tasks_def candidates_def)
  have prio: "t_priority (?ts j) = t_priority (tasks s j)" for j by simp
  have best: "best_ready ?n ?ts = best_candidates s"
    by (simp only: best_ready_def best_candidates_def ready prio)
  from pendsv_select_first [OF base n, of ?ts] cand obtain i where
    i: "i \<in> best_candidates s"
      "pendsv_select ?n ?base ?ts = Some (word_of_nat (cyclic_distance ?n ?base i), i)"
      "\<forall>j \<in> best_candidates s. cyclic_distance ?n ?base i \<le> cyclic_distance ?n ?base j"
    unfolding ready best by blast
  have i_n: "i < ?n" using i(1) by (auto simp: best_candidates_def candidates_def)
  let ?c = "pendsv_count ?base (pendsv_select ?n ?base ?ts) ?a"
  have c: "tasks ?c = ?ts" "g_current_task_index ?c = i" "task_count ?c = ?n"
    by (simp_all add: i(2) cs)
  have "valid_private_size (t_private_data_size (?ts i))"
    using inv i_n by (auto simp: scheduler_inv_def switched_out_def)
  then have "valid_private_size (t_private_data_size (tasks ?c (g_current_task_index ?c)))"
    by (simp only: c)
  from pendsv_dispatch_ok [OF this] obtain d where
    d: "pendsv_dispatch ?c = Inr d" "tasks d = ?ts(i := running (?ts i))" "current_task d = i"
      "g_current_task_index d = i" "task_count d = ?n"
    unfolding c by blast
  let ?s' = "arch_critical_exit (primask s) d"
  have e: "tasks ?s' = tasks d" "current_task ?s' = current_task d" "task_count ?s' = task_count d"
    "g_current_task_index ?s' = g_current_task_index d" "primask ?s' = primask s"
    by (simp_all add: arch_critical_exit_eq)
  have sel: "pendsv_select (task_count ?a) ?base (tasks ?a) = pendsv_select ?n ?base ?ts"
    by (simp add: cs)
  have "pendsv_switch sp s = Inr (t_sp (?ts i), ?s')"
    unfolding pendsv_switch_def arch_critical_enter_eq Let_def prod.case cs acc sum.case sel d
    by (simp add: e d)
  with i e d show ?thesis
    by (intro exI [of _ ?s'] exI [of _ m] exI [of _ h] exI [of _ i] exI [of _ ?ts]) (auto simp: cur)
qed

text \<open>
  Four tasks: task 0 is running at priority 5, tasks 1 and 2 are ready at 5, task 3 is the idle task.
\<close>

definition running_state :: kstate where
  "running_state = (reset_state default_config)\<lparr>task_count := 4, tasks := (tasks (reset_state default_config))
     (0 := zero_task\<lparr>t_state := JRT_TASK_STATE_RUNNING, t_priority := 5\<rparr>,
      1 := zero_task\<lparr>t_priority := 5\<rparr>, 2 := zero_task\<lparr>t_priority := 5\<rparr>)\<rparr>"

lemma running_state_inv: "scheduler_inv running_state"
  by (auto simp: scheduler_inv_def running_state_def reset_state_def below_four zero_task_def valid_private_size_def)

lemma running_state_candidates: "candidates running_state = {0, 1, 2, 3}"
  by (auto simp: candidates_def running_state_def reset_state_def below_four zero_task_def)

lemma running_state_stack: "stack_pointer_ok (tasks running_state (current_task running_state)) 0"
  by (simp add: stack_pointer_ok_def running_state_def reset_state_def zero_task_def)



text \<open>The scheduler's invariant survives every switch: after it exactly one task of the table
  is RUNNING, the one that \<open>current_task\<close> and \<open>g_current_task_index\<close> both name.\<close>

theorem pendsv_switch_invariant:
  assumes "scheduler_inv s" and "candidates s \<noteq> {}"
    and "stack_pointer_ok (tasks s (current_task s)) sp"
  shows "\<exists>r s'. pendsv_switch sp s = Inr (r, s') \<and> scheduler_inv s'
    \<and> (\<forall>i < task_count s'. t_state (tasks s' i) = JRT_TASK_STATE_RUNNING \<longleftrightarrow> i = current_task s')"
proof -
  from pendsv_switch_steps [OF assms] obtain s' m h i ts where
    sw: "pendsv_switch sp s = Inr (t_sp (ts i), s')"
    and ts: "ts = (tasks s)(current_task s := switched_out sp m h (tasks s (current_task s)))"
    and best: "i \<in> best_candidates s"
    and s': "tasks s' = ts(i := running (ts i))" "current_task s' = i" "g_current_task_index s' = i"
      "task_count s' = task_count s" by blast
  have "i < task_count s" using best by (auto simp: best_candidates_def candidates_def)
  moreover have "t_private_data_size (tasks s' j) = t_private_data_size (tasks s j)" for j
    by (simp add: s' ts switched_out_def)
  moreover have st: "t_state (tasks s' j) = JRT_TASK_STATE_RUNNING \<longleftrightarrow> j = i" if "j < task_count s" for j
    using assms(1) that by (cases "j = current_task s"; cases "j = i") (auto simp: scheduler_inv_def s' ts)
  ultimately have "scheduler_inv s'"
    using assms(1) by (simp add: scheduler_inv_def s'(2-4))
  moreover have "\<forall>j < task_count s'. t_state (tasks s' j) = JRT_TASK_STATE_RUNNING \<longleftrightarrow> j = current_task s'"
    using st s' by simp
  ultimately show ?thesis using sw by blast
qed

theorem pendsv_switch_invariant_witness:
  "scheduler_inv running_state \<and> candidates running_state \<noteq> {}
   \<and> stack_pointer_ok (tasks running_state (current_task running_state)) 0
   \<and> (\<exists>r s'. pendsv_switch 0 running_state = Inr (r, s') \<and> scheduler_inv s')"
proof -
  have c: "candidates running_state \<noteq> {}" by (simp add: running_state_candidates)
  from pendsv_switch_invariant [OF running_state_inv c running_state_stack]
  show ?thesis using running_state_inv c running_state_stack by blast
qed

text \<open>C20: no starvation among equals. As long as the ready set stays as it is, every ready task of
  the highest priority is selected within \<open>task_count\<close> consecutive selections, whatever task the
  scheduler starts from.\<close>

theorem round_robin_fair:
  assumes "n < 0x80000000" and "base < n" and "j \<in> best_ready n ts"
  shows "\<exists>k. 0 < k \<and> k \<le> unat n \<and> (next_task n ts ^^ k) base = j"
proof -
  have "j < n" using assms(3) by (auto simp: best_ready_def ready_tasks_def)
  then have "cyclic_distance n base j \<le> unat n" by (rule cyclic_distance_range [OF assms(2)])
  with round_robin_reaches [OF assms(1,3,2)] order_trans show ?thesis by blast
qed

theorem round_robin_fair_witness:
  "(1 :: u32) \<in> best_ready 4 (tasks running_state)
   \<and> (\<exists>k. 0 < k \<and> k \<le> 4 \<and> (next_task 4 (tasks running_state) ^^ k) 2 = 1)"
proof -
  have "(1 :: u32) \<in> best_ready 4 (tasks running_state)"
    by (auto simp: best_ready_def ready_tasks_def below_four running_state_def zero_task_def reset_state_def)
  with round_robin_fair [of 4 2 1 "tasks running_state"] show ?thesis by simp
qed

text \<open>C33: a stack pointer outside the task's stack, or unaligned, is never switched away from: the
  kernel records the task and the pointer, masks interrupts and halts with the stack-overflow
  reason, before any other task is selected.\<close>

theorem pendsv_switch_stack_fault:
  assumes "\<not> stack_pointer_ok (tasks s (current_task s)) sp"
  shows "\<exists>s'. pendsv_switch sp s = Inl s' \<and> g_fatal_active s' = 1
     \<and> g_fatal_reason s' = fatal_reason_code JRT_FATAL_STACK_OVERFLOW \<and> primask s' = 1
     \<and> g_stack_fault s' = 1 \<and> g_stack_fault_task s' = g_current_task_index s \<and> g_stack_fault_sp s' = sp
     \<and> current_task s' = current_task s"
proof -
  have cs: "tasks (cs_enter s) = tasks s" "current_task (cs_enter s) = current_task s"
    "g_current_task_index (cs_enter s) = g_current_task_index s"
    by (simp_all add: cs_enter_def)
  then show ?thesis
    using pendsv_account_fault [of "cs_enter s" sp] assms
    by (auto simp: pendsv_switch_def arch_critical_enter_eq)
qed

theorem pendsv_switch_stack_fault_witness:
  "\<not> stack_pointer_ok (tasks running_state (current_task running_state)) 4
   \<and> (\<exists>s'. pendsv_switch 4 running_state = Inl s' \<and> g_stack_fault_sp s' = 4)"
proof -
  have "\<not> stack_pointer_ok (tasks running_state (current_task running_state)) 4"
    by (simp add: stack_pointer_ok_def running_state_def reset_state_def zero_task_def)
  from pendsv_switch_stack_fault [OF this] this show ?thesis by blast
qed

end
