(* ===== verification/JRT_Semaphore.thy ===== *)
theory JRT_Semaphore
  imports JRT_Wait
begin

text \<open>
  Binary semaphores (\<open>kernel/sync.c\<close>, lines 46 to 122). The contract is a token: at most one is
  available, a give hands it to the best waiter when there is one, and no task waits while the
  token is available.
\<close>

section \<open>Operations\<close>

text \<open>The counter the caller names is incremented by \<open>bump\<close>.\<close>

definition count_context_misuse :: "(kstate \<Rightarrow> kstate) \<Rightarrow> kstate \<Rightarrow> kstate" where
  "count_context_misuse bump s =
    (let s = bump s in s\<lparr>g_sync_context_misuse := g_sync_context_misuse s + 1\<rparr>)"

definition set_semaphore :: "addr \<Rightarrow> u32 \<Rightarrow> kstate \<Rightarrow> kstate" where
  "set_semaphore semaphore v s =
     s\<lparr>semaphores := (semaphores s)(semaphore := (semaphores s semaphore)\<lparr>sem_available := v\<rparr>)\<rparr>"

definition JRT_SemaphoreCreateBinaryStatic :: "addr \<Rightarrow> u32 \<Rightarrow> kstate \<Rightarrow> kstate" where
  "JRT_SemaphoreCreateBinaryStatic semaphore initially_available s =
    (let (saved_primask, s) = arch_critical_enter s;
         s = set_semaphore semaphore (if initially_available \<noteq> 0 then 1 else 0) s
     in arch_critical_exit saved_primask s)"

text \<open>
  The take after its deadline has been computed. The deadline is taken in a critical section of
  its own, so interrupts may come between the two: \<open>deadline\<close> and \<open>s\<close> are independent here.
\<close>

definition semaphore_take_from :: "addr \<Rightarrow> u32 \<Rightarrow> task_wait_deadline_t \<Rightarrow> kstate \<Rightarrow> int blocking" where
  "semaphore_take_from semaphore timeout_ticks deadline s =
    (if arch_in_isr s \<noteq> 0
     then (Some 0, count_context_misuse
            (\<lambda>s. s\<lparr>g_sync_misuse_semaphore_take := g_sync_misuse_semaphore_take s + 1\<rparr>) s)
     else
       let (saved_primask, s) = arch_critical_enter s
       in if sem_available (semaphores s semaphore) \<noteq> 0
          then (Some 1, arch_critical_exit saved_primask (set_semaphore semaphore 0 s))
          else if timeout_ticks = 0 then (Some 0, arch_critical_exit saved_primask s)
          else task_block_until_locked semaphore TASK_WAIT_SEMAPHORE deadline saved_primask s)"

definition JRT_SemaphoreTake :: "addr \<Rightarrow> u32 \<Rightarrow> kstate \<Rightarrow> int blocking" where
  "JRT_SemaphoreTake semaphore timeout_ticks s =
    (let (deadline, s) = task_wait_deadline timeout_ticks s
     in semaphore_take_from semaphore timeout_ticks deadline s)"

text \<open>The common body of the two gives.\<close>

definition give_token :: "addr \<Rightarrow> kstate \<Rightarrow> kstate" where
  "give_token semaphore s =
    (let (saved_primask, s) = arch_critical_enter s;
         (woken, s) = task_wake semaphore TASK_WAIT_SEMAPHORE s;
         s = (if woken = 0 then set_semaphore semaphore 1 s else s)
     in arch_critical_exit saved_primask s)"

definition JRT_SemaphoreGive :: "addr \<Rightarrow> kstate \<Rightarrow> kstate" where
  "JRT_SemaphoreGive semaphore s =
    (if arch_in_isr s \<noteq> 0
     then count_context_misuse
            (\<lambda>s. s\<lparr>g_sync_misuse_semaphore_give := g_sync_misuse_semaphore_give s + 1\<rparr>) s
     else give_token semaphore s)"

definition JRT_SemaphoreGiveFromISR :: "addr \<Rightarrow> kstate \<Rightarrow> kstate" where
  "JRT_SemaphoreGiveFromISR semaphore s =
    (if arch_in_isr s = 0
     then count_context_misuse
            (\<lambda>s. s\<lparr>g_sync_misuse_semaphore_give_from_isr := g_sync_misuse_semaphore_give_from_isr s + 1\<rparr>) s
     else arch_request_switch (give_token semaphore s))"

section \<open>The token contract\<close>

text \<open>
  The abstract semaphore: whether the token is available and who waits for it. \<open>token_ok\<close> is its
  invariant; the two operations say what a give and a take may do to it.
\<close>

type_synonym token = "bool \<times> u32 set"

definition token_ok :: "token \<Rightarrow> bool" where
  "token_ok tk \<longleftrightarrow> \<not> fst tk \<or> snd tk = {}"

definition token_of :: "addr \<Rightarrow> kstate \<Rightarrow> token" where
  "token_of semaphore s =
     (sem_available (semaphores s semaphore) \<noteq> 0, kernel_waiters semaphore TASK_WAIT_SEMAPHORE s)"

definition token_give :: "u32 \<Rightarrow> token \<Rightarrow> token" where
  "token_give best tk = (if snd tk = {} then (True, {}) else (fst tk, snd tk - {best}))"

definition token_take :: "token \<Rightarrow> bool \<times> token" where
  "token_take tk = (if fst tk then (True, (False, snd tk)) else (False, tk))"

definition token_wait :: "u32 \<Rightarrow> token \<Rightarrow> token" where
  "token_wait i tk = (fst tk, insert i (snd tk))"

lemma token_of_cong:
  "semaphores t sem = semaphores s sem \<Longrightarrow> tasks t = tasks s \<Longrightarrow> task_count t = task_count s \<Longrightarrow>
     token_of sem t = token_of sem s"
  by (simp add: token_of_def kernel_waiters_def)

lemma give_token_fields:
  "semaphores (give_token sem s) = (if kernel_waiters sem TASK_WAIT_SEMAPHORE s = {}
     then (semaphores s)(sem := (semaphores s sem)\<lparr>sem_available := 1\<rparr>) else semaphores s)"
  "tasks (give_token sem s) = woken_tasks sem TASK_WAIT_SEMAPHORE s"
  "task_count (give_token sem s) = task_count s"
  "primask (give_token sem s) = primask s"
  by (simp_all add: give_token_def arch_critical_enter_eq case_prod_beta task_wake_fields set_semaphore_def Let_def)

lemma token_of_give:
  "token_of sem (give_token sem s) = token_give (best_waiter sem TASK_WAIT_SEMAPHORE s) (token_of sem s)"
  using kernel_waiters_woken [OF give_token_fields(2,3)]
  by (simp add: token_of_def token_give_def give_token_fields)

lemma token_of_request [simp]: "token_of sem (arch_request_switch s) = token_of sem s"
  by (simp add: token_of_def kernel_waiters_def)

lemma give_token_other:
  "sem' \<noteq> sem \<Longrightarrow> token_of sem' (give_token sem s) = token_of sem' s"
  using kernel_waiters_woken [OF give_token_fields(2,3)] best_waiter_in [of sem TASK_WAIT_SEMAPHORE s]
  by (auto simp: token_of_def give_token_fields kernel_waiters_def waiters_def waits_on_def)

text \<open>A take, in Thread mode.\<close>

lemma take_available:
  assumes "ipsr s = 0" and "sem_available (semaphores s sem) \<noteq> 0"
  shows "fst (semaphore_take_from sem timeout d s) = Some 1"
    and "semaphores (snd (semaphore_take_from sem timeout d s)) =
      (semaphores s)(sem := (semaphores s sem)\<lparr>sem_available := 0\<rparr>)"
    and "tasks (snd (semaphore_take_from sem timeout d s)) = tasks s"
    and "task_count (snd (semaphore_take_from sem timeout d s)) = task_count s"
  using assms by (simp_all add: semaphore_take_from_def arch_in_isr_def
      arch_critical_enter_eq set_semaphore_def)

definition gives_up :: "u32 \<Rightarrow> task_wait_deadline_t \<Rightarrow> kstate \<Rightarrow> bool" where
  "gives_up timeout d s \<longleftrightarrow> timeout = 0 \<or>
     deadline_passed (g_kernel_ticks s) (dl_start d) (dl_tick d) (dl_forever d)"

lemma take_empty:
  assumes "ipsr s = 0" and "sem_available (semaphores s sem) = 0"
  shows "fst (semaphore_take_from sem timeout d s) = (if gives_up timeout d s then Some 0 else None)"
    and "semaphores (snd (semaphore_take_from sem timeout d s)) = semaphores s"
    and "tasks (snd (semaphore_take_from sem timeout d s)) = (if gives_up timeout d s then tasks s
      else (tasks s)(current_task s := blocked_on sem TASK_WAIT_SEMAPHORE d (tasks s (current_task s))))"
    and "task_count (snd (semaphore_take_from sem timeout d s)) = task_count s"
  using assms by (simp_all add: semaphore_take_from_def arch_in_isr_def
      arch_critical_enter_eq task_block_until_locked_fields gives_up_def)

lemma fst_snd_take:
  "JRT_SemaphoreTake sem timeout s =
     semaphore_take_from sem timeout (make_deadline (g_kernel_ticks s) timeout) (cs_done s)"
  by (simp add: JRT_SemaphoreTake_def task_wait_deadline_eq)

section \<open>Properties of semaphores\<close>

text \<open>A give implements the token contract: with a waiter, exactly the best one (highest
  priority, then lowest ID) becomes READY with wait result 1 and the token stays unavailable;
  without one, the token becomes available and no task changes. A token is never lost or doubled.\<close>

theorem semaphore_give_refines:
  assumes "ipsr s = 0"
  shows "token_of sem (JRT_SemaphoreGive sem s) =
      token_give (best_waiter sem TASK_WAIT_SEMAPHORE s) (token_of sem s)
    \<and> tasks (JRT_SemaphoreGive sem s) =
      (if kernel_waiters sem TASK_WAIT_SEMAPHORE s = {} then tasks s
       else (tasks s)(best_waiter sem TASK_WAIT_SEMAPHORE s :=
              awake 1 (tasks s (best_waiter sem TASK_WAIT_SEMAPHORE s))))
    \<and> (\<forall>sem'. sem' \<noteq> sem \<longrightarrow> token_of sem' (JRT_SemaphoreGive sem s) = token_of sem' s)"
  using assms token_of_give give_token_other
  by (simp_all add: JRT_SemaphoreGive_def arch_in_isr_def give_token_fields woken_tasks_def)

theorem semaphore_give_witness:
  "ipsr waiting_state = 0
   \<and> tasks (JRT_SemaphoreGive 0x100 waiting_state) \<noteq> tasks waiting_state"
proof -
  have W: "kernel_waiters 0x100 TASK_WAIT_SEMAPHORE waiting_state = {1, 2, 3}"
    by (auto simp: kernel_waiters_def waiters_def waits_on_def waiting_state_def wait_task_def
        reset_state_def zero_task_def)
  let ?b = "best_waiter 0x100 TASK_WAIT_SEMAPHORE waiting_state"
  have i: "ipsr waiting_state = 0" by (simp add: waiting_state_def reset_state_def)
  have "?b \<in> {1, 2, 3}" using best_waiter_in [of "0x100" TASK_WAIT_SEMAPHORE waiting_state] W by simp
  then have "t_state (tasks waiting_state ?b) = JRT_TASK_STATE_BLOCKED"
    by (auto simp: waiting_state_def wait_task_def)
  moreover have "t_state (tasks (JRT_SemaphoreGive 0x100 waiting_state) ?b) = JRT_TASK_STATE_READY"
    using semaphore_give_refines [OF i, of "0x100"] W by simp
  ultimately show ?thesis using i by auto
qed

text \<open>A take implements the token contract at any interleaving with the tick: it returns 1 at
  once if and only if the token was available, and consumes it; otherwise it returns 0 without
  any effect when the timeout is 0 or already over, and else blocks the caller as a waiter.\<close>

theorem semaphore_take_refines:
  assumes "ipsr s = 0" and "current_task s < task_count s"
    and "semaphore_take_from sem timeout d s = (r, s')"
  shows "if fst (token_of sem s) then r = Some 1 \<and> token_of sem s' = snd (token_take (token_of sem s)) \<and> tasks s' = tasks s
    else if gives_up timeout d s then r = Some 0 \<and> token_of sem s' = token_of sem s \<and> tasks s' = tasks s
    else r = None \<and> token_of sem s' = token_wait (current_task s) (token_of sem s)
      \<and> t_state (tasks s' (current_task s)) = JRT_TASK_STATE_BLOCKED"
proof (cases "sem_available (semaphores s sem) = 0")
  case True
  note e = take_empty [OF assms(1) True, of timeout d, unfolded assms(3), simplified]
  show ?thesis
  proof (cases "gives_up timeout d s")
    case False
    then have "kernel_waiters sem TASK_WAIT_SEMAPHORE s' =
        insert (current_task s) (kernel_waiters sem TASK_WAIT_SEMAPHORE s)"
      using e(3,4) assms(2) kernel_waiters_blocked [of s' s "current_task s" sem TASK_WAIT_SEMAPHORE d] by simp
    with True False e show ?thesis by (simp add: token_of_def token_wait_def)
  qed (use True e token_of_cong [of s' sem s] in \<open>simp add: token_of_def kernel_waiters_def\<close>)
next
  case False
  note e = take_available [OF assms(1) False, of timeout d, unfolded assms(3), simplified]
  with False show ?thesis by (simp add: token_of_def token_take_def kernel_waiters_def)
qed

theorem semaphore_take_witness:
  "ipsr waiting_state = 0 \<and> current_task waiting_state < task_count waiting_state
   \<and> fst (semaphore_take_from 0x100 5 (make_deadline 0 5) waiting_state) = None"
proof -
  have h: "ipsr waiting_state = 0" "current_task waiting_state < task_count waiting_state"
    "\<not> fst (token_of 0x100 waiting_state)" "\<not> gives_up 5 (make_deadline 0 5) waiting_state"
    by (simp_all add: waiting_state_def reset_state_def token_of_def gives_up_def deadline_passed_def make_deadline_def)
  obtain r s' where "semaphore_take_from 0x100 5 (make_deadline 0 5) waiting_state = (r, s')" by fastforce
  with semaphore_take_refines [OF h(1,2) this] h show ?thesis by simp
qed

text \<open>Every operation keeps the token of every semaphore consistent.\<close>

lemma misuse_tokens:
  assumes "token_ok (token_of sem' s)" and "tasks (bump s) = tasks s" "semaphores (bump s) = semaphores s" "task_count (bump s) = task_count s"
  shows "token_ok (token_of sem' (count_context_misuse bump s))"
  using assms by (simp add: count_context_misuse_def token_of_def kernel_waiters_def Let_def)

lemma take_tokens:
  assumes ok: "token_ok (token_of sem' s)" and c: "current_task s < task_count s"
  shows "token_ok (token_of sem' (snd (semaphore_take_from sem timeout d s)))"
proof -
  let ?t = "snd (semaphore_take_from sem timeout d s)"
  consider (isr) "ipsr s \<noteq> 0" | (free) "ipsr s = 0" "sem_available (semaphores s sem) \<noteq> 0"
    | (taken) "ipsr s = 0" "sem_available (semaphores s sem) = 0" by blast
  then show ?thesis
  proof cases
    case isr
    then show ?thesis by (simp add: semaphore_take_from_def arch_in_isr_def misuse_tokens ok)
  next
    case free
    from take_available [OF free] ok show ?thesis by (auto simp: token_ok_def token_of_def kernel_waiters_def)
  next
    case taken
    show ?thesis
    proof (cases "gives_up timeout d s")
      case True
      with take_empty [OF taken] have "token_of sem' ?t = token_of sem' s" by (intro token_of_cong) simp_all
      with ok show ?thesis by simp
    next
      case False
      with take_empty(3,4) [OF taken, of timeout d]
      have "kernel_waiters sem' TASK_WAIT_SEMAPHORE ?t = (if sem' = sem
          then insert (current_task s) (kernel_waiters sem' TASK_WAIT_SEMAPHORE s)
          else kernel_waiters sem' TASK_WAIT_SEMAPHORE s - {current_task s})"
        using kernel_waiters_blocked [where t = ?t, of s "current_task s" sem TASK_WAIT_SEMAPHORE d] c by simp
      with take_empty(2) [OF taken, of timeout d] taken ok show ?thesis
        by (auto simp: token_ok_def token_of_def split: if_splits)
    qed
  qed
qed

lemma give_tokens:
  assumes ok: "token_ok (token_of sem' s)"
  shows "token_ok (token_of sem' (JRT_SemaphoreGive sem s))" and "token_ok (token_of sem' (JRT_SemaphoreGiveFromISR sem s))"
proof -
  have "token_ok (token_of sem' (give_token sem s))"
    using ok token_of_give [of sem s] give_token_other [of sem' sem s]
    by (cases "sem' = sem") (auto simp: token_give_def token_ok_def)
  then show "token_ok (token_of sem' (JRT_SemaphoreGive sem s))" "token_ok (token_of sem' (JRT_SemaphoreGiveFromISR sem s))"
    by (simp_all add: JRT_SemaphoreGive_def JRT_SemaphoreGiveFromISR_def misuse_tokens ok)
qed

lemma create_tokens:
  assumes "token_ok (token_of sem' s)" and "kernel_waiters sem TASK_WAIT_SEMAPHORE s = {}"
  shows "token_ok (token_of sem' (JRT_SemaphoreCreateBinaryStatic sem v s))"
  using assms by (cases "sem' = sem")
    (simp_all add: JRT_SemaphoreCreateBinaryStatic_def arch_critical_enter_eq set_semaphore_def token_ok_def token_of_def
      kernel_waiters_def Let_def)

text \<open>No lost wake-up: the invariant "no task waits while the token is available" of every
  semaphore holds after every take, give and creation, whichever semaphore it is on, from Thread mode
  and from an interrupt handler, on every path; only a semaphore in use must not be created again.\<close>

theorem semaphore_no_lost_wakeup:
  assumes "token_ok (token_of sem' s)" and "current_task s < task_count s"
  shows "token_ok (token_of sem' (snd (semaphore_take_from sem timeout d s)))
    \<and> token_ok (token_of sem' (JRT_SemaphoreGive sem s))
    \<and> token_ok (token_of sem' (JRT_SemaphoreGiveFromISR sem s))
    \<and> (kernel_waiters sem TASK_WAIT_SEMAPHORE s = {} \<longrightarrow>
         token_ok (token_of sem' (JRT_SemaphoreCreateBinaryStatic sem v s)))"
  using take_tokens [OF assms] give_tokens [OF assms(1)] create_tokens [OF assms(1)] by blast

theorem semaphore_no_lost_wakeup_witness:
  "token_ok (token_of 0x100 waiting_state) \<and> current_task waiting_state < task_count waiting_state
   \<and> token_ok (token_of 0x100 (JRT_SemaphoreGive 0x100 waiting_state))"
proof -
  have h: "token_ok (token_of 0x100 waiting_state)" "current_task waiting_state < task_count waiting_state"
    by (simp_all add: waiting_state_def reset_state_def token_of_def token_ok_def)
  with semaphore_no_lost_wakeup [OF h] show ?thesis by simp
qed

end
