(* ===== verification/JRT_Lists.thy ===== *)
theory JRT_Lists
  imports JRT_Prelude
begin

text \<open>
  Intrusive singly linked lists: the mutexes and the timers are linked through a \<open>next\<close> field and
  walked by the same three loops. The interface states those loops' unfolding once; the walks over
  a well-formed list, and the cycle check over an arbitrary heap, are verified here once and
  interpreted for both.
\<close>

section \<open>List segments\<close>

text \<open>\<open>list_at nx p xs\<close>: following \<open>nx\<close> from \<open>p\<close> to null visits exactly the addresses \<open>xs\<close>.\<close>

fun list_at :: "(addr \<Rightarrow> addr) \<Rightarrow> addr \<Rightarrow> addr list \<Rightarrow> bool" where
  "list_at nx p [] \<longleftrightarrow> p = NULL"
| "list_at nx p (x # xs) \<longleftrightarrow> p = x \<and> x \<noteq> NULL \<and> list_at nx (nx x) xs"

lemma list_at_unique: "list_at nx p xs \<Longrightarrow> list_at nx p ys \<Longrightarrow> xs = ys"
proof (induction xs arbitrary: p ys)
  case Nil
  then show ?case by (cases ys) auto
next
  case (Cons x xs)
  then show ?case by (cases ys) auto
qed

lemma list_at_split:
  "list_at nx p (xs @ x # ys) \<Longrightarrow> list_at nx x (x # ys)"
  by (induction xs arbitrary: p) auto

lemma list_at_distinct: "list_at nx p xs \<Longrightarrow> distinct xs"
proof (induction xs arbitrary: p)
  case (Cons x xs)
  have "x \<notin> set xs"
  proof
    assume "x \<in> set xs"
    then obtain ys zs where "xs = ys @ x # zs" by (meson split_list)
    with Cons.prems have "list_at nx x (x # zs)" "list_at nx x (x # ys @ x # zs)"
      using list_at_split [of nx p "x # ys" x zs] by auto
    from list_at_unique [OF this] show False by simp
  qed
  with Cons show ?case by auto
qed simp

lemma list_at_null [simp]: "list_at nx NULL xs \<longleftrightarrow> xs = []"
  by (cases xs) auto

lemma list_at_nonnull: "list_at nx p xs \<Longrightarrow> x \<in> set xs \<Longrightarrow> x \<noteq> NULL"
  by (induction xs arbitrary: p) auto

lemma list_at_update:
  "list_at nx p xs \<Longrightarrow> ob \<notin> set xs \<Longrightarrow> list_at (nx(ob := q)) p xs"
  by (induction xs arbitrary: p) auto

lemma list_at_cong:
  "(\<And>x. x \<in> set xs \<Longrightarrow> nx' x = nx x) \<Longrightarrow> list_at nx' p xs = list_at nx p xs"
  by (induction xs arbitrary: p) auto

text \<open>Iterating \<open>nx\<close> either reaches null, and then there is a list, or never does.\<close>

lemma list_at_of_iterates:
  "(nx ^^ k) p = NULL \<Longrightarrow> \<exists>xs. list_at nx p xs"
proof (induction k arbitrary: p)
  case 0
  then show ?case by (intro exI [of _ "[]"]) simp
next
  case (Suc k)
  then have "(nx ^^ k) (nx p) = NULL" by (simp add: funpow_swap1)
  from Suc.IH [OF this] obtain xs where xs: "list_at nx (nx p) xs" by blast
  show ?case
  proof (cases "p = NULL")
    case True
    then show ?thesis by (intro exI [of _ "[]"]) simp
  next
    case False
    with xs show ?thesis by (intro exI [of _ "p # xs"]) simp
  qed
qed

section \<open>Tortoise and hare\<close>

text \<open>A sequence of 32-bit addresses repeats, so the two runners meet at some step.\<close>

lemma runners_meet:
  fixes nx :: "addr \<Rightarrow> addr"
  shows "\<exists>k>0. (nx ^^ k) p = (nx ^^ (2 * k)) p"
proof -
  let ?a = "\<lambda>i. (nx ^^ i) p"
  have "\<not> inj ?a" using finite_imageD [of ?a UNIV] by auto
  then obtain i j where ij: "i < j" "?a i = ?a j"
    unfolding inj_def by (metis linorder_neqE_nat)
  define d where "d = j - i"
  have step: "?a (m + d) = ?a m" if "i \<le> m" for m
  proof -
    have "?a (m + d) = (nx ^^ (m - i)) (?a (i + d))"
      using that by (simp flip: funpow_add comp_apply [of "nx ^^ _"] add: funpow_add [symmetric, THEN fun_cong, simplified])
    also have "\<dots> = (nx ^^ (m - i)) (?a i)" using ij by (simp add: d_def)
    also have "\<dots> = ?a m" using that by (simp add: funpow_add [symmetric, THEN fun_cong, simplified])
    finally show ?thesis .
  qed
  have many: "?a (m + c * d) = ?a m" if "i \<le> m" for m c
  proof (induction c)
    case (Suc c)
    have "?a (m + Suc c * d) = ?a ((m + c * d) + d)" by (simp add: algebra_simps)
    with step [of "m + c * d"] that Suc show ?case by simp
  qed simp
  have "d > 0" using ij by (simp add: d_def)
  define k where "k = Suc i * d"
  have "k > 0" using \<open>d > 0\<close> by (simp add: k_def)
  moreover have "i \<le> k" using mult_le_mono [of i "Suc i" 1 d] \<open>d > 0\<close> by (simp add: k_def)
  moreover have "2 * k = k + Suc i * d" by (simp add: k_def)
  then have "?a (2 * k) = ?a k" using many [OF \<open>i \<le> k\<close>] by (simp only:)
  ultimately show ?thesis by metis
qed

section \<open>The interface\<close>

locale intrusive_list =
  fixes next_of :: "'o \<Rightarrow> addr"
    and set_next :: "addr \<Rightarrow> 'o \<Rightarrow> 'o"
    and is_linked :: "(addr \<Rightarrow> 'o) \<Rightarrow> addr \<Rightarrow> addr \<Rightarrow> int option"
    and find_cycle :: "(addr \<Rightarrow> 'o) \<Rightarrow> addr \<Rightarrow> addr \<Rightarrow> addr option option"
  assumes next_set: "next_of (set_next p x) = p"
    and is_linked_unfold: "is_linked h ob p =
      (if p = NULL then Some 0 else if p = ob then Some 1 else is_linked h ob (next_of (h p)))"
    and find_cycle_unfold: "find_cycle h slow fast =
      (if fast \<noteq> NULL \<and> next_of (h fast) \<noteq> NULL
       then if next_of (h slow) = next_of (h (next_of (h fast)))
            then Some (Some (next_of (h slow)))
            else find_cycle h (next_of (h slow)) (next_of (h (next_of (h fast))))
       else Some None)"
begin

definition objects :: "(addr \<Rightarrow> 'o) \<Rightarrow> addr \<Rightarrow> addr list \<Rightarrow> bool" where
  "objects h p xs = list_at (\<lambda>a. next_of (h a)) p xs"

lemma is_linked_objects:
  "objects h p xs \<Longrightarrow> is_linked h ob p = Some (if ob \<in> set xs then 1 else 0)"
  unfolding objects_def
proof (induction xs arbitrary: p)
  case Nil
  then show ?case by (subst is_linked_unfold) simp
next
  case (Cons x xs)
  then show ?case by (subst is_linked_unfold) auto
qed

lemma push_objects:
  assumes "objects h p xs" and "ob \<notin> set xs" and "ob \<noteq> NULL"
  shows "objects (h(ob := set_next p (h ob))) ob (ob # xs)"
proof -
  have "(\<lambda>a. next_of ((h(ob := set_next p (h ob))) a)) = (\<lambda>a. next_of (h a))(ob := p)"
    by (auto simp: next_set)
  with assms show ?thesis by (simp add: objects_def list_at_update)
qed

lemma objects_same_next:
  "(\<And>a. next_of (h' a) = next_of (h a)) \<Longrightarrow> objects h' p xs = objects h p xs"
  by (simp add: objects_def)

text \<open>
  The check is exact and always ends: it reports nothing on a list that reaches null, and a
  member of the cycle on one that does not.
\<close>

lemma find_cycle_objects:
  "objects h slow ys \<Longrightarrow> objects h fast xs \<Longrightarrow> \<exists>zs. ys = zs @ xs \<Longrightarrow> find_cycle h slow fast = Some None"
  unfolding objects_def
proof (induction xs arbitrary: slow fast ys rule: length_induct)
  case (1 xs)
  let ?nx = "\<lambda>a. next_of (h a)"
  show ?case
  proof (cases xs)
    case Nil
    with 1 show ?thesis by (subst find_cycle_unfold) simp
  next
    case (Cons x xs')
    then have x: "fast = x" "x \<noteq> NULL" "list_at ?nx (?nx x) xs'" using 1(3) by auto
    show ?thesis
    proof (cases xs')
      case Nil
      with x show ?thesis by (subst find_cycle_unfold) simp
    next
      case (Cons x' xs'')
      then have x': "?nx x = x'" "x' \<noteq> NULL" "list_at ?nx (?nx x') xs''" using x by auto
      obtain zs where zs: "ys = zs @ x # x' # xs''" using 1(4) \<open>xs = x # xs'\<close> Cons by auto
      obtain y ys' where ys: "ys = y # ys'" using zs by (metis neq_Nil_conv append_is_Nil_conv)
      then have y: "slow = y" "list_at ?nx (?nx y) ys'" using 1(2) by auto
      have tail: "\<exists>us. ys' = us @ x' # xs''"
      proof (cases zs)
        case Nil
        with zs ys show ?thesis by (intro exI [of _ "[]"]) simp
      next
        case (Cons z zs')
        with zs ys show ?thesis by (intro exI [of _ "zs' @ [x]"]) simp
      qed
      then obtain us where us: "ys' = us @ x' # xs''" by blast
      have "?nx y \<noteq> ?nx x'"
      proof
        assume "?nx y = ?nx x'"
        with y(2) x'(3) have "list_at ?nx (?nx x') ys'" by simp
        from list_at_unique [OF this x'(3)] us show False by simp
      qed
      moreover have "find_cycle h (?nx y) (?nx x') = Some None"
      proof (rule 1(1) [rule_format, OF _ y(2) x'(3)])
        show "length xs'' < length xs" using \<open>xs = x # xs'\<close> Cons by simp
        show "\<exists>zs. ys' = zs @ xs''" using us by (intro exI [of _ "us @ [x']"]) simp
      qed
      ultimately show ?thesis using x x' y by (subst find_cycle_unfold) simp
    qed
  qed
qed

lemma find_cycle_none: "objects h p xs \<Longrightarrow> find_cycle h p p = Some None"
  by (rule find_cycle_objects) auto

lemma find_cycle_found:
  assumes "\<nexists>xs. objects h p xs"
  shows "\<exists>c. find_cycle h p p = Some (Some c)"
proof -
  let ?nx = "\<lambda>a. next_of (h a)"
  let ?a = "\<lambda>i. (?nx ^^ i) p"
  have nonnull: "?a i \<noteq> NULL" for i
    using assms list_at_of_iterates [of i ?nx p] by (auto simp: objects_def)
  obtain k where k: "k > 0" "?a k = ?a (2 * k)" using runners_meet [of ?nx p] by blast
  have "\<exists>c. find_cycle h (?a m) (?a (2 * m)) = Some (Some c)" if "m < k" for m
    using that
  proof (induction "k - m" arbitrary: m rule: less_induct)
    case less
    have s: "?nx (?a m) = ?a (Suc m)" "?nx (?a (2 * m)) = ?a (Suc (2 * m))"
      "?nx (?a (Suc (2 * m))) = ?a (2 * Suc m)" by simp_all
    show ?case
    proof (cases "?a (Suc m) = ?a (2 * Suc m)")
      case True
      then show ?thesis
        using nonnull [of "2 * m"] nonnull [of "Suc (2 * m)"]
        by (simp add: find_cycle_unfold [of h "?a m"])
    next
      case False
      then have "Suc m \<noteq> k" using k(2) by auto
      with less.prems have "k - Suc m < k - m" "Suc m < k" by auto
      from less.hyps [OF this] have "\<exists>c. find_cycle h (?a (Suc m)) (?a (2 * Suc m)) = Some (Some c)" .
      then show ?thesis
        using nonnull [of "2 * m"] nonnull [of "Suc (2 * m)"] False
        by (simp add: find_cycle_unfold [of h "?a m"])
    qed
  qed
  from this [of 0] k(1) show ?thesis by simp
qed

lemma find_cycle_exact: "find_cycle h p p = Some None \<longleftrightarrow> (\<exists>xs. objects h p xs)"
  using find_cycle_none find_cycle_found by fastforce

lemma find_cycle_total: "\<exists>r. find_cycle h p p = Some r"
  using find_cycle_none find_cycle_found by blast

end

end
