(* ===== verification/JRT_Mutex.thy ===== *)
theory JRT_Mutex
  imports JRT_Priority JRT_Semaphore JRT_Lists
begin

text \<open>
  Recursive mutexes (\<open>kernel/sync.c\<close>, lines 18 to 44 and 124 to 268): the list of all mutexes,
  creation, lock, unlock with hand-over to the best waiter, and the periodic invariant check.
\<close>

section \<open>The mutex list\<close>

partial_function (option) mutex_is_linked_from ::
  "(addr \<Rightarrow> JRT_Mutex_t) \<Rightarrow> addr \<Rightarrow> addr \<Rightarrow> int option" where
  "mutex_is_linked_from ms mutex current =
    (if current = NULL then Some 0
     else if current = mutex then Some 1
     else mutex_is_linked_from ms mutex (m_next (ms current)))"

definition mutex_is_linked_locked :: "addr \<Rightarrow> kstate \<Rightarrow> int option" where
  "mutex_is_linked_locked mutex s = mutex_is_linked_from (mutexes s) mutex (mutex_list s)"

definition set_mutex :: "addr \<Rightarrow> JRT_Mutex_t \<Rightarrow> kstate \<Rightarrow> kstate" where
  "set_mutex mutex m s = s\<lparr>mutexes := (mutexes s)(mutex := m)\<rparr>"

definition mutex_link_locked :: "addr \<Rightarrow> kstate \<Rightarrow> kstate option" where
  "mutex_link_locked mutex s =
    (case mutex_is_linked_locked mutex s of
       None \<Rightarrow> None
     | Some linked \<Rightarrow>
        Some (if linked = 0
              then (set_mutex mutex ((mutexes s mutex)\<lparr>m_next := mutex_list s\<rparr>) s)\<lparr>mutex_list := mutex\<rparr>
              else s))"

text \<open>\<open>None\<close>: the walk of a cyclic list does not end.\<close>

definition JRT_MutexCreateRecursiveStatic :: "addr \<Rightarrow> kstate \<Rightarrow> kstate option" where
  "JRT_MutexCreateRecursiveStatic mutex s =
    (let (saved_primask, s) = arch_critical_enter s
     in case mutex_is_linked_locked mutex s of
       None \<Rightarrow> None
     | Some linked \<Rightarrow>
        let nxt = (if linked \<noteq> 0 then m_next (mutexes s mutex) else NULL);
            s = set_mutex mutex \<lparr>m_locked = 0, m_owner = UINT32_MAX, m_recursion = 0, m_next = nxt\<rparr> s
        in case mutex_link_locked mutex s of
             None \<Rightarrow> None
           | Some s \<Rightarrow> Some (arch_critical_exit saved_primask s))"

text \<open>
  The check: the cycle search, then the state of every mutex on the list. The result is the code
  and the object reported, if any.
\<close>

partial_function (option) mutex_cycle_loop ::
  "(addr \<Rightarrow> JRT_Mutex_t) \<Rightarrow> addr \<Rightarrow> addr \<Rightarrow> addr option option" where
  "mutex_cycle_loop ms slow fast =
    (if fast \<noteq> NULL \<and> m_next (ms fast) \<noteq> NULL
     then if m_next (ms slow) = m_next (ms (m_next (ms fast)))
          then Some (Some (m_next (ms slow)))
          else mutex_cycle_loop ms (m_next (ms slow)) (m_next (ms (m_next (ms fast))))
     else Some None)"

definition mutex_fault :: "u32 \<Rightarrow> JRT_Mutex_t \<Rightarrow> JRT_KernelInvariantCode_t" where
  "mutex_fault configured_task_count m =
    (if m_locked m = 0
     then if m_owner m \<noteq> UINT32_MAX \<or> m_recursion m \<noteq> 0 then JRT_INVARIANT_MUTEX_UNLOCKED_STATE
          else JRT_INVARIANT_NONE
     else if m_owner m \<ge> configured_task_count then JRT_INVARIANT_MUTEX_OWNER
     else if m_recursion m = 0 then JRT_INVARIANT_MUTEX_RECURSION
     else JRT_INVARIANT_NONE)"

partial_function (option) mutex_state_loop ::
  "u32 \<Rightarrow> (addr \<Rightarrow> JRT_Mutex_t) \<Rightarrow> addr \<Rightarrow> (JRT_KernelInvariantCode_t \<times> addr option) option" where
  "mutex_state_loop configured_task_count ms mutex =
    (if mutex = NULL then Some (JRT_INVARIANT_NONE, None)
     else if mutex_fault configured_task_count (ms mutex) \<noteq> JRT_INVARIANT_NONE
     then Some (mutex_fault configured_task_count (ms mutex), Some mutex)
     else mutex_state_loop configured_task_count ms (m_next (ms mutex)))"

definition sync_invariant_check :: "u32 \<Rightarrow> kstate \<Rightarrow> (JRT_KernelInvariantCode_t \<times> addr option) option" where
  "sync_invariant_check configured_task_count s =
    (case mutex_cycle_loop (mutexes s) (mutex_list s) (mutex_list s) of
       None \<Rightarrow> None
     | Some (Some object) \<Rightarrow> Some (JRT_INVARIANT_MUTEX_LIST_CYCLE, Some object)
     | Some None \<Rightarrow> mutex_state_loop configured_task_count (mutexes s) (mutex_list s))"

section \<open>Lock and unlock\<close>

text \<open>
  The lock after its deadline has been computed and its task index read; interrupts may come
  between those and the critical section.
\<close>

definition mutex_lock_from :: "addr \<Rightarrow> u32 \<Rightarrow> task_wait_deadline_t \<Rightarrow> u32 \<Rightarrow> kstate \<Rightarrow> int blocking" where
  "mutex_lock_from mutex timeout_ticks deadline current_index s =
    (if arch_in_isr s \<noteq> 0
     then (Some 0, count_context_misuse
            (\<lambda>s. s\<lparr>g_sync_misuse_mutex_lock := g_sync_misuse_mutex_lock s + 1\<rparr>) s)
     else
       let (saved_primask, s) = arch_critical_enter s;
           m = mutexes s mutex
       in if m_locked m = 0
          then (Some 1, arch_critical_exit saved_primask
                 (set_mutex mutex (m\<lparr>m_locked := 1, m_owner := current_index, m_recursion := 1\<rparr>) s))
          else if m_owner m = current_index
          then (Some 1, arch_critical_exit saved_primask
                 (set_mutex mutex (m\<lparr>m_recursion := m_recursion m + 1\<rparr>) s))
          else if timeout_ticks = 0 then (Some 0, arch_critical_exit saved_primask s)
          else
            let s = task_inherit_priority (m_owner m) (t_priority (tasks s (current_task s))) s
            in task_block_until_locked mutex TASK_WAIT_MUTEX deadline saved_primask s)"

definition JRT_MutexLock :: "addr \<Rightarrow> u32 \<Rightarrow> kstate \<Rightarrow> int blocking" where
  "JRT_MutexLock mutex timeout_ticks s =
    (let (deadline, s) = task_wait_deadline timeout_ticks s
     in mutex_lock_from mutex timeout_ticks deadline (g_current_task_index s) s)"

text \<open>The last unlock: hand over to the best waiter or release, then recalculate.\<close>

definition mutex_release :: "addr \<Rightarrow> kstate \<Rightarrow> kstate" where
  "mutex_release mutex s =
    (let owner_id = m_owner (mutexes s mutex);
         (next_owner_id, s) = task_wake_get_id mutex TASK_WAIT_MUTEX s;
         m = mutexes s mutex;
         s = (if next_owner_id \<noteq> UINT32_MAX
              then set_mutex mutex (m\<lparr>m_owner := next_owner_id, m_locked := 1, m_recursion := 1\<rparr>) s
              else set_mutex mutex (m\<lparr>m_owner := UINT32_MAX, m_locked := 0, m_recursion := 0\<rparr>) s);
         s = task_restore_priority owner_id s
     in if next_owner_id \<noteq> UINT32_MAX then task_restore_priority next_owner_id s else s)"

definition JRT_MutexUnlock :: "addr \<Rightarrow> kstate \<Rightarrow> int \<times> kstate" where
  "JRT_MutexUnlock mutex s =
    (if arch_in_isr s \<noteq> 0
     then (0, count_context_misuse
            (\<lambda>s. s\<lparr>g_sync_misuse_mutex_unlock := g_sync_misuse_mutex_unlock s + 1\<rparr>) s)
     else
       let (saved_primask, s) = arch_critical_enter s;
           m = mutexes s mutex
       in if m_locked m = 0 \<or> m_owner m \<noteq> g_current_task_index s
          then (0, arch_critical_exit saved_primask s)
          else if m_recursion m > 1
          then (1, arch_critical_exit saved_primask
                 (set_mutex mutex (m\<lparr>m_recursion := m_recursion m - 1\<rparr>) s))
          else (1, arch_critical_exit saved_primask (mutex_release mutex s)))"

section \<open>The list and its check\<close>

interpretation mutex_objects: intrusive_list m_next "\<lambda>p m. m\<lparr>m_next := p\<rparr>"
  mutex_is_linked_from mutex_cycle_loop
proof
  show "m_next (m\<lparr>m_next := p\<rparr>) = p" for p m by simp
  show "mutex_is_linked_from h ob p = (if p = NULL then Some 0 else if p = ob then Some 1
      else mutex_is_linked_from h ob (m_next (h p)))" for h ob p
    by (rule mutex_is_linked_from.simps)
  show "mutex_cycle_loop h slow fast =
      (if fast \<noteq> NULL \<and> m_next (h fast) \<noteq> NULL
       then if m_next (h slow) = m_next (h (m_next (h fast)))
            then Some (Some (m_next (h slow)))
            else mutex_cycle_loop h (m_next (h slow)) (m_next (h (m_next (h fast))))
       else Some None)" for h slow fast
    by (rule mutex_cycle_loop.simps)
qed

text \<open>The mutexes the kernel knows, in list order.\<close>

definition linked_mutexes :: "kstate \<Rightarrow> addr list \<Rightarrow> bool" where
  "linked_mutexes s xs \<longleftrightarrow> list_at (\<lambda>a. m_next (mutexes s a)) (mutex_list s) xs"

lemma linked_mutexes_objects: "linked_mutexes s xs = mutex_objects.objects (mutexes s) (mutex_list s) xs"
  by (simp add: linked_mutexes_def mutex_objects.objects_def)

lemma mutex_state_loop_list:
  "list_at (\<lambda>a. m_next (ms a)) p xs \<Longrightarrow>
    mutex_state_loop n ms p = Some
      (case find (\<lambda>a. mutex_fault n (ms a) \<noteq> JRT_INVARIANT_NONE) xs of
         None \<Rightarrow> (JRT_INVARIANT_NONE, None) | Some a \<Rightarrow> (mutex_fault n (ms a), Some a))"
proof (induction xs arbitrary: p)
  case Nil
  then show ?case by (subst mutex_state_loop.simps) simp
next
  case (Cons x xs)
  then show ?case by (subst mutex_state_loop.simps) auto
qed

lemma sync_invariant_check_list:
  assumes "linked_mutexes s xs"
  shows "sync_invariant_check n s = Some
      (case find (\<lambda>a. mutex_fault n (mutexes s a) \<noteq> JRT_INVARIANT_NONE) xs of
         None \<Rightarrow> (JRT_INVARIANT_NONE, None) | Some a \<Rightarrow> (mutex_fault n (mutexes s a), Some a))"
  using mutex_objects.find_cycle_none assms mutex_state_loop_list
  by (simp add: sync_invariant_check_def linked_mutexes_objects) (simp add: linked_mutexes_def flip: linked_mutexes_objects)

lemma sync_invariant_check_cyclic:
  assumes "\<nexists>xs. linked_mutexes s xs"
  shows "\<exists>c. sync_invariant_check n s = Some (JRT_INVARIANT_MUTEX_LIST_CYCLE, Some c)"
  using mutex_objects.find_cycle_found assms
  by (fastforce simp: sync_invariant_check_def linked_mutexes_objects)

text \<open>The mutex check always ends, on every heap, and its verdict is exact: it passes if and only
  if the list reaches null and every mutex on it is either free with no owner and no recursion,
  or owned by an existing task with a positive recursion count.\<close>

theorem sync_invariant_check_exact:
  "\<exists>code object. sync_invariant_check n s = Some (code, object)
    \<and> (code = JRT_INVARIANT_NONE \<longleftrightarrow>
        (\<exists>xs. linked_mutexes s xs \<and> (\<forall>a \<in> set xs.
           if m_locked (mutexes s a) = 0
           then m_owner (mutexes s a) = UINT32_MAX \<and> m_recursion (mutexes s a) = 0
           else m_owner (mutexes s a) < n \<and> m_recursion (mutexes s a) \<noteq> 0)))"
proof (cases "\<exists>xs. linked_mutexes s xs")
  case False
  with sync_invariant_check_cyclic [of s n] show ?thesis by fastforce
next
  case True
  then obtain xs where xs: "linked_mutexes s xs" by blast
  have unique: "ys = xs" if "linked_mutexes s ys" for ys
    using that xs list_at_unique unfolding linked_mutexes_def by blast
  have good: "mutex_fault n m = JRT_INVARIANT_NONE \<longleftrightarrow>
      (if m_locked m = 0 then m_owner m = UINT32_MAX \<and> m_recursion m = 0
       else m_owner m < n \<and> m_recursion m \<noteq> 0)" for m
    by (auto simp: mutex_fault_def not_less)
  show ?thesis
  proof (cases "find (\<lambda>a. mutex_fault n (mutexes s a) \<noteq> JRT_INVARIANT_NONE) xs")
    case None
    then have "\<forall>a\<in>set xs. mutex_fault n (mutexes s a) = JRT_INVARIANT_NONE" by (simp add: find_None_iff)
    with None xs show ?thesis
      by (simp add: sync_invariant_check_list [OF xs]) (auto simp: good)
  next
    case (Some a)
    then have a: "a \<in> set xs" "mutex_fault n (mutexes s a) \<noteq> JRT_INVARIANT_NONE"
      by (auto simp: find_Some_iff)
    have "\<not> (\<exists>ys. linked_mutexes s ys \<and> (\<forall>a \<in> set ys.
           if m_locked (mutexes s a) = 0
           then m_owner (mutexes s a) = UINT32_MAX \<and> m_recursion (mutexes s a) = 0
           else m_owner (mutexes s a) < n \<and> m_recursion (mutexes s a) \<noteq> 0))"
      using a unique good by metis
    moreover have "sync_invariant_check n s = Some (mutex_fault n (mutexes s a), Some a)"
      using Some by (simp add: sync_invariant_check_list [OF xs])
    ultimately show ?thesis using a(2) by blast
  qed
qed

text \<open>Creating a mutex leaves it free and linked exactly once: a new one is put at the head of
  the list, a known one is reset in place, and in both cases the list of all mutexes keeps its
  other members and their order.\<close>

theorem mutex_create_links:
  assumes "linked_mutexes s xs" and "ob \<noteq> NULL"
  shows "\<exists>s'. JRT_MutexCreateRecursiveStatic ob s = Some s'
    \<and> linked_mutexes s' (if ob \<in> set xs then xs else ob # xs)
    \<and> m_locked (mutexes s' ob) = 0 \<and> m_owner (mutexes s' ob) = UINT32_MAX
    \<and> m_recursion (mutexes s' ob) = 0
    \<and> (\<forall>a. a \<noteq> ob \<longrightarrow> mutexes s' a = mutexes s a)"
proof -
  let ?free = "\<lambda>nxt. \<lparr>m_locked = 0, m_owner = UINT32_MAX, m_recursion = 0, m_next = nxt\<rparr>"
  let ?h = "mutexes s" and ?p = "mutex_list s"
  have xs: "mutex_objects.objects ?h ?p xs" using assms(1) by (simp add: linked_mutexes_objects)
  have linked: "mutex_is_linked_from ?h ob ?p = Some (if ob \<in> set xs then 1 else 0)"
    by (rule mutex_objects.is_linked_objects [OF xs])
  show ?thesis
  proof (cases "ob \<in> set xs")
    case True
    let ?h' = "?h(ob := ?free (m_next (?h ob)))"
    have xs': "mutex_objects.objects ?h' ?p xs"
      using xs mutex_objects.objects_same_next [of ?h' ?h ?p xs] by simp
    then have "mutex_is_linked_from ?h' ob ?p = Some 1"
      using mutex_objects.is_linked_objects [OF xs'] True by simp
    then have "JRT_MutexCreateRecursiveStatic ob s =
        Some (arch_critical_exit (primask s) (set_mutex ob (?free (m_next (?h ob))) (cs_enter s)))"
      using linked True
      by (simp add: JRT_MutexCreateRecursiveStatic_def arch_critical_enter_eq mutex_is_linked_locked_def
          mutex_link_locked_def set_mutex_def)
    with xs' True show ?thesis by (simp add: linked_mutexes_objects set_mutex_def)
  next
    case False
    let ?h' = "?h(ob := ?free NULL)"
    have xs': "mutex_objects.objects ?h' ?p xs"
    proof -
      have "(\<lambda>a. m_next (?h' a)) = (\<lambda>a. m_next (?h a))(ob := NULL)" by auto
      with xs False show ?thesis by (simp add: mutex_objects.objects_def list_at_update)
    qed
    then have "mutex_is_linked_from ?h' ob ?p = Some 0"
      using mutex_objects.is_linked_objects [OF xs'] False by simp
    then have "JRT_MutexCreateRecursiveStatic ob s =
        Some (arch_critical_exit (primask s) ((set_mutex ob (?free ?p) (cs_enter s))\<lparr>mutex_list := ob\<rparr>))"
      using linked False
      by (simp add: JRT_MutexCreateRecursiveStatic_def arch_critical_enter_eq mutex_is_linked_locked_def
          mutex_link_locked_def set_mutex_def)
    moreover have "mutex_objects.objects (?h(ob := ?free ?p)) ob (ob # xs)"
      using mutex_objects.push_objects [OF xs' False assms(2)] by simp
    ultimately show ?thesis using False by (simp add: linked_mutexes_objects set_mutex_def)
  qed
qed

theorem mutex_create_witness:
  "linked_mutexes (reset_state default_config) []
   \<and> (\<exists>s'. JRT_MutexCreateRecursiveStatic 0x100 (reset_state default_config) = Some s'
        \<and> linked_mutexes s' [0x100])"
proof -
  have "linked_mutexes (reset_state default_config) []"
    by (simp add: linked_mutexes_def reset_state_def)
  from mutex_create_links [OF this, of "0x100"] this show ?thesis by auto
qed

section \<open>Ownership and priorities\<close>

text \<open>
  The mutex contract: priorities are exact, nobody waits for a free mutex, a locked mutex is
  owned by an existing task, and the running task is not blocked.
\<close>

definition mutex_inv :: "kstate \<Rightarrow> bool" where
  "mutex_inv s \<longleftrightarrow> exact_priorities s
     \<and> (\<forall>ob. ob \<noteq> NULL \<longrightarrow> m_locked (mutexes s ob) = 0 \<longrightarrow> kernel_waiters ob TASK_WAIT_MUTEX s = {})
     \<and> (\<forall>ob. m_locked (mutexes s ob) \<noteq> 0 \<longrightarrow> m_owner (mutexes s ob) < task_count s)"

definition thread_context :: "kstate \<Rightarrow> bool" where
  "thread_context s \<longleftrightarrow> ipsr s = 0 \<and> current_task s = g_current_task_index s
     \<and> current_task s < task_count s \<and> t_state (tasks s (current_task s)) = JRT_TASK_STATE_RUNNING"

lemma exact_cong:
  assumes "\<And>i. i < n \<Longrightarrow> mutex_waiters_of n ms' ts' i = mutex_waiters_of n ms ts i"
    and "\<And>i. t_priority (ts' i) = t_priority (ts i)" and "\<And>i. t_base_priority (ts' i) = t_base_priority (ts i)"
  shows "exact n ms' ts' = exact n ms ts"
proof -
  have "effective_priority n ms' ts' i = effective_priority n ms ts i" if "i < n" for i
    using assms that by (simp add: effective_priority_demand demand_def)
  with assms show ?thesis by (simp add: exact_def)
qed

lemma kernel_waiters_same_but_priority:
  assumes "same_but_priority (tasks s) (tasks t)" and "task_count t = task_count s"
  shows "kernel_waiters ob k t = kernel_waiters ob k s"
  using assms by (simp add: kernel_waiters_def waiters_def waits_on_def same_but_priority_fields)

lemma waits_for_kernel:
  "j < task_count s \<Longrightarrow> waits_for (mutexes s) (tasks s) j i \<Longrightarrow>
     j \<in> kernel_waiters (t_wait_object (tasks s j)) TASK_WAIT_MUTEX s"
  by (simp add: waits_for_def blocked_on_mutex_def kernel_waiters_def waiters_def waits_on_def)

text \<open>Writing a mutex that has no waiters, or keeping its owner, changes no wait.\<close>

lemma mutex_inv_set_mutex:
  assumes inv: "mutex_inv s" and t: "mutexes t = (mutexes s)(ob := m)" "tasks t = tasks s" "task_count t = task_count s"
    and ob: "ob \<noteq> NULL" and m: "m_locked m \<noteq> 0" "m_owner m < task_count s"
    and keep: "m_locked (mutexes s ob) = 0 \<or> m_owner m = m_owner (mutexes s ob)"
  shows "mutex_inv t"
proof -
  have W: "kernel_waiters a k t = kernel_waiters a k s" for a k
    using t by (simp add: kernel_waiters_def)
  have "mutex_waiters_of (task_count s) (mutexes t) (tasks s) i = mutex_waiters_of (task_count s) (mutexes s) (tasks s) i" for i
  proof (cases "m_locked (mutexes s ob) = 0")
    case True
    then have "kernel_waiters ob TASK_WAIT_MUTEX s = {}" using inv ob by (simp add: mutex_inv_def)
    then have "\<not> (blocked_on_mutex (tasks s j) \<and> t_wait_object (tasks s j) = ob)" if "j < task_count s" for j
      using that by (auto simp: kernel_waiters_def waiters_def waits_on_def blocked_on_mutex_def)
    then show ?thesis using t(1) by (auto simp: mutex_waiters_of_def waits_for_def)
  next
    case False
    with keep m show ?thesis using t(1) by (auto simp: mutex_waiters_of_def waits_for_def)
  qed
  then have "exact (task_count s) (mutexes t) (tasks s)"
    using inv exact_cong [of "task_count s" "mutexes t" "tasks s" "mutexes s" "tasks s"]
    by (simp add: mutex_inv_def exact_priorities_def)
  with inv m t W show ?thesis by (auto simp: mutex_inv_def exact_priorities_def)
qed

lemma mutex_inv_cong:
  "mutexes t = mutexes s \<Longrightarrow> tasks t = tasks s \<Longrightarrow> task_count t = task_count s \<Longrightarrow> mutex_inv t = mutex_inv s"
  by (simp add: mutex_inv_def exact_priorities_def kernel_waiters_def)

lemma running_not_blocked: "thread_context s \<Longrightarrow> \<not> blocked_on_mutex (tasks s (current_task s))"
  by (auto simp: thread_context_def blocked_on_mutex_def)

lemma mutex_inv_contended:
  fixes u :: kstate
  assumes inv: "mutex_inv s" and ctx: "thread_context s"
    and ob: "ob \<noteq> NULL" "m_locked (mutexes s ob) \<noteq> 0"
    and t: "tasks t = (tasks u)(current_task s := blocked_on ob TASK_WAIT_MUTEX d (tasks u (current_task s)))"
      "mutexes t = mutexes s" "task_count t = task_count s"
    and u: "tasks u = inherit_loop (unat (task_count s)) (task_count s) (mutexes s) (m_owner (mutexes s ob))
      (t_priority (tasks s (current_task s))) (tasks s)" "task_count u = task_count s"
  shows "mutex_inv t"
proof -
  have c: "current_task s < task_count s" using ctx by (auto simp: thread_context_def)
  have "exact (task_count s) (mutexes s) (tasks t)"
    using inherit_then_block [of "task_count s" "mutexes s" "tasks s" "current_task s" ob "tasks u" d]
      inv c running_not_blocked [OF ctx] ob u t by (simp add: mutex_inv_def exact_priorities_def)
  then have ex: "exact_priorities t" using t(2,3) by (simp add: exact_priorities_def)
  have "kernel_waiters a TASK_WAIT_MUTEX u = kernel_waiters a TASK_WAIT_MUTEX s" for a
    using u by (intro kernel_waiters_same_but_priority) (simp_all add: same_but_priority_inherit)
  then have sub: "kernel_waiters a TASK_WAIT_MUTEX t \<subseteq> kernel_waiters a TASK_WAIT_MUTEX s" if "a \<noteq> ob" for a
    using kernel_waiters_blocked [of t u "current_task s" ob TASK_WAIT_MUTEX d a TASK_WAIT_MUTEX] t u(2) c that by auto
  have "kernel_waiters a TASK_WAIT_MUTEX t = {}" if "a \<noteq> NULL" "m_locked (mutexes s a) = 0" for a
    using inv sub [of a] ob(2) that by (auto simp: mutex_inv_def)
  moreover have "m_locked (mutexes s a) \<noteq> 0 \<Longrightarrow> m_owner (mutexes s a) < task_count s" for a
    using inv by (simp add: mutex_inv_def)
  ultimately show ?thesis using ex by (simp add: mutex_inv_def t(2,3))
qed

lemma mutex_lock_from_cases:
  assumes ctx: "thread_context s" and r: "mutex_lock_from ob timeout d (g_current_task_index s) s = (r, s')"
  defines "m \<equiv> mutexes s ob" and "c \<equiv> current_task s"
  shows "task_count s' = task_count s \<and> current_task s' = c \<and>
    (if m_locked m = 0 then r = Some 1 \<and> tasks s' = tasks s
       \<and> mutexes s' = (mutexes s)(ob := m\<lparr>m_locked := 1, m_owner := c, m_recursion := 1\<rparr>)
     else if m_owner m = c then r = Some 1 \<and> tasks s' = tasks s
       \<and> mutexes s' = (mutexes s)(ob := m\<lparr>m_recursion := m_recursion m + 1\<rparr>)
     else mutexes s' = mutexes s \<and>
       (if timeout = 0 then r = Some 0 \<and> tasks s' = tasks s
        else let ts = inherit_loop (unat (task_count s)) (task_count s) (mutexes s) (m_owner m)
                (t_priority (tasks s c)) (tasks s)
          in if deadline_passed (g_kernel_ticks s) (dl_start d) (dl_tick d) (dl_forever d)
             then r = Some 0 \<and> tasks s' = ts
             else r = None \<and> tasks s' = ts(c := blocked_on ob TASK_WAIT_MUTEX d (ts c))))"
proof -
  have c: "g_current_task_index s = c" "ipsr s = 0" using ctx by (auto simp: thread_context_def c_def)
  let ?u = "task_inherit_priority (m_owner m) (t_priority (tasks s c)) (cs_enter s)"
  have f: "tasks ?u = inherit_loop (unat (task_count s)) (task_count s) (mutexes s) (m_owner m)
      (t_priority (tasks s c)) (tasks s)" "mutexes ?u = mutexes s" "task_count ?u = task_count s"
    "current_task ?u = c" "g_kernel_ticks ?u = g_kernel_ticks s"
    by (simp_all add: task_inherit_priority_fields c_def)
  note block = task_block_until_locked_fields [of ob TASK_WAIT_MUTEX d "primask s" ?u, unfolded f]
  have step: "mutex_lock_from ob timeout d (g_current_task_index s) s =
      (if m_locked m = 0 then (Some 1, arch_critical_exit (primask s)
          (set_mutex ob (m\<lparr>m_locked := 1, m_owner := c, m_recursion := 1\<rparr>) (cs_enter s)))
       else if m_owner m = c then (Some 1, arch_critical_exit (primask s)
          (set_mutex ob (m\<lparr>m_recursion := m_recursion m + 1\<rparr>) (cs_enter s)))
       else if timeout = 0 then (Some 0, arch_critical_exit (primask s) (cs_enter s))
       else task_block_until_locked ob TASK_WAIT_MUTEX d (primask s) ?u)"
    using c by (simp add: mutex_lock_from_def arch_in_isr_def arch_critical_enter_eq m_def c_def Let_def)
  show ?thesis
  proof (cases "m_locked m = 0 \<or> m_owner m = c \<or> timeout = 0")
    case True
    with r step show ?thesis by (auto simp: set_mutex_def c_def)
  next
    case False
    then have "task_block_until_locked ob TASK_WAIT_MUTEX d (primask s) ?u = (r, s')"
      using r step by simp
    with block have "fst (r, s') = (if deadline_passed (g_kernel_ticks s) (dl_start d) (dl_tick d) (dl_forever d) then Some 0 else None)"
      "tasks s' = (if deadline_passed (g_kernel_ticks s) (dl_start d) (dl_tick d) (dl_forever d) then tasks ?u
         else (tasks ?u)(c := blocked_on ob TASK_WAIT_MUTEX d (tasks ?u c)))"
      "mutexes s' = mutexes s" "task_count s' = task_count s" "current_task s' = c"
      unfolding f by auto
    with False f(1) show ?thesis by (auto simp: Let_def)
  qed
qed


text \<open>
  Task 1 is running at priority 9; task 0 (priority 2) owns the mutex at 0x100.
\<close>

definition contended_state :: kstate where
  "contended_state = (reset_state default_config)\<lparr>task_count := 3, current_task := 1, g_current_task_index := 1,
     mutexes := (\<lambda>_. \<lparr>m_locked = 0, m_owner = UINT32_MAX, m_recursion = 0, m_next = 0\<rparr>)
       (0x100 := \<lparr>m_locked = 1, m_owner = 0, m_recursion = 1, m_next = 0\<rparr>),
     tasks := (tasks (reset_state default_config))
       (0 := zero_task\<lparr>t_priority := 2, t_base_priority := 2\<rparr>,
        1 := zero_task\<lparr>t_state := JRT_TASK_STATE_RUNNING, t_priority := 9, t_base_priority := 9\<rparr>)\<rparr>"

lemma contended_state_simps:
  "task_count contended_state = 3" "current_task contended_state = 1" "g_current_task_index contended_state = 1"
  "ipsr contended_state = 0" "g_kernel_ticks contended_state = 0"
  "t_state (tasks contended_state i) = (if i = 1 then JRT_TASK_STATE_RUNNING else JRT_TASK_STATE_READY)"
  "t_priority (tasks contended_state i) = (if i = 0 then 2 else if i = 1 then 9 else 0)"
  "t_base_priority (tasks contended_state i) = (if i = 0 then 2 else if i = 1 then 9 else 0)"
  "m_locked (mutexes contended_state ob) = (if ob = 0x100 then 1 else 0)"
  "m_owner (mutexes contended_state 0x100) = 0"
  by (simp_all add: contended_state_def reset_state_def zero_task_def)

lemma contended_state_inv: "mutex_inv contended_state" and contended_state_context: "thread_context contended_state"
proof -
  have "\<not> waits_for ms (tasks contended_state) j i" for ms i j
    by (auto simp: waits_for_def blocked_on_mutex_def contended_state_simps)
  then have "effective_priority n ms (tasks contended_state) i = t_base_priority (tasks contended_state i)" for n ms i
    by (simp add: effective_priority_def for_upto_def) (rule fold_invariant [where Q = "\<lambda>_. True"], auto)
  then have "exact_priorities contended_state"
    by (simp add: exact_priorities_def exact_def contended_state_simps)
  then show "mutex_inv contended_state"
    by (auto simp: mutex_inv_def kernel_waiters_def waiters_def waits_on_def contended_state_simps split: if_splits)
  show "thread_context contended_state" by (simp add: thread_context_def contended_state_simps)
qed

text \<open>The check on a list of one locked mutex: it passes when the owner exists, and not otherwise.\<close>

theorem sync_invariant_check_witness:
  "(\<exists>object. sync_invariant_check 3 (contended_state\<lparr>mutex_list := 0x100\<rparr>) = Some (JRT_INVARIANT_NONE, object))
   \<and> (\<nexists>object. sync_invariant_check 0 (contended_state\<lparr>mutex_list := 0x100\<rparr>) = Some (JRT_INVARIANT_NONE, object))"
proof -
  define s where "s = contended_state\<lparr>mutex_list := 0x100\<rparr>"
  have m: "mutexes s 0x100 = \<lparr>m_locked = 1, m_owner = 0, m_recursion = 1, m_next = 0\<rparr>"
    by (simp add: s_def contended_state_def)
  have "linked_mutexes s [0x100]" by (simp add: linked_mutexes_def m) (simp add: s_def)
  then have only: "linked_mutexes s xs \<longleftrightarrow> xs = [0x100]" for xs
    using list_at_unique unfolding linked_mutexes_def by blast
  have "\<exists>object. sync_invariant_check 3 s = Some (JRT_INVARIANT_NONE, object)"
    using sync_invariant_check_exact [of 3 s] by (auto simp: only m)
  moreover have "\<nexists>object. sync_invariant_check 0 s = Some (JRT_INVARIANT_NONE, object)"
    using sync_invariant_check_exact [of 0 s] by (auto simp: only m)
  ultimately show ?thesis by (simp add: s_def)
qed



section \<open>Unlock\<close>

lemma settle_unblocked:
  assumes k: "\<not> blocked_on_mutex (ts k)" and others: "\<forall>i<n. i \<notin> insert k U \<longrightarrow> t_priority (ts i) = effective_priority n ms ts i"
    and us: "us = set_priority k (effective_priority n ms ts k) ts"
  shows "\<forall>i<n. i \<notin> U \<longrightarrow> t_priority (us i) = effective_priority n ms us i"
proof -
  have "k \<notin> mutex_waiters_of n ms ts i" for i
    using k by (simp add: mutex_waiters_of_def waits_for_def)
  then have "effective_priority n ms us i = effective_priority n ms ts i" for i
    unfolding us effective_priority_demand by (rule demand_set_priority_other)
  with others us show ?thesis by auto
qed

lemma mutex_release_fields:
  fixes s ob
  defines "o' \<equiv> m_owner (mutexes s ob)" and "W \<equiv> kernel_waiters ob TASK_WAIT_MUTEX s"
    and "w \<equiv> best_waiter ob TASK_WAIT_MUTEX s" and "n \<equiv> task_count s"
    and "ms' \<equiv> (mutexes s)(ob := (if kernel_waiters ob TASK_WAIT_MUTEX s \<noteq> {}
       then (mutexes s ob)\<lparr>m_owner := best_waiter ob TASK_WAIT_MUTEX s, m_locked := 1, m_recursion := 1\<rparr>
       else (mutexes s ob)\<lparr>m_owner := UINT32_MAX, m_locked := 0, m_recursion := 0\<rparr>))"
  assumes o': "m_owner (mutexes s ob) < task_count s"
  shows "mutexes (mutex_release ob s) = ms'" and "task_count (mutex_release ob s) = n"
    and "current_task (mutex_release ob s) = current_task s"
    and "tasks (mutex_release ob s) =
      (let ts1 = woken_tasks ob TASK_WAIT_MUTEX s;
           ts2 = set_priority o' (effective_priority n ms' ts1 o') ts1
       in if W = {} then ts2 else set_priority w (effective_priority n ms' ts2 w) ts2)"
  using o' best_waiter_below [of ob TASK_WAIT_MUTEX s]
  by (simp_all add: mutex_release_def case_prod_beta task_wake_get_id_fields task_restore_priority_fields
      set_mutex_def Let_def o'_def W_def w_def n_def ms'_def)

lemma unlock_waiters:
  assumes ob: "ob \<noteq> NULL" "m_locked (mutexes s ob) \<noteq> 0"
    and ms': "\<And>a. a \<noteq> ob \<Longrightarrow> ms' a = mutexes s a"
      "if kernel_waiters ob TASK_WAIT_MUTEX s = {} then m_locked (ms' ob) = 0
       else m_locked (ms' ob) \<noteq> 0 \<and> m_owner (ms' ob) = best_waiter ob TASK_WAIT_MUTEX s"
    and i: "i \<noteq> m_owner (mutexes s ob)" "kernel_waiters ob TASK_WAIT_MUTEX s \<noteq> {} \<Longrightarrow> i \<noteq> best_waiter ob TASK_WAIT_MUTEX s"
  shows "mutex_waiters_of (task_count s) ms' (woken_tasks ob TASK_WAIT_MUTEX s) i =
    mutex_waiters_of (task_count s) (mutexes s) (tasks s) i"
proof -
  have "waits_for ms' (woken_tasks ob TASK_WAIT_MUTEX s) j i \<longleftrightarrow> waits_for (mutexes s) (tasks s) j i"
    if j: "j < task_count s" for j
  proof (cases "blocked_on_mutex (tasks s j) \<and> t_wait_object (tasks s j) = ob")
    case True
    then have jw: "j \<in> kernel_waiters ob TASK_WAIT_MUTEX s"
      using j by (auto simp: kernel_waiters_def waiters_def waits_on_def blocked_on_mutex_def)
    then have ne: "kernel_waiters ob TASK_WAIT_MUTEX s \<noteq> {}" by auto
    have "\<not> waits_for (mutexes s) (tasks s) j i" using True i(1) by (simp add: waits_for_def)
    moreover have "\<not> waits_for ms' (woken_tasks ob TASK_WAIT_MUTEX s) j i"
      using True ms'(2) ne i(2) by (auto simp: waits_for_def woken_tasks_def blocked_on_mutex_def)
    ultimately show ?thesis by simp
  next
    case False
    have "j \<noteq> best_waiter ob TASK_WAIT_MUTEX s" if "kernel_waiters ob TASK_WAIT_MUTEX s \<noteq> {}"
      using best_waiter_in [OF that] False ob(1)
      by (auto simp: kernel_waiters_def waiters_def waits_on_def blocked_on_mutex_def)
    then have "woken_tasks ob TASK_WAIT_MUTEX s j = tasks s j" by (simp add: woken_tasks_def)
    with False ms'(1) show ?thesis by (auto simp: waits_for_def)
  qed
  then show ?thesis by (auto simp: mutex_waiters_of_def)
qed

lemma mutex_release_exact:
  assumes inv: "mutex_inv s" and ob: "ob \<noteq> NULL" "m_locked (mutexes s ob) \<noteq> 0"
    and run: "\<not> blocked_on_mutex (tasks s (m_owner (mutexes s ob)))"
  shows "exact_priorities (mutex_release ob s)"
proof -
  let ?o = "m_owner (mutexes s ob)" and ?n = "task_count s"
  let ?W = "kernel_waiters ob TASK_WAIT_MUTEX s" and ?w = "best_waiter ob TASK_WAIT_MUTEX s"
  let ?ts1 = "woken_tasks ob TASK_WAIT_MUTEX s"
  let ?ms = "mutexes (mutex_release ob s)"
  have o: "?o < ?n" using inv ob by (simp add: mutex_inv_def)
  note f = mutex_release_fields [OF o]
  have W: "mutex_waiters_of ?n ?ms ?ts1 i = mutex_waiters_of ?n (mutexes s) (tasks s) i"
    if "i \<noteq> ?o" "?W \<noteq> {} \<Longrightarrow> i \<noteq> ?w" for i
    by (rule unlock_waiters [OF ob]) (use that f(1) in auto)
  have prio: "t_priority (?ts1 i) = t_priority (tasks s i)"
    "t_base_priority (?ts1 i) = t_base_priority (tasks s i)" for i
    by (simp_all add: woken_tasks_def)
  have start: "t_priority (?ts1 i) = effective_priority ?n ?ms ?ts1 i"
    if "i < ?n" "i \<noteq> ?o" "?W \<noteq> {} \<Longrightarrow> i \<noteq> ?w" for i
  proof -
    have "effective_priority ?n ?ms ?ts1 i = effective_priority ?n (mutexes s) (tasks s) i"
      using W [OF that(2,3)] prio by (simp add: effective_priority_demand demand_def)
    with inv that(1) prio show ?thesis by (simp add: mutex_inv_def exact_priorities_def exact_def)
  qed
  have run1: "\<not> blocked_on_mutex (?ts1 ?o)" using run by (simp add: woken_tasks_def blocked_on_mutex_def)
  let ?ts2 = "set_priority ?o (effective_priority ?n ?ms ?ts1 ?o) ?ts1"
  show ?thesis
  proof (cases "?W = {}")
    case True
    from settle_unblocked [where ts = ?ts1 and k = ?o and n = ?n and U = "{}" and ms = ?ms, OF run1 _ refl] start True
    have "\<forall>i<?n. i \<notin> {} \<longrightarrow> t_priority (?ts2 i) = effective_priority ?n ?ms ?ts2 i" by blast
    with True f show ?thesis by (simp add: exact_priorities_def exact_def Let_def)
  next
    case False
    from settle_unblocked [where ts = ?ts1 and k = ?o and n = ?n and U = "{?w}" and ms = ?ms, OF run1 _ refl] start
    have two: "\<forall>i<?n. i \<notin> {?w} \<longrightarrow> t_priority (?ts2 i) = effective_priority ?n ?ms ?ts2 i" by blast
    have run2: "\<not> blocked_on_mutex (?ts2 ?w)" using False by (simp add: woken_tasks_def blocked_on_mutex_def)
    let ?ts3 = "set_priority ?w (effective_priority ?n ?ms ?ts2 ?w) ?ts2"
    from settle_unblocked [where ts = ?ts2 and k = ?w and n = ?n and U = "{}" and ms = ?ms, OF run2 _ refl] two
    have "\<forall>i<?n. i \<notin> {} \<longrightarrow> t_priority (?ts3 i) = effective_priority ?n ?ms ?ts3 i" by blast
    with False f show ?thesis by (simp add: exact_priorities_def exact_def Let_def)
  qed
qed

lemma mutex_release_inv:
  assumes inv: "mutex_inv s" and ob: "ob \<noteq> NULL" "m_locked (mutexes s ob) \<noteq> 0"
    and run: "\<not> blocked_on_mutex (tasks s (m_owner (mutexes s ob)))"
  shows "mutex_inv (mutex_release ob s)"
proof -
  let ?W = "kernel_waiters ob TASK_WAIT_MUTEX s"
  let ?t = "mutex_release ob s"
  have o: "m_owner (mutexes s ob) < task_count s" using inv ob by (simp add: mutex_inv_def)
  note f = mutex_release_fields [OF o]
  have same: "t_state (tasks ?t i) = t_state (woken_tasks ob TASK_WAIT_MUTEX s i)"
    "t_wait_kind (tasks ?t i) = t_wait_kind (woken_tasks ob TASK_WAIT_MUTEX s i)"
    "t_wait_object (tasks ?t i) = t_wait_object (woken_tasks ob TASK_WAIT_MUTEX s i)" for i
    by (simp_all add: f(4) Let_def)
  have W: "kernel_waiters a TASK_WAIT_MUTEX ?t = kernel_waiters a TASK_WAIT_MUTEX s
      - (if ?W = {} then {} else {best_waiter ob TASK_WAIT_MUTEX s})" for a
    by (auto simp: kernel_waiters_def waiters_def waits_on_def same f(2) woken_tasks_def)
  have "kernel_waiters a TASK_WAIT_MUTEX ?t = {}" if "a \<noteq> NULL" "m_locked (mutexes ?t a) = 0" for a
  proof (cases "a = ob")
    case True
    with that(2) have "?W = {}" by (auto simp: f(1) split: if_splits)
    with True W show ?thesis by simp
  next
    case False
    with that have "m_locked (mutexes s a) = 0" by (simp add: f(1))
    with inv that(1) W show ?thesis by (simp add: mutex_inv_def)
  qed
  moreover have "m_owner (mutexes ?t a) < task_count ?t" if "m_locked (mutexes ?t a) \<noteq> 0" for a
    using inv that best_waiter_below(1) [of ob TASK_WAIT_MUTEX s]
    by (auto simp: f mutex_inv_def split: if_splits)
  ultimately show ?thesis
    using mutex_release_exact [OF assms] by (simp add: mutex_inv_def)
qed

lemma mutex_unlock_cases:
  assumes ctx: "thread_context s" and r: "JRT_MutexUnlock ob s = (r, s')"
  defines "m \<equiv> mutexes s ob" and "c \<equiv> current_task s"
  shows "if m_locked m = 0 \<or> m_owner m \<noteq> c then r = 0 \<and> mutexes s' = mutexes s \<and> tasks s' = tasks s \<and> task_count s' = task_count s
    else if m_recursion m > 1 then r = 1 \<and> mutexes s' = (mutexes s)(ob := m\<lparr>m_recursion := m_recursion m - 1\<rparr>)
      \<and> tasks s' = tasks s \<and> task_count s' = task_count s
    else r = 1 \<and> mutexes s' = mutexes (mutex_release ob (cs_enter s))
      \<and> tasks s' = tasks (mutex_release ob (cs_enter s)) \<and> task_count s' = task_count (mutex_release ob (cs_enter s))"
proof -
  have c: "g_current_task_index s = c" "ipsr s = 0" using ctx by (auto simp: thread_context_def c_def)
  have "JRT_MutexUnlock ob s =
      (if m_locked m = 0 \<or> m_owner m \<noteq> c then (0, arch_critical_exit (primask s) (cs_enter s))
       else if m_recursion m > 1 then (1, arch_critical_exit (primask s)
          (set_mutex ob (m\<lparr>m_recursion := m_recursion m - 1\<rparr>) (cs_enter s)))
       else (1, arch_critical_exit (primask s) (mutex_release ob (cs_enter s))))"
    using c by (simp add: JRT_MutexUnlock_def arch_in_isr_def arch_critical_enter_eq m_def Let_def)
  with r show ?thesis by (auto simp: set_mutex_def split: if_splits)
qed

text \<open>C16: unlocking keeps the mutex contract, and the last unlock hands the mutex over: if tasks wait,
  the best of them becomes the owner with recursion 1 and is READY; if nobody waits the mutex is
  free. All priorities are exact afterwards, so the caller drops the priority it had inherited
  through this mutex and the new owner inherits from the remaining waiters.\<close>

theorem mutex_unlock_invariant:
  assumes "mutex_inv s" and "thread_context s" and "ob \<noteq> NULL"
    and "m_locked (mutexes s ob) \<noteq> 0" and "m_owner (mutexes s ob) = current_task s"
    and "JRT_MutexUnlock ob s = (r, s')"
  shows "r = 1 \<and> mutex_inv s'
    \<and> (m_recursion (mutexes s ob) \<le> 1 \<longrightarrow>
        (if kernel_waiters ob TASK_WAIT_MUTEX s = {} then m_locked (mutexes s' ob) = 0
         else m_locked (mutexes s' ob) = 1 \<and> m_recursion (mutexes s' ob) = 1
           \<and> m_owner (mutexes s' ob) = best_waiter ob TASK_WAIT_MUTEX s
           \<and> t_state (tasks s' (best_waiter ob TASK_WAIT_MUTEX s)) = JRT_TASK_STATE_READY))
    \<and> (m_recursion (mutexes s ob) > 1 \<longrightarrow> m_owner (mutexes s' ob) = current_task s
         \<and> m_recursion (mutexes s' ob) = m_recursion (mutexes s ob) - 1)"
proof -
  note step = mutex_unlock_cases [OF assms(2,6)]
  have c: "current_task s < task_count s" using assms(2) by (auto simp: thread_context_def)
  show ?thesis
  proof (cases "m_recursion (mutexes s ob) > 1")
    case True
    then have "\<not> m_recursion (mutexes s ob) \<le> 1" by (simp add: not_le)
    with True step assms(3-5) c mutex_inv_set_mutex [OF assms(1), of s' ob] show ?thesis by simp
  next
    case False
    let ?e = "cs_enter s"
    have e: "mutex_inv ?e" using assms(1) mutex_inv_cong [of ?e s] by simp
    have run: "\<not> blocked_on_mutex (tasks ?e (m_owner (mutexes ?e ob)))"
      using running_not_blocked [OF assms(2)] assms(5) by simp
    have "mutex_inv (mutex_release ob ?e)" by (rule mutex_release_inv [OF e assms(3) _ run]) (simp add: assms(4))
    moreover have f: "mutexes s' = mutexes (mutex_release ob ?e)" "tasks s' = tasks (mutex_release ob ?e)"
      "task_count s' = task_count (mutex_release ob ?e)" "r = 1"
      using step assms(4,5) False by auto
    ultimately have inv': "mutex_inv s'" using mutex_inv_cong [of s' "mutex_release ob ?e"] by simp
    have "m_owner (mutexes ?e ob) < task_count ?e" using assms(5) c by simp
    note rf = mutex_release_fields [OF this]
    show ?thesis
      using False inv' f rf(1,4) by (auto simp: Let_def woken_tasks_def)
  qed
qed

theorem mutex_unlock_invariant_witness:
  "\<exists>s s'. s = contended_state\<lparr>current_task := 0, g_current_task_index := 0,
       tasks := (tasks contended_state)(0 := (tasks contended_state 0)\<lparr>t_state := JRT_TASK_STATE_RUNNING\<rparr>)\<rparr>
   \<and> mutex_inv s \<and> thread_context s \<and> JRT_MutexUnlock 0x100 s = (1, s') \<and> mutex_inv s'"
proof -
  let ?ts = "(tasks contended_state)(0 := (tasks contended_state 0)\<lparr>t_state := JRT_TASK_STATE_RUNNING\<rparr>)"
  let ?s = "contended_state\<lparr>current_task := 0, g_current_task_index := 0, tasks := ?ts\<rparr>"
  have "mutex_waiters_of 3 ms ?ts i = mutex_waiters_of 3 ms (tasks contended_state) i" for ms i
    by (auto simp: mutex_waiters_of_def waits_for_def blocked_on_mutex_def contended_state_simps)
  then have "exact_priorities ?s"
    using contended_state_inv exact_cong [of 3 "mutexes contended_state" ?ts "mutexes contended_state" "tasks contended_state"]
    by (simp add: mutex_inv_def exact_priorities_def contended_state_simps)
  then have inv: "mutex_inv ?s"
    by (auto simp: mutex_inv_def kernel_waiters_def waiters_def waits_on_def contended_state_simps split: if_splits)
  have ctx: "thread_context ?s" by (simp add: thread_context_def contended_state_simps)
  obtain r s' where u: "JRT_MutexUnlock 0x100 ?s = (r, s')" by fastforce
  with mutex_unlock_invariant [OF inv ctx _ _ _ u] have "r = 1 \<and> mutex_inv s'"
    by (simp add: contended_state_simps)
  with inv ctx u show ?thesis by blast
qed

end
