(* ===== verification/JRT_Queue.thy ===== *)
theory JRT_Queue
  imports JRT_Semaphore JRT_Priority JRT_Scheduler
begin

text \<open>
  Bounded queues (\<open>kernel/sync.c\<close>, lines 270 to 438): a ring buffer of fixed-size items with
  reservations, so that an item or a slot promised to a woken task cannot be taken by another.
  The first part is the code; then the ring as a bounded FIFO; then the reservation invariant.
\<close>

section \<open>Operations\<close>

definition JRT_QueueCreateStatic :: "addr \<Rightarrow> addr \<Rightarrow> u32 \<Rightarrow> u32 \<Rightarrow> kstate \<Rightarrow> kstate" where
  "JRT_QueueCreateStatic queue storage capacity item_size s =
    (let (saved_primask, s) = arch_critical_enter s;
         s = s\<lparr>queues := (queues s)(queue := \<lparr>q_storage = storage, q_capacity = capacity,
               q_item_size = item_size, q_head = 0, q_tail = 0, q_count = 0,
               q_send_reservations = 0, q_receive_reservations = 0\<rparr>)\<rparr>
     in arch_critical_exit saved_primask s)"

text \<open>\<open>for (index = 0U; index < n; index++) destination[index] = source[index];\<close>\<close>

definition copy_bytes :: "addr \<Rightarrow> addr \<Rightarrow> u32 \<Rightarrow> (addr \<Rightarrow> u8) \<Rightarrow> addr \<Rightarrow> u8" where
  "copy_bytes destination source n m =
     for_upto n (\<lambda>index m. m(destination + index := m (source + index))) m"

definition queue_send_ready :: "JRT_Queue_t \<Rightarrow> u32 \<Rightarrow> bool" where
  "queue_send_ready q reserved \<longleftrightarrow> q_capacity q \<noteq> 0 \<and> q_item_size q \<noteq> 0
     \<and> (reserved \<noteq> 0 \<or> q_count q + q_send_reservations q < q_capacity q)"

definition queue_receive_ready :: "JRT_Queue_t \<Rightarrow> u32 \<Rightarrow> bool" where
  "queue_receive_ready q reserved \<longleftrightarrow> q_item_size q \<noteq> 0
     \<and> (reserved \<noteq> 0 \<or> q_count q > q_receive_reservations q)"

definition set_queue :: "addr \<Rightarrow> JRT_Queue_t \<Rightarrow> kstate \<Rightarrow> kstate" where
  "set_queue queue q s = s\<lparr>queues := (queues s)(queue := q)\<rparr>"

text \<open>Storing an item at the head, and taking the one at the tail.\<close>

definition queue_copy_in :: "addr \<Rightarrow> addr \<Rightarrow> u32 \<Rightarrow> kstate \<Rightarrow> kstate" where
  "queue_copy_in queue item reserved s =
    (let q = queues s queue;
         s = s\<lparr>mem8 := copy_bytes (q_storage q + q_head q * q_item_size q) item (q_item_size q) (mem8 s)\<rparr>;
         q = (if reserved \<noteq> 0 then q\<lparr>q_send_reservations := q_send_reservations q - 1\<rparr> else q);
         q = q\<lparr>q_head := (q_head q + 1) mod q_capacity q\<rparr>;
         q = q\<lparr>q_count := q_count q + 1\<rparr>
     in set_queue queue q s)"

definition queue_copy_out :: "addr \<Rightarrow> addr \<Rightarrow> u32 \<Rightarrow> kstate \<Rightarrow> kstate" where
  "queue_copy_out queue item reserved s =
    (let q = queues s queue;
         s = s\<lparr>mem8 := copy_bytes item (q_storage q + q_tail q * q_item_size q) (q_item_size q) (mem8 s)\<rparr>;
         q = (if reserved \<noteq> 0 then q\<lparr>q_receive_reservations := q_receive_reservations q - 1\<rparr> else q);
         q = q\<lparr>q_tail := (q_tail q + 1) mod q_capacity q\<rparr>;
         q = q\<lparr>q_count := q_count q - 1\<rparr>
     in set_queue queue q s)"

text \<open>Waking a task of the other side and reserving for it.\<close>

definition wake_receiver :: "addr \<Rightarrow> kstate \<Rightarrow> kstate" where
  "wake_receiver queue s =
    (let (woken, s) = task_wake queue TASK_WAIT_QUEUE_RECEIVE s
     in if woken \<noteq> 0
        then set_queue queue ((queues s queue)\<lparr>q_receive_reservations := q_receive_reservations (queues s queue) + 1\<rparr>) s
        else s)"

definition wake_sender :: "addr \<Rightarrow> kstate \<Rightarrow> kstate" where
  "wake_sender queue s =
    (let (woken, s) = task_wake queue TASK_WAIT_QUEUE_SEND s
     in if woken \<noteq> 0
        then set_queue queue ((queues s queue)\<lparr>q_send_reservations := q_send_reservations (queues s queue) + 1\<rparr>) s
        else s)"

text \<open>
  One iteration of the loops. \<open>None\<close>: the caller is blocked; when it runs again,
  \<open>queue_send_resume\<close> and \<open>queue_receive_resume\<close> continue with what the wait returned.
\<close>

definition queue_send_pass ::
  "addr \<Rightarrow> addr \<Rightarrow> u32 \<Rightarrow> task_wait_deadline_t \<Rightarrow> u32 \<Rightarrow> kstate \<Rightarrow> int blocking" where
  "queue_send_pass queue item timeout_ticks deadline reserved s =
    (let (saved_primask, s) = arch_critical_enter s
     in if queue_send_ready (queues s queue) reserved
        then (Some 1, arch_critical_exit saved_primask (wake_receiver queue (queue_copy_in queue item reserved s)))
        else if timeout_ticks = 0 then (Some 0, arch_critical_exit saved_primask s)
        else task_block_until_locked queue TASK_WAIT_QUEUE_SEND deadline saved_primask s)"

definition queue_receive_pass ::
  "addr \<Rightarrow> addr \<Rightarrow> u32 \<Rightarrow> task_wait_deadline_t \<Rightarrow> u32 \<Rightarrow> kstate \<Rightarrow> int blocking" where
  "queue_receive_pass queue item timeout_ticks deadline reserved s =
    (let (saved_primask, s) = arch_critical_enter s
     in if queue_receive_ready (queues s queue) reserved
        then (Some 1, arch_critical_exit saved_primask (wake_sender queue (queue_copy_out queue item reserved s)))
        else if timeout_ticks = 0 then (Some 0, arch_critical_exit saved_primask s)
        else task_block_until_locked queue TASK_WAIT_QUEUE_RECEIVE deadline saved_primask s)"

definition queue_send_resume ::
  "addr \<Rightarrow> addr \<Rightarrow> u32 \<Rightarrow> task_wait_deadline_t \<Rightarrow> kstate \<Rightarrow> int blocking" where
  "queue_send_resume queue item timeout_ticks deadline s =
    (if task_block_resume s = 0 then (Some 0, s)
     else queue_send_pass queue item timeout_ticks deadline 1 s)"

definition queue_receive_resume ::
  "addr \<Rightarrow> addr \<Rightarrow> u32 \<Rightarrow> task_wait_deadline_t \<Rightarrow> kstate \<Rightarrow> int blocking" where
  "queue_receive_resume queue item timeout_ticks deadline s =
    (if task_block_resume s = 0 then (Some 0, s)
     else queue_receive_pass queue item timeout_ticks deadline 1 s)"

definition JRT_QueueSend :: "addr \<Rightarrow> addr \<Rightarrow> u32 \<Rightarrow> kstate \<Rightarrow> int blocking" where
  "JRT_QueueSend queue item timeout_ticks s =
    (let (deadline, s) = task_wait_deadline timeout_ticks s
     in if arch_in_isr s \<noteq> 0
        then (Some 0, count_context_misuse
               (\<lambda>s. s\<lparr>g_sync_misuse_queue_send := g_sync_misuse_queue_send s + 1\<rparr>) s)
        else queue_send_pass queue item timeout_ticks deadline 0 s)"

definition JRT_QueueReceive :: "addr \<Rightarrow> addr \<Rightarrow> u32 \<Rightarrow> kstate \<Rightarrow> int blocking" where
  "JRT_QueueReceive queue item timeout_ticks s =
    (let (deadline, s) = task_wait_deadline timeout_ticks s
     in if arch_in_isr s \<noteq> 0
        then (Some 0, count_context_misuse
               (\<lambda>s. s\<lparr>g_sync_misuse_queue_receive := g_sync_misuse_queue_receive s + 1\<rparr>) s)
        else queue_receive_pass queue item timeout_ticks deadline 0 s)"

definition JRT_QueueSendFromISR :: "addr \<Rightarrow> addr \<Rightarrow> kstate \<Rightarrow> int \<times> kstate" where
  "JRT_QueueSendFromISR queue item s =
    (if arch_in_isr s = 0
     then (0, count_context_misuse
            (\<lambda>s. s\<lparr>g_sync_misuse_queue_send_from_isr := g_sync_misuse_queue_send_from_isr s + 1\<rparr>) s)
     else
       let (saved_primask, s) = arch_critical_enter s;
           s = s\<lparr>g_isr_queue_send_attempted := g_isr_queue_send_attempted s + 1\<rparr>
       in if queue_send_ready (queues s queue) 0
          then
            let s = queue_copy_in queue item 0 s;
                s = s\<lparr>g_isr_queue_send_accepted := g_isr_queue_send_accepted s + 1\<rparr>;
                s = (if q_count (queues s queue) > g_isr_queue_count_high_water s
                     then s\<lparr>g_isr_queue_count_high_water := q_count (queues s queue)\<rparr> else s);
                s = wake_receiver queue s;
                s = arch_critical_exit saved_primask s
            in (1, arch_request_switch s)
          else
            let s = s\<lparr>g_isr_queue_send_dropped := g_isr_queue_send_dropped s + 1\<rparr>
            in (0, arch_critical_exit saved_primask s))"

section \<open>Copying\<close>

definition store_bytes :: "addr \<Rightarrow> u32 \<Rightarrow> (u32 \<Rightarrow> u8) \<Rightarrow> (addr \<Rightarrow> u8) \<Rightarrow> addr \<Rightarrow> u8" where
  "store_bytes dst n f m = (\<lambda>p. if p - dst < n then f (p - dst) else m p)"

definition disjoint_blocks :: "addr \<Rightarrow> addr \<Rightarrow> u32 \<Rightarrow> bool" where
  "disjoint_blocks a b n \<longleftrightarrow> (\<forall>i<n. \<forall>j<n. a + i \<noteq> b + j)"

lemma copy_bytes_disjoint:
  assumes "disjoint_blocks src dst n"
  shows "copy_bytes dst src n m = store_bytes dst n (\<lambda>i. m (src + i)) m"
proof -
  let ?P = "\<lambda>k m'. m' = (\<lambda>p. if unat (p - dst) < k then m (src + (p - dst)) else m p)"
  have "?P (unat n) (copy_bytes dst src n m)"
    unfolding copy_bytes_def
  proof (rule for_upto_induct [where P = ?P])
    show "?P 0 m" by simp
  next
    fix k :: nat and m'
    assume k: "word_of_nat k < n" "unat (word_of_nat k :: u32) = k" and IH: "?P k m'"
    let ?i = "word_of_nat k :: u32"
    have "\<not> unat (src + ?i - dst) < k"
    proof
      assume "unat (src + ?i - dst) < k"
      with k have "src + ?i - dst < n" by (simp add: word_less_unat)
      with assms k(1) have "src + ?i \<noteq> dst + (src + ?i - dst)" unfolding disjoint_blocks_def by blast
      then show False by simp
    qed
    then have src: "m' (src + ?i) = m (src + ?i)" by (simp add: IH)
    have split: "unat (p - dst) < Suc k \<longleftrightarrow> unat (p - dst) < k \<or> p = dst + ?i" for p
    proof -
      have "unat (p - dst) = k \<longleftrightarrow> p - dst = ?i" by (simp only: word_eq_unat k(2))
      also have "\<dots> \<longleftrightarrow> p = dst + ?i" by (auto simp: algebra_simps)
      finally show ?thesis by (auto simp: less_Suc_eq)
    qed
    show "?P (Suc k) (m'(dst + ?i := m' (src + ?i)))"
      unfolding split src by (auto simp: IH fun_eq_iff)
  qed
  then show ?thesis by (simp add: store_bytes_def word_less_unat)
qed

section \<open>The ring as a bounded FIFO\<close>

text \<open>
  The interface a client of a queue uses: a state with a list of contents, a put that appends and
  a get that removes the front, under an invariant.
\<close>

locale bounded_fifo =
  fixes inv :: "'s \<Rightarrow> bool" and item_ok :: "'s \<Rightarrow> 'x \<Rightarrow> bool"
    and contents :: "'s \<Rightarrow> 'x list" and capacity :: "'s \<Rightarrow> nat"
    and put :: "'x \<Rightarrow> 's \<Rightarrow> 's" and get :: "'s \<Rightarrow> 'x" and drop_front :: "'s \<Rightarrow> 's"
  assumes bounded: "inv s \<Longrightarrow> length (contents s) \<le> capacity s"
    and put_inv: "inv s \<Longrightarrow> length (contents s) < capacity s \<Longrightarrow> item_ok s x \<Longrightarrow> inv (put x s)"
    and put_contents: "inv s \<Longrightarrow> length (contents s) < capacity s \<Longrightarrow> item_ok s x \<Longrightarrow> contents (put x s) = contents s @ [x]"
    and put_capacity: "capacity (put x s) = capacity s" and put_ok: "item_ok (put x s) y = item_ok s y"
    and get_front: "inv s \<Longrightarrow> contents s = x # xs \<Longrightarrow> get s = x"
    and drop_inv: "inv s \<Longrightarrow> contents s \<noteq> [] \<Longrightarrow> inv (drop_front s)"
    and drop_contents: "inv s \<Longrightarrow> contents s = x # xs \<Longrightarrow> contents (drop_front s) = xs"
    and drop_capacity: "capacity (drop_front s) = capacity s"
begin

fun get_many :: "nat \<Rightarrow> 's \<Rightarrow> 'x list \<times> 's" where
  "get_many 0 s = ([], s)"
| "get_many (Suc n) s = (let (xs, t) = get_many n (drop_front s) in (get s # xs, t))"

lemma put_many:
  "inv s \<Longrightarrow> length (contents s) + length xs \<le> capacity s \<Longrightarrow> \<forall>x\<in>set xs. item_ok s x \<Longrightarrow>
    inv (fold put xs s) \<and> contents (fold put xs s) = contents s @ xs"
proof (induction xs arbitrary: s)
  case (Cons x xs)
  then have "inv (put x s)" "contents (put x s) = contents s @ [x]"
    by (simp_all add: put_inv put_contents)
  with Cons show ?case by (simp add: put_capacity put_ok)
qed simp

lemma get_many_contents:
  "inv s \<Longrightarrow> n \<le> length (contents s) \<Longrightarrow>
    fst (get_many n s) = take n (contents s) \<and> inv (snd (get_many n s))
    \<and> contents (snd (get_many n s)) = drop n (contents s)"
proof (induction n arbitrary: s)
  case (Suc n)
  then obtain x xs where xs: "contents s = x # xs" by (cases "contents s") auto
  with Suc.prems have "inv (drop_front s)" "contents (drop_front s) = xs" "get s = x"
    by (simp_all add: drop_inv drop_contents get_front)
  with Suc.IH [of "drop_front s"] Suc.prems xs show ?case by (simp add: case_prod_beta)
qed simp

text \<open>What goes in comes out, in order.\<close>

lemma fifo_order:
  assumes "inv s" and "contents s = []" and "length xs \<le> capacity s" and "\<forall>x\<in>set xs. item_ok s x"
  shows "fst (get_many (length xs) (fold put xs s)) = xs"
  using put_many [of s xs] get_many_contents [of "fold put xs s" "length xs"] assms by simp

end

text \<open>The ring: a queue and the memory. An item is a function of the byte index, 0 past its size.\<close>

type_synonym ring = "JRT_Queue_t \<times> (addr \<Rightarrow> u8)"

definition slot_addr :: "JRT_Queue_t \<Rightarrow> u32 \<Rightarrow> addr" where
  "slot_addr q k = q_storage q + k * q_item_size q"

definition read_item :: "(addr \<Rightarrow> u8) \<Rightarrow> addr \<Rightarrow> u32 \<Rightarrow> u32 \<Rightarrow> u8" where
  "read_item m a n = (\<lambda>i. if i < n then m (a + i) else 0)"

definition ring_slot :: "JRT_Queue_t \<Rightarrow> nat \<Rightarrow> u32" where
  "ring_slot q j = word_of_nat ((unat (q_tail q) + j) mod unat (q_capacity q))"

definition ring_contents :: "ring \<Rightarrow> (u32 \<Rightarrow> u8) list" where
  "ring_contents r = (let (q, m) = r in
     map (\<lambda>j. read_item m (slot_addr q (ring_slot q j)) (q_item_size q)) [0..<unat (q_count q)])"

text \<open>
  The shape of a ring in use: indices in range, the head where the count says, and storage that
  fits the address space.
\<close>

definition ring_ok :: "JRT_Queue_t \<Rightarrow> bool" where
  "ring_ok q \<longleftrightarrow> q_capacity q \<noteq> 0 \<and> q_item_size q \<noteq> 0
     \<and> unat (q_capacity q) * unat (q_item_size q) \<le> 2 ^ 32
     \<and> q_tail q < q_capacity q \<and> q_count q \<le> q_capacity q
     \<and> q_head q = ring_slot q (unat (q_count q))"

definition ring_put :: "(u32 \<Rightarrow> u8) \<Rightarrow> ring \<Rightarrow> ring" where
  "ring_put x r = (let (q, m) = r in
     (q\<lparr>q_head := (q_head q + 1) mod q_capacity q, q_count := q_count q + 1\<rparr>,
      store_bytes (slot_addr q (q_head q)) (q_item_size q) x m))"

definition ring_get :: "ring \<Rightarrow> u32 \<Rightarrow> u8" where
  "ring_get r = (let (q, m) = r in read_item m (slot_addr q (q_tail q)) (q_item_size q))"

definition ring_drop :: "ring \<Rightarrow> ring" where
  "ring_drop r = (let (q, m) = r in
     (q\<lparr>q_tail := (q_tail q + 1) mod q_capacity q, q_count := q_count q - 1\<rparr>, m))"

lemma unat_ring_slot:
  assumes "q_capacity q \<noteq> 0"
  shows "unat (ring_slot q j) = (unat (q_tail q) + j) mod unat (q_capacity q)"
proof -
  have "(unat (q_tail q) + j) mod unat (q_capacity q) < unat (q_capacity q)"
    using assms by (simp add: word_neq_0_unat)
  also have "\<dots> < 4294967296" by (rule unat_lt32)
  finally show ?thesis by (simp add: ring_slot_def unat_of_nat32)
qed

lemma ring_slot_below: "q_capacity q \<noteq> 0 \<Longrightarrow> ring_slot q j < q_capacity q"
  by (simp add: word_less_unat unat_ring_slot word_neq_0_unat)

text \<open>Bytes of different slots have different addresses.\<close>

lemma slot_disjoint:
  fixes a c n k l i :: u32
  assumes fits: "unat c * unat n \<le> 2 ^ 32" and "k < c" "l < c" "k \<noteq> l" and "i < n"
  shows "\<not> a + k * n + i - (a + l * n) < n"
proof
  assume j: "a + k * n + i - (a + l * n) < n"
  define j' where "j' = a + k * n + i - (a + l * n)"
  have eq: "k * n + i = l * n + j'" by (simp add: j'_def)
  have u: "unat (x * n + y) = unat x * unat n + unat y" if "x < c" "y < n" for x y :: u32
  proof -
    have "unat x * unat n + unat y < Suc (unat x) * unat n" using that by (simp add: word_less_unat)
    also have "\<dots> \<le> unat c * unat n" using that by (intro mult_le_mono1) (simp add: word_less_unat)
    finally have "unat x * unat n + unat y < 4294967296" using fits by simp
    then show ?thesis by (simp add: unat_add_small unat_mult_small)
  qed
  have "unat (k * n + i) = unat k * unat n + unat i" by (rule u) (use assms in auto)
  moreover have "unat (l * n + j') = unat l * unat n + unat j'"
    by (rule u) (use assms j j'_def in auto)
  ultimately have "(unat k * unat n + unat i) div unat n = (unat l * unat n + unat j') div unat n"
    using eq by metis
  moreover have "unat i < unat n" "unat j' < unat n" using assms j by (simp_all add: word_less_unat j'_def)
  ultimately have "unat k = unat l" by (simp add: div_mult_self3)
  then show False using assms(4) by (simp add: word_eq_unat)
qed

lemma read_store_same:
  "(\<forall>i. \<not> i < n \<longrightarrow> x i = 0) \<Longrightarrow> read_item (store_bytes a n x m) a n = x"
  by (auto simp: read_item_def store_bytes_def fun_eq_iff)

lemma read_store_other:
  fixes c :: u32
  assumes "unat c * unat n \<le> 2 ^ 32" and "k < c" "l < c" "k \<noteq> l"
  shows "read_item (store_bytes (a + l * n) n x m) (a + k * n) n = read_item m (a + k * n) n"
  using slot_disjoint [OF assms] by (auto simp: read_item_def store_bytes_def fun_eq_iff)

lemma mod_shift_inj:
  fixes a j k n :: nat
  assumes "(a + j) mod n = (a + k) mod n" and "j < n" "k < n"
  shows "j = k"
proof -
  have le: "x = y" if "x \<le> y" "(a + y) mod n = (a + x) mod n" "y < n" for x y
  proof -
    have "n dvd (a + y) - (a + x)" using that by (simp add: mod_eq_dvd_iff_nat)
    then have "n dvd y - x" by simp
    show ?thesis
    proof (rule ccontr)
      assume "x \<noteq> y"
      with that have "0 < y - x" "y - x < n" by auto
      with \<open>n dvd y - x\<close> show False by (simp add: nat_dvd_not_less)
    qed
  qed
  show ?thesis using le [of j k] le [of k j] assms by (cases "j \<le> k") auto
qed

lemma ring_slot_inj:
  assumes "q_capacity q \<noteq> 0" and "j < unat (q_capacity q)" "j' < unat (q_capacity q)"
    and "ring_slot q j = ring_slot q j'"
  shows "j = j'"
proof -
  have "(unat (q_tail q) + j) mod unat (q_capacity q) = (unat (q_tail q) + j') mod unat (q_capacity q)"
    using assms by (metis unat_ring_slot)
  then show ?thesis using assms(2,3) by (rule mod_shift_inj)
qed

definition ring_inv :: "ring \<Rightarrow> bool" where
  "ring_inv r = ring_ok (fst r)"

definition ring_item_ok :: "ring \<Rightarrow> (u32 \<Rightarrow> u8) \<Rightarrow> bool" where
  "ring_item_ok r x \<longleftrightarrow> (\<forall>i. \<not> i < q_item_size (fst r) \<longrightarrow> x i = 0)"

definition ring_capacity :: "ring \<Rightarrow> nat" where
  "ring_capacity r = unat (q_capacity (fst r))"

lemma length_ring_contents [simp]: "length (ring_contents (q, m)) = unat (q_count q)"
  by (simp add: ring_contents_def)

lemma ring_slot_tail:
  "q_tail q < q_capacity q \<Longrightarrow> ring_slot q 0 = q_tail q"
  by (auto simp: word_eq_unat unat_ring_slot word_less_unat)

lemma unat_next_index:
  assumes "(i :: u32) < n"
  shows "unat ((i + 1) mod n) = (unat i + 1) mod unat n"
proof -
  have "unat i < 4294967295" using assms unat_le32 [of n] by (simp add: word_less_unat)
  then show ?thesis by (simp add: unat_mod32 unat_suc_small)
qed

lemma ring_put_ok:
  assumes ok: "ring_ok q" and room: "q_count q < q_capacity q"
  shows "ring_ok (fst (ring_put x (q, m)))"
proof -
  have c: "unat (q_count q + 1) = unat (q_count q) + 1"
    using room unat_le32 [of "q_capacity q"] by (intro unat_suc_small) (simp add: word_less_unat)
  have cap: "q_capacity q \<noteq> 0" using ok by (simp add: ring_ok_def)
  have h: "q_head q < q_capacity q" using ok ring_slot_below [OF cap] by (simp add: ring_ok_def)
  have "unat ((q_head q + 1) mod q_capacity q) = (unat (q_tail q) + (unat (q_count q) + 1)) mod unat (q_capacity q)"
    using ok unat_next_index [OF h] unat_ring_slot [OF cap]
    by (simp add: ring_ok_def mod_simps add.assoc)
  then have "(q_head q + 1) mod q_capacity q = ring_slot q (unat (q_count q) + 1)"
    by (simp add: word_eq_unat unat_ring_slot [OF cap])
  moreover have "q_count q + 1 \<le> q_capacity q" using room c by (simp add: word_le_unat word_less_unat)
  ultimately show ?thesis using ok c by (simp add: ring_put_def ring_ok_def ring_slot_def)
qed

lemma ring_put_contents:
  assumes ok: "ring_ok q" and room: "q_count q < q_capacity q" and x: "ring_item_ok (q, m) x"
  shows "ring_contents (ring_put x (q, m)) = ring_contents (q, m) @ [x]"
proof -
  let ?c = "unat (q_count q)" and ?n = "q_item_size q"
  let ?m' = "store_bytes (slot_addr q (q_head q)) ?n x m"
  let ?q' = "q\<lparr>q_head := (q_head q + 1) mod q_capacity q, q_count := q_count q + 1\<rparr>"
  have c: "unat (q_count q + 1) = ?c + 1"
    using room unat_le32 [of "q_capacity q"] by (intro unat_suc_small) (simp add: word_less_unat)
  have cap: "q_capacity q \<noteq> 0" and fits: "unat (q_capacity q) * unat ?n \<le> 2 ^ 32"
    and head: "q_head q = ring_slot q ?c" using ok by (auto simp: ring_ok_def)
  have slot: "ring_slot ?q' j = ring_slot q j" "slot_addr ?q' k = slot_addr q k" for j k
    by (simp_all add: ring_slot_def slot_addr_def)
  have old: "read_item ?m' (slot_addr q (ring_slot q j)) ?n = read_item m (slot_addr q (ring_slot q j)) ?n"
    if "j < ?c" for j
  proof -
    have "ring_slot q j \<noteq> ring_slot q ?c"
      using ring_slot_inj [OF cap, of j ?c] that room by (auto simp: word_less_unat)
    then show ?thesis
      unfolding slot_addr_def head
      by (intro read_store_other [OF fits]) (simp_all add: ring_slot_below cap)
  qed
  have new: "read_item ?m' (slot_addr q (ring_slot q ?c)) ?n = x"
    using x by (simp add: head read_store_same ring_item_ok_def)
  show ?thesis
    using old new by (simp add: ring_put_def ring_contents_def slot c)
qed

lemma ring_drop_contents:
  assumes ok: "ring_ok q" and some: "q_count q \<noteq> 0"
  shows "ring_ok (fst (ring_drop (q, m)))"
    and "ring_contents (q, m) = ring_get (q, m) # ring_contents (ring_drop (q, m))"
proof -
  let ?c = "unat (q_count q)" and ?N = "unat (q_capacity q)"
  let ?q' = "q\<lparr>q_tail := (q_tail q + 1) mod q_capacity q, q_count := q_count q - 1\<rparr>"
  have cap: "q_capacity q \<noteq> 0" and tail: "q_tail q < q_capacity q" and le: "q_count q \<le> q_capacity q"
    and head: "q_head q = ring_slot q ?c" using ok by (auto simp: ring_ok_def)
  have c: "?c = Suc (unat (q_count q - 1))"
    using some by (simp add: unat_sub32 word_le_unat word_neq_0_unat)
  have slot: "ring_slot ?q' j = ring_slot q (Suc j)" for j
    unfolding word_eq_unat
    using cap unat_ring_slot [of ?q' j] unat_ring_slot [of q "Suc j"] unat_next_index [OF tail]
    by (simp add: mod_simps)
  show "ring_ok (fst (ring_drop (q, m)))"
  proof -
    have "(q_tail q + 1) mod q_capacity q < q_capacity q" using tail by (simp add: word_less_unat unat_mod32)
    moreover have "q_count q - 1 \<le> q_capacity q" using c le by (simp add: word_le_unat)
    moreover have "q_head q = ring_slot ?q' (unat (q_count q - 1))" using head c slot by simp
    ultimately show ?thesis using ok by (simp add: ring_drop_def ring_ok_def)
  qed
  have "[0..<?c] = 0 # map Suc [0..<unat (q_count q - 1)]"
    unfolding c by (simp add: map_Suc_upt upt_conv_Cons)
  then show "ring_contents (q, m) = ring_get (q, m) # ring_contents (ring_drop (q, m))"
    using slot tail by (simp add: ring_contents_def ring_get_def ring_drop_def ring_slot_tail comp_def slot_addr_def)
qed

interpretation ring: bounded_fifo ring_inv ring_item_ok ring_contents ring_capacity ring_put ring_get ring_drop
proof
  fix r :: ring and x y :: "u32 \<Rightarrow> u8" and xs
  obtain q m where r: "r = (q, m)" by fastforce
  show "ring_inv r \<Longrightarrow> length (ring_contents r) \<le> ring_capacity r"
    by (simp add: r ring_inv_def ring_ok_def ring_capacity_def word_le_unat)
  show "ring_inv r \<Longrightarrow> length (ring_contents r) < ring_capacity r \<Longrightarrow> ring_item_ok r x \<Longrightarrow> ring_inv (ring_put x r)"
    using ring_put_ok [of q x m] by (simp add: r ring_inv_def ring_capacity_def word_less_unat)
  show "ring_inv r \<Longrightarrow> length (ring_contents r) < ring_capacity r \<Longrightarrow> ring_item_ok r x \<Longrightarrow>
      ring_contents (ring_put x r) = ring_contents r @ [x]"
    using ring_put_contents [of q m x] by (simp add: r ring_inv_def ring_capacity_def word_less_unat)
  show "ring_capacity (ring_put x r) = ring_capacity r" by (simp add: r ring_put_def ring_capacity_def)
  show "ring_item_ok (ring_put x r) y = ring_item_ok r y" by (simp add: r ring_put_def ring_item_ok_def)
  have nonempty: "q_count q \<noteq> 0" if "ring_contents r \<noteq> []"
    using that by (auto simp: r ring_contents_def)
  show "ring_inv r \<Longrightarrow> ring_contents r = x # xs \<Longrightarrow> ring_get r = x"
    using ring_drop_contents(2) [of q m] nonempty by (simp add: r ring_inv_def)
  show "ring_inv r \<Longrightarrow> ring_contents r \<noteq> [] \<Longrightarrow> ring_inv (ring_drop r)"
    using ring_drop_contents(1) [of q m] nonempty by (simp add: r ring_inv_def)
  show "ring_inv r \<Longrightarrow> ring_contents r = x # xs \<Longrightarrow> ring_contents (ring_drop r) = xs"
    using ring_drop_contents(2) [of q m] nonempty by (simp add: r ring_inv_def)
  show "ring_capacity (ring_drop r) = ring_capacity r" by (simp add: r ring_drop_def ring_capacity_def)
qed

section \<open>The code refines the ring\<close>

definition ring_of :: "addr \<Rightarrow> kstate \<Rightarrow> ring" where
  "ring_of queue s = (queues s queue, mem8 s)"

text \<open>The caller's item buffer overlaps no slot of the queue.\<close>

definition item_apart :: "addr \<Rightarrow> addr \<Rightarrow> kstate \<Rightarrow> bool" where
  "item_apart queue item s \<longleftrightarrow> (\<forall>k < q_capacity (queues s queue).
     disjoint_blocks item (slot_addr (queues s queue) k) (q_item_size (queues s queue)))"

lemma disjoint_blocks_sym: "disjoint_blocks a b n = disjoint_blocks b a n"
  unfolding disjoint_blocks_def by metis

text \<open>Contents depend on the storage, the tail, the count and the bytes of the slots only.\<close>

lemma ring_contents_reservations [simp]:
  "ring_contents (q\<lparr>q_send_reservations := a\<rparr>, m) = ring_contents (q, m)"
  "ring_contents (q\<lparr>q_receive_reservations := a\<rparr>, m) = ring_contents (q, m)"
  by (simp_all add: ring_contents_def ring_slot_def slot_addr_def)

lemma ring_ok_reservations [simp]:
  "ring_ok (q\<lparr>q_send_reservations := a\<rparr>) = ring_ok q" "ring_ok (q\<lparr>q_receive_reservations := a\<rparr>) = ring_ok q"
  by (simp_all add: ring_ok_def ring_slot_def)

lemma store_bytes_read: "store_bytes a n (read_item m b n) m' = store_bytes a n (\<lambda>i. m (b + i)) m'"
  by (auto simp: store_bytes_def read_item_def fun_eq_iff)

definition release_send :: "u32 \<Rightarrow> JRT_Queue_t \<Rightarrow> JRT_Queue_t" where
  "release_send reserved q = (if reserved \<noteq> 0 then q\<lparr>q_send_reservations := q_send_reservations q - 1\<rparr> else q)"

definition release_receive :: "u32 \<Rightarrow> JRT_Queue_t \<Rightarrow> JRT_Queue_t" where
  "release_receive reserved q =
     (if reserved \<noteq> 0 then q\<lparr>q_receive_reservations := q_receive_reservations q - 1\<rparr> else q)"

lemma release_fields [simp]:
  "ring_contents (release_send r q, m) = ring_contents (q, m)"
  "ring_contents (release_receive r q, m) = ring_contents (q, m)"
  "ring_ok (release_send r q) = ring_ok q" "ring_ok (release_receive r q) = ring_ok q"
  "q_count (release_send r q) = q_count q" "q_count (release_receive r q) = q_count q"
  "q_capacity (release_send r q) = q_capacity q" "q_capacity (release_receive r q) = q_capacity q"
  "q_item_size (release_send r q) = q_item_size q" "q_item_size (release_receive r q) = q_item_size q"
  "q_receive_reservations (release_send r q) = q_receive_reservations q"
  "q_send_reservations (release_receive r q) = q_send_reservations q"
  by (simp_all add: release_send_def release_receive_def)

lemma queue_copy_in_ring:
  assumes ok: "ring_ok (queues s queue)" and apart: "item_apart queue item s"
  defines "q \<equiv> queues s queue"
  shows "queue_copy_in queue item reserved s =
    (let (q', m') = ring_put (read_item (mem8 s) item (q_item_size q)) (release_send reserved q, mem8 s)
     in s\<lparr>queues := (queues s)(queue := q'), mem8 := m'\<rparr>)"
proof -
  have "q_head q < q_capacity q" using ok ring_slot_below by (auto simp: ring_ok_def q_def)
  then have "disjoint_blocks item (q_storage q + q_head q * q_item_size q) (q_item_size q)"
    using apart by (auto simp: item_apart_def slot_addr_def q_def)
  note copy = copy_bytes_disjoint [OF this, of "mem8 s"]
  show ?thesis
    unfolding queue_copy_in_def Let_def q_def [symmetric] copy
    by (simp add: ring_put_def release_send_def set_queue_def slot_addr_def store_bytes_read)
qed

lemma queue_copy_out_ring:
  assumes ok: "ring_ok (queues s queue)" and apart: "item_apart queue item s"
  defines "q \<equiv> queues s queue"
  shows "queue_copy_out queue item reserved s =
    s\<lparr>queues := (queues s)(queue := fst (ring_drop (release_receive reserved q, mem8 s))),
      mem8 := store_bytes item (q_item_size q) (ring_get (q, mem8 s)) (mem8 s)\<rparr>"
proof -
  have "q_tail q < q_capacity q" using ok by (auto simp: ring_ok_def q_def)
  then have "disjoint_blocks (q_storage q + q_tail q * q_item_size q) item (q_item_size q)"
    using apart disjoint_blocks_sym by (auto simp: item_apart_def slot_addr_def q_def)
  note copy = copy_bytes_disjoint [OF this, of "mem8 s"]
  show ?thesis
    unfolding queue_copy_out_def Let_def q_def [symmetric] copy
    by (simp add: ring_drop_def ring_get_def release_receive_def set_queue_def slot_addr_def store_bytes_read)
qed

text \<open>Writing the caller's buffer leaves the contents alone.\<close>

lemma ring_contents_apart:
  assumes "ring_ok q" and "\<forall>k < q_capacity q. disjoint_blocks item (slot_addr q k) (q_item_size q)"
  shows "ring_contents (q, store_bytes item (q_item_size q) f m) = ring_contents (q, m)"
proof -
  let ?n = "q_item_size q"
  have "read_item (store_bytes item ?n f m) (slot_addr q k) ?n = read_item m (slot_addr q k) ?n"
    if "k < q_capacity q" for k
  proof -
    have "\<not> slot_addr q k + i - item < ?n" if "i < ?n" for i
    proof
      assume "slot_addr q k + i - item < ?n"
      moreover have "item + (slot_addr q k + i - item) = slot_addr q k + i" by simp
      ultimately show False
        using assms(2) \<open>k < q_capacity q\<close> that unfolding disjoint_blocks_def by blast
    qed
    then show ?thesis by (auto simp: read_item_def store_bytes_def fun_eq_iff)
  qed
  moreover have "ring_slot q j < q_capacity q" for j using assms(1) by (simp add: ring_ok_def ring_slot_below)
  ultimately show ?thesis by (simp add: ring_contents_def)
qed

section \<open>Reservations\<close>

text \<open>
  The queue contract: the ring is well formed, stored items and promised slots fit together, every
  promised item is there, and a task waits only while there is nothing left to promise to it.
\<close>

definition queue_inv :: "addr \<Rightarrow> kstate \<Rightarrow> bool" where
  "queue_inv queue s \<longleftrightarrow> (let q = queues s queue in
     ring_ok q
   \<and> unat (q_count q) + unat (q_send_reservations q) \<le> unat (q_capacity q)
   \<and> unat (q_receive_reservations q) \<le> unat (q_count q)
   \<and> (kernel_waiters queue TASK_WAIT_QUEUE_SEND s \<noteq> {} \<longrightarrow>
        unat (q_count q) + unat (q_send_reservations q) = unat (q_capacity q))
   \<and> (kernel_waiters queue TASK_WAIT_QUEUE_RECEIVE s \<noteq> {} \<longrightarrow>
        q_count q = q_receive_reservations q))"

lemma wake_receiver_fields:
  "queues (wake_receiver queue s) = (if kernel_waiters queue TASK_WAIT_QUEUE_RECEIVE s = {} then queues s
     else (queues s)(queue := (queues s queue)\<lparr>q_receive_reservations := q_receive_reservations (queues s queue) + 1\<rparr>))"
  "tasks (wake_receiver queue s) = woken_tasks queue TASK_WAIT_QUEUE_RECEIVE s"
  "task_count (wake_receiver queue s) = task_count s" "mem8 (wake_receiver queue s) = mem8 s"
  "current_task (wake_receiver queue s) = current_task s"
  by (simp_all add: wake_receiver_def case_prod_beta task_wake_fields set_queue_def)

lemma wake_sender_fields:
  "queues (wake_sender queue s) = (if kernel_waiters queue TASK_WAIT_QUEUE_SEND s = {} then queues s
     else (queues s)(queue := (queues s queue)\<lparr>q_send_reservations := q_send_reservations (queues s queue) + 1\<rparr>))"
  "tasks (wake_sender queue s) = woken_tasks queue TASK_WAIT_QUEUE_SEND s"
  "task_count (wake_sender queue s) = task_count s" "mem8 (wake_sender queue s) = mem8 s"
  "current_task (wake_sender queue s) = current_task s"
  by (simp_all add: wake_sender_def case_prod_beta task_wake_fields set_queue_def)

lemma kernel_waiters_cong:
  "tasks t = tasks s \<Longrightarrow> task_count t = task_count s \<Longrightarrow> kernel_waiters ob k t = kernel_waiters ob k s"
  by (simp add: kernel_waiters_def)

lemma waiters_after_wake:
  "kernel_waiters queue k (wake_receiver queue s) \<subseteq> kernel_waiters queue k s"
  "kernel_waiters queue k (wake_sender queue s) \<subseteq> kernel_waiters queue k s"
  using kernel_waiters_woken [OF wake_receiver_fields(2,3)] kernel_waiters_woken [OF wake_sender_fields(2,3)]
  by blast+

text \<open>A ready send finds a free slot; it was promised if the queue is full but for promises.\<close>

lemma send_room:
  assumes inv: "queue_inv queue s" and ready: "queue_send_ready (queues s queue) reserved"
    and res: "reserved \<noteq> 0 \<Longrightarrow> q_send_reservations (queues s queue) \<noteq> 0"
  shows "unat (q_count (queues s queue)) + unat (q_send_reservations (release_send reserved (queues s queue)))
      < unat (q_capacity (queues s queue))"
    and "unat (q_count (queues s queue) + 1) = unat (q_count (queues s queue)) + 1"
proof -
  let ?q = "queues s queue"
  have sum: "unat (q_count ?q) + unat (q_send_reservations ?q) \<le> unat (q_capacity ?q)"
    using inv by (simp add: queue_inv_def Let_def)
  have sum_word: "unat (q_count ?q + q_send_reservations ?q) = unat (q_count ?q) + unat (q_send_reservations ?q)"
    using sum unat_le32 [of "q_capacity ?q"] by (intro unat_add_small) linarith
  show room: "unat (q_count ?q) + unat (q_send_reservations (release_send reserved ?q)) < unat (q_capacity ?q)"
  proof (cases "reserved = 0")
    case True
    with ready sum_word show ?thesis by (simp add: queue_send_ready_def release_send_def word_less_unat)
  next
    case False
    with res have "0 < unat (q_send_reservations ?q)" by (simp add: word_neq_0_unat)
    with False sum show ?thesis by (simp add: release_send_def unat_sub32 word_le_unat)
  qed
  then show "unat (q_count ?q + 1) = unat (q_count ?q) + 1"
    using unat_le32 [of "q_capacity ?q"] by (intro unat_suc_small) linarith
qed

lemma send_full:
  assumes "queue_inv queue s" and "queue_send_ready (queues s queue) reserved"
    and "reserved \<noteq> 0 \<Longrightarrow> q_send_reservations (queues s queue) \<noteq> 0"
    and "unat (q_count (queues s queue)) + unat (q_send_reservations (queues s queue)) = unat (q_capacity (queues s queue))"
  shows "unat (q_count (queues s queue) + 1) + unat (q_send_reservations (release_send reserved (queues s queue)))
    = unat (q_capacity (queues s queue))"
proof -
  have "reserved \<noteq> 0" using send_room(1) [OF assms(1-3)] assms(4) by (auto simp: release_send_def)
  moreover from this assms(3) have "0 < unat (q_send_reservations (queues s queue))" by (simp add: word_neq_0_unat)
  ultimately show ?thesis
    using assms(4) send_room(2) [OF assms(1-3)] by (simp add: release_send_def unat_sub32 word_le_unat)
qed

text \<open>A successful send pass.\<close>

lemma send_step:
  assumes inv: "queue_inv queue s" and apart: "item_apart queue item s"
    and ready: "queue_send_ready (queues s queue) reserved"
    and res: "reserved \<noteq> 0 \<Longrightarrow> q_send_reservations (queues s queue) \<noteq> 0"
  defines "t \<equiv> wake_receiver queue (queue_copy_in queue item reserved s)"
  shows "queue_inv queue t"
    and "ring_contents (ring_of queue t) = ring_contents (ring_of queue s)
      @ [read_item (mem8 s) item (q_item_size (queues s queue))]"
proof -
  let ?q = "queues s queue" and ?m = "mem8 s"
  let ?x = "read_item ?m item (q_item_size ?q)"
  let ?r = "release_send reserved ?q"
  let ?u = "queue_copy_in queue item reserved s"
  have ok: "ring_ok ?q" and sum: "unat (q_count ?q) + unat (q_send_reservations ?q) \<le> unat (q_capacity ?q)"
    and rr: "unat (q_receive_reservations ?q) \<le> unat (q_count ?q)"
    using inv by (auto simp: queue_inv_def Let_def)
  note room = send_room(1) [OF inv ready res]
  then have cnt_room: "q_count ?r < q_capacity ?r" by (simp add: word_less_unat)
  note c = send_room(2) [OF inv ready res]
  obtain q' m' where put: "ring_put ?x (?r, ?m) = (q', m')" by fastforce
  have q': "q_count q' = q_count ?q + 1" "q_capacity q' = q_capacity ?q"
    "q_send_reservations q' = q_send_reservations ?r" "q_receive_reservations q' = q_receive_reservations ?q"
    using put by (auto simp: ring_put_def)
  have pre: "ring_inv (?r, ?m)" "length (ring_contents (?r, ?m)) < ring_capacity (?r, ?m)"
    "ring_item_ok (?r, ?m) ?x"
    using ok cnt_room
    by (simp_all add: ring_inv_def ring_capacity_def ring_item_ok_def read_item_def word_less_unat)
  have ok': "ring_ok q'" using ring.put_inv [OF pre] put by (simp add: ring_inv_def)
  have contents': "ring_contents (q', m') = ring_contents (?q, ?m) @ [?x]"
    using ring.put_contents [OF pre] put by simp
  have u: "queues ?u queue = q'" "mem8 ?u = m'" "tasks ?u = tasks s" "task_count ?u = task_count s"
    using queue_copy_in_ring [OF ok apart, of reserved] put by simp_all
  have W: "kernel_waiters queue k ?u = kernel_waiters queue k s" for k
    by (rule kernel_waiters_cong) (use u in auto)
  show "ring_contents (ring_of queue t) = ring_contents (ring_of queue s) @ [?x]"
    using contents' u by (simp add: ring_of_def t_def wake_receiver_fields)
  have W': "kernel_waiters queue k t \<subseteq> kernel_waiters queue k s" for k
    using waiters_after_wake(1) [of queue k ?u] W by (simp add: t_def)
  have senders: "unat (q_count q') + unat (q_send_reservations q') = unat (q_capacity q')"
    if "kernel_waiters queue TASK_WAIT_QUEUE_SEND s \<noteq> {}"
  proof -
    have "unat (q_count ?q) + unat (q_send_reservations ?q) = unat (q_capacity ?q)"
      using that inv by (simp add: queue_inv_def Let_def)
    from send_full [OF inv ready res this] show ?thesis by (simp add: q')
  qed
  show "queue_inv queue t"
  proof (cases "kernel_waiters queue TASK_WAIT_QUEUE_RECEIVE s = {}")
    case True
    have "queues t queue = q'" using True by (simp add: t_def wake_receiver_fields W u)
    with True ok' room rr c senders W' [of TASK_WAIT_QUEUE_SEND] W' [of TASK_WAIT_QUEUE_RECEIVE]
    show ?thesis by (auto simp: queue_inv_def Let_def q')
  next
    case False
    then have eq: "q_count ?q = q_receive_reservations ?q" using inv by (simp add: queue_inv_def Let_def)
    have "queues t queue = q'\<lparr>q_receive_reservations := q_receive_reservations q' + 1\<rparr>"
      using False by (simp add: t_def wake_receiver_fields W u)
    with ok' room eq c senders W' [of TASK_WAIT_QUEUE_SEND]
    show ?thesis by (auto simp: queue_inv_def Let_def q')
  qed
qed

text \<open>A ready receive finds an item that is promised to nobody else.\<close>

lemma receive_left:
  assumes inv: "queue_inv queue s" and ready: "queue_receive_ready (queues s queue) reserved"
    and res: "reserved \<noteq> 0 \<Longrightarrow> q_receive_reservations (queues s queue) \<noteq> 0"
  shows "unat (q_receive_reservations (release_receive reserved (queues s queue))) < unat (q_count (queues s queue))"
proof (cases "reserved = 0")
  case True
  with ready show ?thesis by (simp add: queue_receive_ready_def release_receive_def word_less_unat)
next
  case False
  with res have "0 < unat (q_receive_reservations (queues s queue))" by (simp add: word_neq_0_unat)
  moreover have "unat (q_receive_reservations (queues s queue)) \<le> unat (q_count (queues s queue))"
    using inv by (simp add: queue_inv_def Let_def)
  ultimately show ?thesis using False by (simp add: release_receive_def unat_sub32 word_le_unat)
qed

text \<open>A successful receive pass.\<close>

lemma receive_step:
  assumes inv: "queue_inv queue s" and apart: "item_apart queue item s"
    and ready: "queue_receive_ready (queues s queue) reserved"
    and res: "reserved \<noteq> 0 \<Longrightarrow> q_receive_reservations (queues s queue) \<noteq> 0"
  defines "t \<equiv> wake_sender queue (queue_copy_out queue item reserved s)"
  shows "queue_inv queue t"
    and "ring_contents (ring_of queue s) =
      read_item (mem8 t) item (q_item_size (queues s queue)) # ring_contents (ring_of queue t)"
proof -
  let ?q = "queues s queue" and ?m = "mem8 s" and ?n = "q_item_size (queues s queue)"
  let ?r = "release_receive reserved ?q"
  let ?u = "queue_copy_out queue item reserved s"
  have ok: "ring_ok ?q" and sum: "unat (q_count ?q) + unat (q_send_reservations ?q) \<le> unat (q_capacity ?q)"
    and rr: "unat (q_receive_reservations ?q) \<le> unat (q_count ?q)"
    using inv by (auto simp: queue_inv_def Let_def)
  note left = receive_left [OF inv ready res]
  then have some: "q_count ?r \<noteq> 0" by (auto simp: word_neq_0_unat)
  have c: "unat (q_count ?q) = Suc (unat (q_count ?q - 1))"
    using some by (simp add: unat_sub32 word_le_unat word_neq_0_unat)
  obtain q' where q'_def: "ring_drop (?r, ?m) = (q', ?m)" by (simp add: ring_drop_def)
  have q': "q_count q' = q_count ?q - 1" "q_capacity q' = q_capacity ?q" "q_item_size q' = ?n"
    "q_storage q' = q_storage ?q"
    "q_send_reservations q' = q_send_reservations ?q" "q_receive_reservations q' = q_receive_reservations ?r"
    using q'_def by (auto simp: ring_drop_def release_receive_def)
  have pre: "ring_inv (?r, ?m)" using ok by (simp add: ring_inv_def)
  obtain x xs where xs: "ring_contents (?r, ?m) = x # xs"
    using some by (cases "ring_contents (?r, ?m)") (auto simp: ring_contents_def word_neq_0_unat)
  have ok': "ring_ok q'" using ring.drop_inv [OF pre] xs q'_def by (simp add: ring_inv_def)
  let ?x = "ring_get (?q, ?m)"
  have get: "ring_get (?r, ?m) = ?x" by (simp add: ring_get_def release_receive_def slot_addr_def)
  have contents: "ring_contents (?q, ?m) = ?x # ring_contents (q', ?m)"
    using ring.get_front [OF pre xs] ring.drop_contents [OF pre xs] xs q'_def get by simp
  have u: "queues ?u queue = q'" "mem8 ?u = store_bytes item ?n ?x ?m" "tasks ?u = tasks s"
    "task_count ?u = task_count s"
    using queue_copy_out_ring [OF ok apart, of reserved] q'_def by simp_all
  have W: "kernel_waiters queue k ?u = kernel_waiters queue k s" for k
    by (rule kernel_waiters_cong) (use u in auto)
  have W': "kernel_waiters queue k t \<subseteq> kernel_waiters queue k s" for k
    using waiters_after_wake(2) [of queue k ?u] W by (simp add: t_def)
  have "\<forall>k < q_capacity q'. disjoint_blocks item (slot_addr q' k) (q_item_size q')"
    using apart by (simp add: item_apart_def slot_addr_def q')
  from ring_contents_apart [OF ok' this, of ?x ?m]
  have "ring_contents (q', store_bytes item ?n ?x ?m) = ring_contents (q', ?m)" by (simp add: q')
  then have "ring_contents (ring_of queue t) = ring_contents (q', ?m)"
    using u by (simp add: ring_of_def t_def wake_sender_fields)
  moreover have "read_item (mem8 t) item ?n = ?x"
    using u read_store_same [of ?n ?x item ?m] by (simp add: t_def wake_sender_fields ring_get_def read_item_def)
  ultimately show "ring_contents (ring_of queue s) = read_item (mem8 t) item ?n # ring_contents (ring_of queue t)"
    using contents by (simp add: ring_of_def)
  have receivers: "q_count q' = q_receive_reservations q'"
    if "kernel_waiters queue TASK_WAIT_QUEUE_RECEIVE s \<noteq> {}"
  proof -
    have eq: "q_count ?q = q_receive_reservations ?q" using that inv by (simp add: queue_inv_def Let_def)
    then have "reserved \<noteq> 0" using ready by (auto simp: queue_receive_ready_def)
    with eq show ?thesis by (simp add: q' release_receive_def)
  qed
  show "queue_inv queue t"
  proof (cases "kernel_waiters queue TASK_WAIT_QUEUE_SEND s = {}")
    case True
    have "queues t queue = q'" using True by (simp add: t_def wake_sender_fields W u)
    with True ok' left sum c receivers W' [of TASK_WAIT_QUEUE_SEND] W' [of TASK_WAIT_QUEUE_RECEIVE]
    show ?thesis by (auto simp: queue_inv_def Let_def q')
  next
    case False
    then have full: "unat (q_count ?q) + unat (q_send_reservations ?q) = unat (q_capacity ?q)"
      using inv by (simp add: queue_inv_def Let_def)
    have s1: "unat (q_send_reservations ?q + 1) = unat (q_send_reservations ?q) + 1"
      using full c unat_le32 [of "q_capacity ?q"] by (intro unat_suc_small) linarith
    have "queues t queue = q'\<lparr>q_send_reservations := q_send_reservations q' + 1\<rparr>"
      using False by (simp add: t_def wake_sender_fields W u)
    with ok' left full c s1 receivers W' [of TASK_WAIT_QUEUE_RECEIVE]
    show ?thesis by (auto simp: queue_inv_def Let_def q')
  qed
qed

lemma queue_inv_cong:
  "queues t queue = queues s queue \<Longrightarrow> tasks t = tasks s \<Longrightarrow> task_count t = task_count s \<Longrightarrow>
    queue_inv queue t = queue_inv queue s"
  using kernel_waiters_cong [of t s] by (simp add: queue_inv_def)

lemma queue_inv_cs [simp]:
  "queue_inv queue (cs_enter s) = queue_inv queue s"
  "queue_inv queue (arch_critical_exit p s) = queue_inv queue s"
  by (rule queue_inv_cong; simp)+

lemma item_apart_cs [simp]: "item_apart queue item (cs_enter s) = item_apart queue item s"
  by (simp add: item_apart_def)

lemma ring_of_cs [simp]:
  "ring_of queue (cs_enter s) = ring_of queue s" "ring_of queue (arch_critical_exit p s) = ring_of queue s"
  by (simp_all add: ring_of_def)

text \<open>The three ways a pass can end.\<close>

lemma send_pass_cases:
  assumes inv: "queue_inv queue s" and apart: "item_apart queue item s" and cur: "current_task s < task_count s"
    and res: "reserved \<noteq> 0 \<longrightarrow> q_send_reservations (queues s queue) \<noteq> 0"
    and pass: "queue_send_pass queue item timeout d reserved s = (r, t)"
  obtains (sent) "reserved \<noteq> 0 \<or> unat (q_count (queues s queue)) + unat (q_send_reservations (queues s queue))
        < unat (q_capacity (queues s queue))"
      "r = Some 1" "t = arch_critical_exit (primask s) (wake_receiver queue (queue_copy_in queue item reserved (cs_enter s)))"
      "queue_inv queue t" "ring_contents (ring_of queue t) =
        ring_contents (ring_of queue s) @ [read_item (mem8 s) item (q_item_size (queues s queue))]"
  | (refused) "reserved = 0" "unat (q_count (queues s queue)) + unat (q_send_reservations (queues s queue))
        = unat (q_capacity (queues s queue))" "gives_up timeout d s" "r = Some 0" "tasks t = tasks s" "queues t = queues s"
      "mem8 t = mem8 s" "task_count t = task_count s" "queue_inv queue t"
  | (blocked) "reserved = 0" "unat (q_count (queues s queue)) + unat (q_send_reservations (queues s queue))
        = unat (q_capacity (queues s queue))" "\<not> gives_up timeout d s" "r = None" "queues t = queues s" "mem8 t = mem8 s"
      "tasks t = (tasks s)(current_task s := blocked_on queue TASK_WAIT_QUEUE_SEND d (tasks s (current_task s)))"
      "task_count t = task_count s" "queue_inv queue t"
proof -
  let ?q = "queues s queue"
  have ok: "ring_ok ?q" and sum: "unat (q_count ?q) + unat (q_send_reservations ?q) \<le> unat (q_capacity ?q)"
    using inv by (auto simp: queue_inv_def Let_def)
  have sum_word: "unat (q_count ?q + q_send_reservations ?q) = unat (q_count ?q) + unat (q_send_reservations ?q)"
    using sum unat_le32 [of "q_capacity ?q"] by (intro unat_add_small) linarith
  have ready: "queue_send_ready ?q reserved \<longleftrightarrow>
      reserved \<noteq> 0 \<or> unat (q_count ?q) + unat (q_send_reservations ?q) < unat (q_capacity ?q)"
    using ok by (auto simp: queue_send_ready_def ring_ok_def word_less_unat sum_word)
  note block = task_block_until_locked_fields [of queue TASK_WAIT_QUEUE_SEND d "primask s" "cs_enter s"]
  show thesis
  proof (cases "queue_send_ready ?q reserved")
    case True
    then have "r = Some 1" "t = arch_critical_exit (primask s) (wake_receiver queue (queue_copy_in queue item reserved (cs_enter s)))"
      using pass by (auto simp: queue_send_pass_def arch_critical_enter_eq)
    moreover note send_step [of queue "cs_enter s" item reserved]
    ultimately show ?thesis using True ready inv apart res by (intro sent) simp_all
  next
    case False
    then have full: "reserved = 0" "unat (q_count ?q) + unat (q_send_reservations ?q) = unat (q_capacity ?q)"
      using ready sum by auto
    show ?thesis
    proof (cases "gives_up timeout d s")
      case True
      then have "r = Some 0" "tasks t = tasks s" "queues t = queues s" "mem8 t = mem8 s" "task_count t = task_count s"
        using pass False block by (auto simp: queue_send_pass_def arch_critical_enter_eq gives_up_def split: if_splits)
      with full True inv queue_inv_cong [of t queue s] show ?thesis by (intro refused) simp_all
    next
      case wait: False
      then have "task_block_until_locked queue TASK_WAIT_QUEUE_SEND d (primask s) (cs_enter s) = (r, t)"
        using pass False by (simp add: queue_send_pass_def arch_critical_enter_eq gives_up_def)
      with wait block have f: "r = None" "tasks t = (tasks s)(current_task s := blocked_on queue TASK_WAIT_QUEUE_SEND d (tasks s (current_task s)))"
        "task_count t = task_count s" "queues t = queues s" "mem8 t = mem8 s" by (simp_all add: gives_up_def)
      from inv full have "queue_inv queue t"
        by (auto simp: queue_inv_def Let_def f kernel_waiters_blocked [OF f(2,3) cur] split: if_splits)
      with full wait f show ?thesis by (intro blocked)
    qed
  qed
qed

lemma receive_pass_cases:
  assumes inv: "queue_inv queue s" and apart: "item_apart queue item s" and cur: "current_task s < task_count s"
    and res: "reserved \<noteq> 0 \<longrightarrow> q_receive_reservations (queues s queue) \<noteq> 0"
    and pass: "queue_receive_pass queue item timeout d reserved s = (r, t)"
  obtains (taken) "reserved \<noteq> 0 \<or> q_receive_reservations (queues s queue) < q_count (queues s queue)"
      "r = Some 1" "t = arch_critical_exit (primask s) (wake_sender queue (queue_copy_out queue item reserved (cs_enter s)))"
      "queue_inv queue t" "ring_contents (ring_of queue s) =
        read_item (mem8 t) item (q_item_size (queues s queue)) # ring_contents (ring_of queue t)"
  | (refused) "reserved = 0" "q_count (queues s queue) = q_receive_reservations (queues s queue)" "gives_up timeout d s"
      "r = Some 0" "tasks t = tasks s" "queues t = queues s" "mem8 t = mem8 s" "task_count t = task_count s" "queue_inv queue t"
  | (blocked) "reserved = 0" "q_count (queues s queue) = q_receive_reservations (queues s queue)" "\<not> gives_up timeout d s"
      "r = None" "queues t = queues s" "mem8 t = mem8 s"
      "tasks t = (tasks s)(current_task s := blocked_on queue TASK_WAIT_QUEUE_RECEIVE d (tasks s (current_task s)))"
      "task_count t = task_count s" "queue_inv queue t"
proof -
  let ?q = "queues s queue"
  have ok: "ring_ok ?q" and le: "unat (q_receive_reservations ?q) \<le> unat (q_count ?q)"
    using inv by (auto simp: queue_inv_def Let_def)
  have ready: "queue_receive_ready ?q reserved \<longleftrightarrow> reserved \<noteq> 0 \<or> q_receive_reservations ?q < q_count ?q"
    using ok by (auto simp: queue_receive_ready_def ring_ok_def)
  note block = task_block_until_locked_fields [of queue TASK_WAIT_QUEUE_RECEIVE d "primask s" "cs_enter s"]
  show thesis
  proof (cases "queue_receive_ready ?q reserved")
    case True
    then have "r = Some 1" "t = arch_critical_exit (primask s) (wake_sender queue (queue_copy_out queue item reserved (cs_enter s)))"
      using pass by (auto simp: queue_receive_pass_def arch_critical_enter_eq)
    moreover note receive_step [of queue "cs_enter s" item reserved]
    ultimately show ?thesis using True ready inv apart res by (intro taken) simp_all
  next
    case False
    then have empty: "reserved = 0" "q_count ?q = q_receive_reservations ?q"
      using ready le by (auto simp: word_less_unat word_eq_unat)
    show ?thesis
    proof (cases "gives_up timeout d s")
      case True
      then have "r = Some 0" "tasks t = tasks s" "queues t = queues s" "mem8 t = mem8 s" "task_count t = task_count s"
        using pass False block by (auto simp: queue_receive_pass_def arch_critical_enter_eq gives_up_def split: if_splits)
      with empty True inv queue_inv_cong [of t queue s] show ?thesis by (intro refused) simp_all
    next
      case wait: False
      then have "task_block_until_locked queue TASK_WAIT_QUEUE_RECEIVE d (primask s) (cs_enter s) = (r, t)"
        using pass False by (simp add: queue_receive_pass_def arch_critical_enter_eq gives_up_def)
      with wait block have f: "r = None" "tasks t = (tasks s)(current_task s := blocked_on queue TASK_WAIT_QUEUE_RECEIVE d (tasks s (current_task s)))"
        "task_count t = task_count s" "queues t = queues s" "mem8 t = mem8 s" by (simp_all add: gives_up_def)
      from inv empty have "queue_inv queue t"
        by (auto simp: queue_inv_def Let_def f kernel_waiters_blocked [OF f(2,3) cur] split: if_splits)
      with empty wait f show ?thesis by (intro blocked)
    qed
  qed
qed

section \<open>Properties of queues\<close>

text \<open>C17: a send pass appends the caller's item as the newest one and returns 1 whenever a slot is
  free beyond the promised ones, or one is promised to the caller; otherwise it changes nothing in
  the queue and either gives up with 0 or blocks the caller as a sender. In every case the queue
  contract holds afterwards, so no promised slot or item is ever taken by another task and no
  task waits while it could be served.\<close>

theorem queue_send_refines_fifo:
  assumes "queue_inv queue s" and "item_apart queue item s" and "current_task s < task_count s"
    and "reserved \<noteq> 0 \<longrightarrow> q_send_reservations (queues s queue) \<noteq> 0"
    and "queue_send_pass queue item timeout d reserved s = (r, s')"
  shows "queue_inv queue s' \<and>
    (if reserved \<noteq> 0 \<or> unat (q_count (queues s queue)) + unat (q_send_reservations (queues s queue))
          < unat (q_capacity (queues s queue))
     then r = Some 1 \<and> ring_contents (ring_of queue s') =
       ring_contents (ring_of queue s) @ [read_item (mem8 s) item (q_item_size (queues s queue))]
     else ring_contents (ring_of queue s') = ring_contents (ring_of queue s)
       \<and> (if gives_up timeout d s then r = Some 0 \<and> tasks s' = tasks s
          else r = None \<and> kernel_waiters queue TASK_WAIT_QUEUE_SEND s' =
            insert (current_task s) (kernel_waiters queue TASK_WAIT_QUEUE_SEND s)))"
  using assms
proof (cases rule: send_pass_cases)
  case blocked
  from kernel_waiters_blocked [OF blocked(7,8) assms(3)] blocked show ?thesis by (simp add: ring_of_def)
qed (use assms(4) in \<open>auto simp: ring_of_def\<close>)

text \<open>C18: a receive pass takes the oldest item, copies it byte for byte into the caller's buffer and
  returns 1 whenever an unpromised item is stored or one is promised to the caller; otherwise it
  changes nothing in the queue and gives up with 0 or blocks the caller. The queue contract holds
  afterwards: items leave in the order they came, none is lost, doubled or torn.\<close>

theorem queue_receive_refines_fifo:
  assumes "queue_inv queue s" and "item_apart queue item s" and "current_task s < task_count s"
    and "reserved \<noteq> 0 \<longrightarrow> q_receive_reservations (queues s queue) \<noteq> 0"
    and "queue_receive_pass queue item timeout d reserved s = (r, s')"
  shows "queue_inv queue s' \<and>
    (if reserved \<noteq> 0 \<or> q_receive_reservations (queues s queue) < q_count (queues s queue)
     then r = Some 1 \<and> ring_contents (ring_of queue s) =
       read_item (mem8 s') item (q_item_size (queues s queue)) # ring_contents (ring_of queue s')
     else ring_contents (ring_of queue s') = ring_contents (ring_of queue s)
       \<and> (if gives_up timeout d s then r = Some 0 \<and> tasks s' = tasks s
          else r = None \<and> kernel_waiters queue TASK_WAIT_QUEUE_RECEIVE s' =
            insert (current_task s) (kernel_waiters queue TASK_WAIT_QUEUE_RECEIVE s)))"
  using assms
proof (cases rule: receive_pass_cases)
  case blocked
  from kernel_waiters_blocked [OF blocked(7,8) assms(3)] blocked show ?thesis by (simp add: ring_of_def)
qed (use assms(4) in \<open>auto simp: ring_of_def\<close>)

text \<open>An empty queue of two 4-byte slots at 0x600, used by task 0.\<close>

definition queue_state :: kstate where
  "queue_state = (reset_state default_config)\<lparr>task_count := 2,
     queues := (queues (reset_state default_config))(0x500 := zero_queue\<lparr>q_storage := 0x600, q_capacity := 2, q_item_size := 4\<rparr>),
     mem8 := (\<lambda>a. ucast a)\<rparr>"

lemma queue_state_inv: "queue_inv 0x500 queue_state"
proof -
  have "kernel_waiters 0x500 k queue_state = {}" for k
    by (auto simp: kernel_waiters_def waiters_def waits_on_def queue_state_def reset_state_def zero_task_def)
  then show ?thesis
    by (simp add: queue_inv_def ring_ok_def ring_slot_def queue_state_def zero_queue_def)
qed

lemma below_two: "(i :: u32) < 2 \<longleftrightarrow> i = 0 \<or> i = 1"
proof -
  have "unat i < 2 \<Longrightarrow> unat i = 0 \<or> unat i = 1" by arith
  then show ?thesis by (auto simp: word_less_unat word_eq_unat)
qed

lemma queue_state_apart: "item_apart 0x500 0x700 queue_state"
proof -
  have "disjoint_blocks 0x700 0x600 4" "disjoint_blocks 0x700 0x604 4"
    by (auto simp: disjoint_blocks_def below_four)
  then show ?thesis
    by (auto simp: item_apart_def slot_addr_def queue_state_def zero_queue_def below_two)
qed

theorem queue_send_witness:
  "queue_inv 0x500 queue_state \<and> item_apart 0x500 0x700 queue_state
   \<and> current_task queue_state < task_count queue_state
   \<and> fst (queue_send_pass 0x500 0x700 0 (make_deadline 0 0) 0 queue_state) = Some 1"
proof -
  have c: "current_task queue_state < task_count queue_state" by (simp add: queue_state_def reset_state_def)
  obtain r s' where p: "queue_send_pass 0x500 0x700 0 (make_deadline 0 0) 0 queue_state = (r, s')" by fastforce
  have "unat (q_count (queues queue_state 0x500)) + unat (q_send_reservations (queues queue_state 0x500))
      < unat (q_capacity (queues queue_state 0x500))"
    by (simp add: queue_state_def zero_queue_def)
  with queue_send_refines_fifo [OF queue_state_inv queue_state_apart c _ p] p queue_state_inv queue_state_apart c
  show ?thesis by simp
qed

theorem queue_receive_witness:
  "queue_inv 0x500 queue_state \<and> item_apart 0x500 0x700 queue_state
   \<and> current_task queue_state < task_count queue_state
   \<and> fst (queue_receive_pass 0x500 0x700 5 (make_deadline 0 5) 0 queue_state) = None"
proof -
  have c: "current_task queue_state < task_count queue_state" by (simp add: queue_state_def reset_state_def)
  obtain r s' where p: "queue_receive_pass 0x500 0x700 5 (make_deadline 0 5) 0 queue_state = (r, s')" by fastforce
  have "\<not> gives_up 5 (make_deadline 0 5) queue_state" "q_count (queues queue_state 0x500) = 0"
    by (simp_all add: gives_up_def deadline_passed_def make_deadline_def queue_state_def reset_state_def zero_queue_def)
  with queue_receive_refines_fifo [OF queue_state_inv queue_state_apart c _ p] p queue_state_inv queue_state_apart c
  show ?thesis by simp
qed

text \<open>The counters of sends from interrupts: only \<open>JRT_QueueSendFromISR\<close> writes them.\<close>

lemma isr_counters_frame [simp]:
  "g_isr_queue_send_attempted (cs_enter s) = g_isr_queue_send_attempted s"
  "g_isr_queue_send_accepted (cs_enter s) = g_isr_queue_send_accepted s"
  "g_isr_queue_send_dropped (cs_enter s) = g_isr_queue_send_dropped s"
  "g_isr_queue_count_high_water (cs_enter s) = g_isr_queue_count_high_water s"
  "g_isr_queue_send_attempted (arch_critical_exit p s) = g_isr_queue_send_attempted s"
  "g_isr_queue_send_accepted (arch_critical_exit p s) = g_isr_queue_send_accepted s"
  "g_isr_queue_send_dropped (arch_critical_exit p s) = g_isr_queue_send_dropped s"
  "g_isr_queue_count_high_water (arch_critical_exit p s) = g_isr_queue_count_high_water s"
  "g_isr_queue_send_attempted (wake_receiver queue s) = g_isr_queue_send_attempted s"
  "g_isr_queue_send_accepted (wake_receiver queue s) = g_isr_queue_send_accepted s"
  "g_isr_queue_send_dropped (wake_receiver queue s) = g_isr_queue_send_dropped s"
  "g_isr_queue_count_high_water (wake_receiver queue s) = g_isr_queue_count_high_water s"
  by (simp_all add: cs_enter_def arch_critical_exit_eq wake_receiver_def case_prod_beta task_wake_def
      task_wake_get_id_eq set_queue_def Let_def)

lemma copy_in_isr_counters:
  "g_isr_queue_send_attempted (queue_copy_in queue item res s) = g_isr_queue_send_attempted s"
  "g_isr_queue_send_accepted (queue_copy_in queue item res s) = g_isr_queue_send_accepted s"
  "g_isr_queue_send_dropped (queue_copy_in queue item res s) = g_isr_queue_send_dropped s"
  "g_isr_queue_count_high_water (queue_copy_in queue item res s) = g_isr_queue_count_high_water s"
  by (simp_all add: queue_copy_in_def set_queue_def Let_def)

lemma send_ready_room:
  assumes "queue_inv queue s"
  shows "queue_send_ready (queues s queue) 0 \<longleftrightarrow>
    unat (q_count (queues s queue)) + unat (q_send_reservations (queues s queue)) < unat (q_capacity (queues s queue))"
proof -
  let ?q = "queues s queue"
  have ok: "ring_ok ?q" and sum: "unat (q_count ?q) + unat (q_send_reservations ?q) \<le> unat (q_capacity ?q)"
    using assms by (auto simp: queue_inv_def Let_def)
  then have "unat (q_count ?q + q_send_reservations ?q) = unat (q_count ?q) + unat (q_send_reservations ?q)"
    using unat_le32 [of "q_capacity ?q"] by (intro unat_add_small) linarith
  with ok show ?thesis by (auto simp: queue_send_ready_def ring_ok_def word_less_unat)
qed

lemma send_from_isr_full:
  assumes "ipsr s \<noteq> 0" and "\<not> queue_send_ready (queues s queue) 0"
  shows "JRT_QueueSendFromISR queue item s = (0, arch_critical_exit (primask s)
    ((cs_enter s)\<lparr>g_isr_queue_send_attempted := g_isr_queue_send_attempted s + 1,
       g_isr_queue_send_dropped := g_isr_queue_send_dropped s + 1\<rparr>))"
  using assms by (simp add: JRT_QueueSendFromISR_def arch_critical_enter_eq arch_in_isr_def)

lemma send_from_isr_room:
  assumes "ring_ok (queues s queue)" and "item_apart queue item s" and "ipsr s \<noteq> 0" and "queue_send_ready (queues s queue) 0"
  shows "JRT_QueueSendFromISR queue item s = (1, arch_request_switch (arch_critical_exit (primask s) (wake_receiver queue
    ((queue_copy_in queue item 0 ((cs_enter s)\<lparr>g_isr_queue_send_attempted := g_isr_queue_send_attempted s + 1\<rparr>))
      \<lparr>g_isr_queue_send_accepted := g_isr_queue_send_accepted s + 1,
       g_isr_queue_count_high_water := max (q_count (queues s queue) + 1) (g_isr_queue_count_high_water s)\<rparr>))))"
proof -
  let ?q = "queues s queue"
  let ?e = "(cs_enter s)\<lparr>g_isr_queue_send_attempted := g_isr_queue_send_attempted s + 1\<rparr>"
  let ?u = "queue_copy_in queue item 0 ?e"
  let ?a = "?u\<lparr>g_isr_queue_send_accepted := g_isr_queue_send_accepted s + 1\<rparr>"
  obtain q' m' where put: "ring_put (read_item (mem8 s) item (q_item_size ?q)) (?q, mem8 s) = (q', m')" by fastforce
  then have cnt: "q_count q' = q_count ?q + 1" by (auto simp: ring_put_def)
  have "item_apart queue item ?e" using assms(2) by (simp add: item_apart_def)
  with queue_copy_in_ring [of ?e queue item 0] assms(1) put
  have u: "?u = ?e\<lparr>queues := (queues s)(queue := q'), mem8 := m'\<rparr>" by (simp add: release_send_def)
  have acc: "g_isr_queue_send_accepted ?u = g_isr_queue_send_accepted s" by (simp add: u)
  have "g_isr_queue_count_high_water ?a = g_isr_queue_count_high_water s" by (simp add: u)
  then have keep: "?a\<lparr>g_isr_queue_count_high_water := g_isr_queue_count_high_water s\<rparr> = ?a"
    by (metis sync_state.surjective sync_state.update_convs(18))
  have high: "(if q_count (queues ?a queue) > g_isr_queue_count_high_water ?a
      then ?a\<lparr>g_isr_queue_count_high_water := q_count (queues ?a queue)\<rparr> else ?a)
    = ?a\<lparr>g_isr_queue_count_high_water := max (q_count ?q + 1) (g_isr_queue_count_high_water s)\<rparr>"
  proof (cases "q_count ?q + 1 > g_isr_queue_count_high_water s")
    case True
    then show ?thesis by (simp add: u cnt max_def)
  next
    case False
    then have "max (q_count ?q + 1) (g_isr_queue_count_high_water s) = g_isr_queue_count_high_water s" by (simp add: max_def not_less)
    with False keep show ?thesis by (simp add: u cnt)
  qed
  have no: "(arch_in_isr s = 0) = False" "queues ?e = queues s"
    "g_isr_queue_send_attempted (cs_enter s) = g_isr_queue_send_attempted s"
    using assms(3) by (simp_all add: arch_in_isr_def)
  show ?thesis
    unfolding JRT_QueueSendFromISR_def Let_def arch_critical_enter_eq prod.case
    by (simp only: no assms(4) acc high if_True if_False)
qed

text \<open>C26: a send from an interrupt handler never blocks: it appends the item and requests a context
  switch if a slot is free beyond the promised ones, and otherwise drops it without touching the
  queue. Every attempt is counted exactly once, as accepted or as dropped, and the high-water mark
  follows the count; the queue contract is kept.\<close>

theorem queue_send_from_isr_exact:
  assumes "queue_inv queue s" and "item_apart queue item s" and "ipsr s \<noteq> 0"
    and "JRT_QueueSendFromISR queue item s = (r, s')"
  shows "queue_inv queue s' \<and> g_isr_queue_send_attempted s' = g_isr_queue_send_attempted s + 1
    \<and> (if unat (q_count (queues s queue)) + unat (q_send_reservations (queues s queue))
          < unat (q_capacity (queues s queue))
       then r = 1 \<and> ring_contents (ring_of queue s') =
           ring_contents (ring_of queue s) @ [read_item (mem8 s) item (q_item_size (queues s queue))]
         \<and> g_isr_queue_send_accepted s' = g_isr_queue_send_accepted s + 1
         \<and> g_isr_queue_send_dropped s' = g_isr_queue_send_dropped s
         \<and> q_count (queues s queue) + 1 \<le> g_isr_queue_count_high_water s' \<and> pendsv_pending s'
       else r = 0 \<and> ring_contents (ring_of queue s') = ring_contents (ring_of queue s) \<and> tasks s' = tasks s
         \<and> g_isr_queue_send_accepted s' = g_isr_queue_send_accepted s
         \<and> g_isr_queue_send_dropped s' = g_isr_queue_send_dropped s + 1)"
proof -
  let ?q = "queues s queue"
  let ?e = "(cs_enter s)\<lparr>g_isr_queue_send_attempted := g_isr_queue_send_attempted s + 1\<rparr>"
  have ok: "ring_ok ?q" using assms(1) by (simp add: queue_inv_def Let_def)
  have e: "queue_inv queue ?e" "item_apart queue item ?e" "queues ?e = queues s" "mem8 ?e = mem8 s"
    using assms(1,2) queue_inv_cong [of ?e queue s] by (simp_all add: item_apart_def)
  show ?thesis
  proof (cases "queue_send_ready ?q 0")
    case False
    with send_from_isr_full [OF assms(3)] assms(4)
    have "r = 0" "s' = arch_critical_exit (primask s) (?e\<lparr>g_isr_queue_send_dropped := g_isr_queue_send_dropped s + 1\<rparr>)"
      by simp_all
    with False send_ready_room [OF assms(1)] e queue_inv_cong [of "?e\<lparr>g_isr_queue_send_dropped := g_isr_queue_send_dropped s + 1\<rparr>" queue ?e]
    show ?thesis by (simp add: ring_of_def)
  next
    case True
    let ?u = "queue_copy_in queue item 0 ?e"
    define h where "h = max (q_count ?q + 1) (g_isr_queue_count_high_water s)"
    let ?h = "?u\<lparr>g_isr_queue_send_accepted := g_isr_queue_send_accepted s + 1, g_isr_queue_count_high_water := h\<rparr>"
    have s': "r = 1" "s' = arch_request_switch (arch_critical_exit (primask s) (wake_receiver queue ?h))"
      using send_from_isr_room [OF ok assms(2,3) True] assms(4) by (simp_all add: h_def)
    have wr: "queues (wake_receiver queue ?h) = queues (wake_receiver queue ?u)"
      "tasks (wake_receiver queue ?h) = tasks (wake_receiver queue ?u)"
      "task_count (wake_receiver queue ?h) = task_count (wake_receiver queue ?u)"
      "mem8 (wake_receiver queue ?h) = mem8 (wake_receiver queue ?u)"
      by (simp_all add: wake_receiver_fields kernel_waiters_def woken_tasks_def best_waiter_def)
    note send = send_step [OF e(1,2), of 0]
    have "queue_inv queue (wake_receiver queue ?h)"
      using queue_inv_cong [OF _ wr(2,3)] wr(1) send(1) True e(3) by simp
    moreover have "queue_inv queue s' = queue_inv queue (wake_receiver queue ?h)"
      by (rule queue_inv_cong) (simp_all add: s')
    moreover have "ring_contents (ring_of queue s') =
        ring_contents (ring_of queue s) @ [read_item (mem8 s) item (q_item_size ?q)]"
      using send(2) True e(3,4) wr by (simp add: ring_of_def s')
    moreover have "g_isr_queue_send_attempted ?u = g_isr_queue_send_attempted s + 1"
      "g_isr_queue_send_dropped ?u = g_isr_queue_send_dropped s" by (simp_all add: copy_in_isr_counters)
    moreover have "q_count ?q + 1 \<le> h" by (simp add: h_def)
    ultimately show ?thesis using True send_ready_room [OF assms(1)]
      by (simp add: s' arch_request_switch_def request_switch_def)
  qed
qed

theorem queue_send_from_isr_witness:
  "queue_inv 0x500 (queue_state\<lparr>ipsr := 16\<rparr>) \<and> item_apart 0x500 0x700 (queue_state\<lparr>ipsr := 16\<rparr>)
   \<and> fst (JRT_QueueSendFromISR 0x500 0x700 (queue_state\<lparr>ipsr := 16\<rparr>)) = 1"
proof -
  let ?s = "queue_state\<lparr>ipsr := 16\<rparr>"
  have h: "queue_inv 0x500 ?s" "item_apart 0x500 0x700 ?s" "ipsr ?s \<noteq> 0"
    using queue_state_inv queue_state_apart queue_inv_cong [of ?s "0x500" queue_state]
    by (simp_all add: item_apart_def)
  obtain r s' where p: "JRT_QueueSendFromISR 0x500 0x700 ?s = (r, s')" by fastforce
  have "unat (q_count (queues ?s 0x500)) + unat (q_send_reservations (queues ?s 0x500))
      < unat (q_capacity (queues ?s 0x500))"
    by (simp add: queue_state_def zero_queue_def)
  with queue_send_from_isr_exact [OF h p] h p show ?thesis by simp
qed

end
