(* ===== verification/JRT_Mempool.thy ===== *)
theory JRT_Mempool
  imports JRT_Wait
begin

text \<open>
  Fixed-block memory pools (\<open>kernel/mempool.c\<close>): a storage of \<open>block_count\<close> blocks of
  \<open>block_size\<close> bytes and a bitmap with one bit per block, in \<open>mem32\<close>. The contract of an
  allocator is stated as the interface \<open>block_allocator\<close>, with what follows from it for every
  sequence of allocations and frees, and interpreted on the pool.
\<close>

section \<open>Operations\<close>

definition bitmap_words :: "u32 \<Rightarrow> u32" where
  "bitmap_words block_count = (block_count + 31) div 32"

definition JRT_MemoryPoolCreateStatic ::
  "addr \<Rightarrow> addr \<Rightarrow> u32 \<Rightarrow> u32 \<Rightarrow> addr \<Rightarrow> kstate \<Rightarrow> kstate" where
  "JRT_MemoryPoolCreateStatic pool storage block_size block_count used_bitmap s =
    (if pool = NULL \<or> storage = NULL \<or> used_bitmap = NULL \<or> block_size < 4 \<or> block_count = 0
     then s
     else
       let s = s\<lparr>pools := (pools s)(pool := \<lparr>mp_storage = storage, mp_used_bitmap = used_bitmap,
                   mp_block_size = block_size, mp_block_count = block_count\<rparr>)\<rparr>
       in s\<lparr>mem32 := for_upto (bitmap_words block_count)
                  (\<lambda>index m. m(used_bitmap + 4 * index := 0)) (mem32 s)\<rparr>)"

text \<open>\<open>used_bitmap[index / 32U]\<close> and \<open>1UL << (index % 32U)\<close>\<close>

definition bitmap_word :: "addr \<Rightarrow> u32 \<Rightarrow> addr" where
  "bitmap_word used_bitmap index = used_bitmap + 4 * (index div 32)"

definition bitmap_mask :: "u32 \<Rightarrow> u32" where
  "bitmap_mask index = push_bit (unat (index mod 32)) 1"

definition block_used :: "(addr \<Rightarrow> u32) \<Rightarrow> addr \<Rightarrow> u32 \<Rightarrow> bool" where
  "block_used m used_bitmap index \<longleftrightarrow> m (bitmap_word used_bitmap index) AND bitmap_mask index \<noteq> 0"

text \<open>The search loop from \<open>index\<close>: the first free block, or none.\<close>

function allocate_loop :: "(addr \<Rightarrow> u32) \<Rightarrow> addr \<Rightarrow> u32 \<Rightarrow> u32 \<Rightarrow> u32 option" where
  "allocate_loop m used_bitmap block_count index =
    (if index < block_count
     then if \<not> block_used m used_bitmap index then Some index
          else allocate_loop m used_bitmap block_count (index + 1)
     else None)"
  by pat_completeness auto
termination
proof (relation "measure (\<lambda>(m, b, n, i). unat n - unat i)", goal_cases)
  case (2 m b n i)
  then have "unat (i + 1) = unat i + 1" "unat i < unat n"
    using unat_le32 [of n] by (auto simp: word_less_unat unat_suc_small)
  then show ?case by simp
qed simp

declare allocate_loop.simps [simp del]

definition JRT_MemoryPoolAllocate :: "addr \<Rightarrow> kstate \<Rightarrow> addr \<times> kstate" where
  "JRT_MemoryPoolAllocate pool s =
    (let p = pools s pool
     in if pool = NULL \<or> mp_storage p = NULL \<or> mp_used_bitmap p = NULL then (NULL, s)
     else
       let (saved_primask, s) = arch_critical_enter s
       in case allocate_loop (mem32 s) (mp_used_bitmap p) (mp_block_count p) 0 of
            Some index \<Rightarrow>
              let word = bitmap_word (mp_used_bitmap p) index;
                  s = s\<lparr>mem32 := (mem32 s)(word := mem32 s word OR bitmap_mask index)\<rparr>
              in (mp_storage p + index * mp_block_size p, arch_critical_exit saved_primask s)
          | None \<Rightarrow> (NULL, arch_critical_exit saved_primask s))"

definition JRT_MemoryPoolFree :: "addr \<Rightarrow> addr \<Rightarrow> kstate \<Rightarrow> int \<times> kstate" where
  "JRT_MemoryPoolFree pool block s =
    (let p = pools s pool
     in if pool = NULL \<or> block = NULL \<or> mp_storage p = NULL \<or> mp_used_bitmap p = NULL
           \<or> mp_block_size p = 0
     then (0, s)
     else
       let start = mp_storage p
       in if block < start \<or> block \<ge> start + mp_block_size p * mp_block_count p then (0, s)
       else
         let off = block - start
         in if off mod mp_block_size p \<noteq> 0 then (0, s)
         else
           let index = off div mp_block_size p;
               word = bitmap_word (mp_used_bitmap p) index;
               mask = bitmap_mask index;
               (saved_primask, s) = arch_critical_enter s
           in if mem32 s word AND mask = 0 then (0, arch_critical_exit saved_primask s)
              else (1, arch_critical_exit saved_primask
                         (s\<lparr>mem32 := (mem32 s)(word := mem32 s word AND NOT mask)\<rparr>)))"

section \<open>The bitmap\<close>

lemma unat_mod_32: "unat ((i :: u32) mod 32) = unat i mod 32" "unat ((i :: u32) mod 32) < 32"
  by (simp_all add: unat_mod32)

lemma bitmap_mask_exp: "bitmap_mask i = 2 ^ unat (i mod 32)"
  by (simp add: bitmap_mask_def push_bit_eq_mult)

lemma bit_bitmap_mask: "bit (bitmap_mask i) k \<longleftrightarrow> k = unat (i mod 32)"
  using unat_mod_32(2) [of i] by (auto simp: bitmap_mask_exp bit_exp_iff)

lemma block_used_bit: "block_used m b i \<longleftrightarrow> bit (m (bitmap_word b i)) (unat (i mod 32))"
  by (simp add: block_used_def bitmap_mask_exp and_exp_eq_0_iff_not_bit)

lemma same_bit:
  assumes "bitmap_word b i = bitmap_word b j" and "unat (i mod 32) = unat (j mod 32)"
  shows "i = j"
proof -
  have u: "unat (4 * (k div 32) :: u32) = 4 * (unat k div 32)" for k :: u32
    using unat_le32 [of k] by (subst unat_mult_small) (simp_all add: unat_div32)
  have "unat (4 * (i div 32) :: u32) = unat (4 * (j div 32) :: u32)"
    using assms(1) by (simp add: bitmap_word_def)
  then have "unat i div 32 = unat j div 32" by (simp only: u)
  moreover have "unat i mod 32 = unat j mod 32" using assms(2) by (simp add: unat_mod_32)
  ultimately have "unat i = unat j" by (metis div_mult_mod_eq)
  then show ?thesis by (simp add: word_eq_unat)
qed

lemma block_used_set:
  "block_used (m(bitmap_word b i := m (bitmap_word b i) OR bitmap_mask i)) b j \<longleftrightarrow> j = i \<or> block_used m b j"
proof (cases "bitmap_word b j = bitmap_word b i")
  case True
  then show ?thesis
    using same_bit [OF True] unat_mod_32(2) [of j]
    by (auto simp: block_used_bit bit_or_iff bit_bitmap_mask)
qed (auto simp: block_used_bit)

lemma block_used_clear:
  "block_used (m(bitmap_word b i := m (bitmap_word b i) AND NOT (bitmap_mask i))) b j \<longleftrightarrow> j \<noteq> i \<and> block_used m b j"
proof (cases "bitmap_word b j = bitmap_word b i")
  case True
  then show ?thesis
    using same_bit [OF True] unat_mod_32(2) [of j]
    by (auto simp: block_used_bit bit_and_iff bit_not_iff bit_bitmap_mask)
qed (auto simp: block_used_bit)

lemma allocate_loop_some:
  "allocate_loop m b n i = Some k \<Longrightarrow>
     k < n \<and> i \<le> k \<and> \<not> block_used m b k \<and> (\<forall>j. i \<le> j \<longrightarrow> j < k \<longrightarrow> block_used m b j)"
proof (induction m b n i rule: allocate_loop.induct)
  case (1 m b n i)
  show ?case
  proof (cases "i < n \<and> block_used m b i")
    case True
    then have s: "unat (i + 1) = unat i + 1"
      using unat_le32 [of n] by (auto simp: word_less_unat unat_suc_small)
    from True 1 have k: "k < n" "i + 1 \<le> k" "\<not> block_used m b k"
        "\<forall>j. i + 1 \<le> j \<longrightarrow> j < k \<longrightarrow> block_used m b j"
      by (simp_all add: allocate_loop.simps [of m b n i])
    have "i + 1 \<le> j \<or> i = j" if "i \<le> j" for j
      using that s by (auto simp: word_le_unat word_eq_unat)
    moreover have "i \<le> k" using k(2) s by (simp add: word_le_unat)
    ultimately show ?thesis using True k by blast
  next
    case False
    with 1 show ?thesis by (auto simp: allocate_loop.simps [of m b n i] split: if_splits)
  qed
qed

lemma allocate_loop_none:
  "allocate_loop m b n i = None \<Longrightarrow> i \<le> j \<Longrightarrow> j < n \<Longrightarrow> block_used m b j"
proof (induction m b n i rule: allocate_loop.induct)
  case (1 m b n i)
  then have "i < n" by simp
  with 1 have u: "block_used m b i" and r: "allocate_loop m b n (i + 1) = None"
    by (auto simp: allocate_loop.simps [of m b n i] split: if_splits)
  have "unat (i + 1) = unat i + 1"
    using \<open>i < n\<close> unat_le32 [of n] by (auto simp: word_less_unat unat_suc_small)
  with 1 u r \<open>i < n\<close> show ?case
    by (cases "i = j") (auto simp: word_le_unat word_eq_unat)
qed

section \<open>The allocator interface\<close>

text \<open>
  What a client of an allocator may rely on: there is a fixed set of blocks; an allocation takes
  one that is not live and fails only when all are; a free succeeds exactly on a live block. The
  reference allocator \<open>permitted\<close> replays the outcomes of a history on the set of live blocks.
\<close>

datatype 'b request = Request | Return 'b
datatype 'b outcome = Got "'b option" | Gave 'b bool

fun serve :: "('s \<Rightarrow> 'b option \<times> 's) \<Rightarrow> ('b \<Rightarrow> 's \<Rightarrow> bool \<times> 's) \<Rightarrow> 'b request list \<Rightarrow> 's
    \<Rightarrow> 'b outcome list \<times> 's" where
  "serve alloc free [] s = ([], s)"
| "serve alloc free (Request # rs) s =
    (let (b, s) = alloc s; (os, s) = serve alloc free rs s in (Got b # os, s))"
| "serve alloc free (Return b # rs) s =
    (let (ok, s) = free b s; (os, s) = serve alloc free rs s in (Gave b ok # os, s))"

fun permitted :: "'b set \<Rightarrow> 'b set \<Rightarrow> 'b outcome list \<Rightarrow> 'b set \<Rightarrow> bool" where
  "permitted B H [] H' \<longleftrightarrow> H' = H"
| "permitted B H (Got None # os) H' \<longleftrightarrow> H = B \<and> permitted B H os H'"
| "permitted B H (Got (Some b) # os) H' \<longleftrightarrow> b \<in> B \<and> b \<notin> H \<and> permitted B (insert b H) os H'"
| "permitted B H (Gave b r # os) H' \<longleftrightarrow> r = (b \<in> H) \<and> permitted B (H - {b}) os H'"

locale block_allocator =
  fixes ok :: "'s \<Rightarrow> bool" and blocks :: "'s \<Rightarrow> 'b set" and live :: "'s \<Rightarrow> 'b set"
    and alloc :: "'s \<Rightarrow> 'b option \<times> 's" and free :: "'b \<Rightarrow> 's \<Rightarrow> bool \<times> 's"
  assumes finite_blocks: "finite (blocks s)"
    and live_blocks: "live s \<subseteq> blocks s"
    and alloc_ok: "ok s \<Longrightarrow> ok (snd (alloc s)) \<and> blocks (snd (alloc s)) = blocks s"
    and free_ok: "ok s \<Longrightarrow> ok (snd (free b s)) \<and> blocks (snd (free b s)) = blocks s"
    and alloc_full: "ok s \<Longrightarrow> live s = blocks s \<Longrightarrow> fst (alloc s) = None \<and> live (snd (alloc s)) = live s"
    and alloc_room: "ok s \<Longrightarrow> live s \<noteq> blocks s \<Longrightarrow>
      \<exists>b. fst (alloc s) = Some b \<and> b \<in> blocks s - live s \<and> live (snd (alloc s)) = insert b (live s)"
    and free_live: "ok s \<Longrightarrow> fst (free b s) = (b \<in> live s) \<and> live (snd (free b s)) = live s - {b}"
begin

lemma history:
  "ok s \<Longrightarrow> serve alloc free rs s = (os, t) \<Longrightarrow>
     permitted (blocks s) (live s) os (live t) \<and> ok t \<and> blocks t = blocks s"
proof (induction rs arbitrary: s os)
  case Nil
  then show ?case by simp
next
  case (Cons r rs)
  show ?case
  proof (cases r)
    case Request
    let ?u = "snd (alloc s)"
    obtain os' where o: "serve alloc free rs ?u = (os', t)" "os = Got (fst (alloc s)) # os'"
      using Cons.prems(2) Request by (cases "serve alloc free rs ?u") (simp add: prod.case_eq_if)
    have u: "ok ?u" "blocks ?u = blocks s" using alloc_ok [OF Cons.prems(1)] by auto
    show ?thesis
      using Cons.IH [OF u(1) o(1)] u o(2) alloc_full [OF Cons.prems(1)] alloc_room [OF Cons.prems(1)]
      by (cases "live s = blocks s") auto
  next
    case (Return b)
    let ?u = "snd (free b s)"
    obtain os' where o: "serve alloc free rs ?u = (os', t)" "os = Gave b (fst (free b s)) # os'"
      using Cons.prems(2) Return by (cases "serve alloc free rs ?u") (simp add: prod.case_eq_if)
    have u: "ok ?u" "blocks ?u = blocks s" using free_ok [OF Cons.prems(1)] by auto
    show ?thesis using Cons.IH [OF u(1) o(1)] u o(2) free_live [OF Cons.prems(1), of b] by simp
  qed
qed

text \<open>A block that was freed can be allocated again; the allocator is never full then.\<close>

lemma room_after_free:
  assumes "ok s" and "b \<in> live s"
  shows "\<exists>c. fst (alloc (snd (free b s))) = Some c \<and> c \<notin> live s - {b}"
proof -
  have f: "ok (snd (free b s))" "blocks (snd (free b s)) = blocks s" "live (snd (free b s)) = live s - {b}"
    using assms free_ok free_live by auto
  then have "live (snd (free b s)) \<noteq> blocks (snd (free b s))" using assms live_blocks [of s] by auto
  from alloc_room [OF f(1) this] f show ?thesis by auto
qed

text \<open>From any state, exactly the free blocks can be allocated, each once.\<close>

lemma capacity:
  "ok s \<Longrightarrow> card (blocks s - live s) = n \<Longrightarrow>
     \<exists>bs t. serve alloc free (replicate n Request) s = (map (\<lambda>b. Got (Some b)) bs, t)
       \<and> distinct bs \<and> set bs = blocks s - live s \<and> fst (alloc t) = None"
proof (induction n arbitrary: s)
  case 0
  then have "live s = blocks s" using finite_blocks live_blocks [of s] by auto
  with 0 alloc_full [of s] show ?case by simp
next
  case (Suc n)
  then have "live s \<noteq> blocks s" by auto
  then obtain b where b: "fst (alloc s) = Some b" "b \<in> blocks s - live s" "live (snd (alloc s)) = insert b (live s)"
    using alloc_room [OF Suc.prems(1)] by blast
  let ?u = "snd (alloc s)"
  have u: "ok ?u" "blocks ?u = blocks s" using alloc_ok [OF Suc.prems(1)] by auto
  have rest: "blocks ?u - live ?u = (blocks s - live s) - {b}" using u b by auto
  then have "card (blocks ?u - live ?u) = n" using Suc.prems(2) b(2) finite_blocks by simp
  from Suc.IH [OF u(1) this] obtain bs t where bs: "serve alloc free (replicate n Request) ?u = (map (\<lambda>b. Got (Some b)) bs, t)"
    "distinct bs" "set bs = blocks ?u - live ?u" "fst (alloc t) = None" by blast
  have "serve alloc free (replicate (Suc n) Request) s = (map (\<lambda>b. Got (Some b)) (b # bs), t)"
    using bs(1) b(1) by (simp add: prod.case_eq_if)
  moreover have "distinct (b # bs)" "set (b # bs) = blocks s - live s" using bs(2,3) rest b(2) by auto
  ultimately show ?case using bs(4) by blast
qed

end

section \<open>The pool as an allocator\<close>

definition pool_block :: "addr \<Rightarrow> kstate \<Rightarrow> u32 \<Rightarrow> addr" where
  "pool_block pool s i = mp_storage (pools s pool) + i * mp_block_size (pools s pool)"

definition pool_used :: "addr \<Rightarrow> kstate \<Rightarrow> u32 set" where
  "pool_used pool s = {i. i < mp_block_count (pools s pool) \<and> block_used (mem32 s) (mp_used_bitmap (pools s pool)) i}"

definition pool_blocks :: "addr \<Rightarrow> kstate \<Rightarrow> addr set" where
  "pool_blocks pool s = pool_block pool s ` {i. i < mp_block_count (pools s pool)}"

definition pool_live :: "addr \<Rightarrow> kstate \<Rightarrow> addr set" where
  "pool_live pool s = pool_block pool s ` pool_used pool s"

text \<open>A pool that was created and whose storage lies within the address space.\<close>

definition pool_ok :: "addr \<Rightarrow> kstate \<Rightarrow> bool" where
  "pool_ok pool s \<longleftrightarrow> (let p = pools s pool in
     pool \<noteq> NULL \<and> mp_storage p \<noteq> NULL \<and> mp_used_bitmap p \<noteq> NULL \<and> mp_block_size p \<noteq> 0
     \<and> unat (mp_storage p) + unat (mp_block_size p) * unat (mp_block_count p) < 4294967296)"

lemma pool_end:
  assumes "pool_ok pool s"
  defines "p \<equiv> pools s pool"
  shows "unat (mp_storage p + mp_block_size p * mp_block_count p) =
    unat (mp_storage p) + unat (mp_block_size p) * unat (mp_block_count p)"
proof -
  have "unat (mp_block_size p * mp_block_count p) = unat (mp_block_size p) * unat (mp_block_count p)"
    using assms by (intro unat_mult_small) (simp add: pool_ok_def Let_def)
  with assms show ?thesis by (simp add: pool_ok_def Let_def unat_add_small)
qed

lemma unat_pool_block:
  assumes "pool_ok pool s" and "i < mp_block_count (pools s pool)"
  shows "unat (pool_block pool s i) =
    unat (mp_storage (pools s pool)) + unat i * unat (mp_block_size (pools s pool))"
    and "unat (pool_block pool s i) + unat (mp_block_size (pools s pool))
      \<le> unat (mp_storage (pools s pool)) + unat (mp_block_size (pools s pool)) * unat (mp_block_count (pools s pool))"
proof -
  let ?p = "pools s pool"
  have "(unat i + 1) * unat (mp_block_size ?p) \<le> unat (mp_block_count ?p) * unat (mp_block_size ?p)"
    using assms(2) by (intro mult_le_mono1) (simp add: word_less_unat)
  then have le: "unat i * unat (mp_block_size ?p) + unat (mp_block_size ?p) \<le> unat (mp_block_size ?p) * unat (mp_block_count ?p)"
    by (simp add: algebra_simps)
  have lt: "unat (mp_storage ?p) + unat (mp_block_size ?p) * unat (mp_block_count ?p) < 4294967296"
    using assms(1) by (simp add: pool_ok_def Let_def)
  have m: "unat (i * mp_block_size ?p) = unat i * unat (mp_block_size ?p)"
    using le lt by (intro unat_mult_small) linarith
  then show eq: "unat (pool_block pool s i) = unat (mp_storage ?p) + unat i * unat (mp_block_size ?p)"
    unfolding pool_block_def using le lt by (subst unat_add_small) linarith+
  show "unat (pool_block pool s i) + unat (mp_block_size ?p)
      \<le> unat (mp_storage ?p) + unat (mp_block_size ?p) * unat (mp_block_count ?p)"
    using eq le by linarith
qed

lemma pool_block_inj:
  assumes "pool_ok pool s"
  shows "inj_on (pool_block pool s) {i. i < mp_block_count (pools s pool)}"
proof (rule inj_onI)
  fix i j assume ij: "i \<in> {i. i < mp_block_count (pools s pool)}" "j \<in> {i. i < mp_block_count (pools s pool)}"
    and e: "pool_block pool s i = pool_block pool s j"
  have "unat (mp_block_size (pools s pool)) \<noteq> 0"
    using assms by (simp add: pool_ok_def Let_def unat_eq_zero)
  then show "i = j"
    using ij e unat_pool_block(1) [OF assms] by (auto simp: word_eq_unat)
qed

text \<open>Two blocks of a pool do not overlap, and both lie inside its storage.\<close>

definition block_bytes :: "u32 \<Rightarrow> addr \<Rightarrow> nat set" where
  "block_bytes block_size b = {unat b ..< unat b + unat block_size}"

lemma pool_blocks_apart:
  assumes ok: "pool_ok pool s" and "a \<in> pool_blocks pool s" and "b \<in> pool_blocks pool s" and "a \<noteq> b"
  shows "block_bytes (mp_block_size (pools s pool)) a \<inter> block_bytes (mp_block_size (pools s pool)) b = {}"
proof -
  let ?z = "unat (mp_block_size (pools s pool))"
  have apart: "unat i * ?z + ?z \<le> unat j * ?z" if "unat i < unat j" for i j :: u32
    using mult_le_mono1 [of "unat i + 1" "unat j" ?z] that by simp
  obtain i j where ij: "a = pool_block pool s i" "b = pool_block pool s j"
      "i < mp_block_count (pools s pool)" "j < mp_block_count (pools s pool)" "i \<noteq> j"
    using assms by (auto simp: pool_blocks_def)
  then have "unat i < unat j \<or> unat j < unat i" by (auto simp: word_eq_unat)
  then show ?thesis
    using apart [of i j] apart [of j i] ij unat_pool_block(1) [OF ok]
    by (auto simp: block_bytes_def)
qed

lemma pool_cong:
  assumes "pools t = pools s"
  shows "pool_ok pool t = pool_ok pool s" "pool_block pool t = pool_block pool s" "pool_blocks pool t = pool_blocks pool s"
  using assms by (simp_all add: pool_ok_def pool_block_def pool_blocks_def fun_eq_iff)

lemma pool_null: "pool_ok pool s \<Longrightarrow> NULL \<notin> pool_blocks pool s"
proof
  assume ok: "pool_ok pool s" and "NULL \<in> pool_blocks pool s"
  then obtain i where "pool_block pool s i = 0" "i < mp_block_count (pools s pool)" by (auto simp: pool_blocks_def)
  with unat_pool_block(1) [OF ok this(2)] have "unat (mp_storage (pools s pool)) = 0" by simp
  with ok show False by (simp add: pool_ok_def Let_def unat_eq_zero)
qed

lemma allocate_cases:
  assumes ok: "pool_ok pool s"
  obtains (full) "pool_used pool s = {i. i < mp_block_count (pools s pool)}"
      "fst (JRT_MemoryPoolAllocate pool s) = NULL" "pools (snd (JRT_MemoryPoolAllocate pool s)) = pools s"
      "pool_used pool (snd (JRT_MemoryPoolAllocate pool s)) = pool_used pool s"
    | (room) i where "i < mp_block_count (pools s pool)" "i \<notin> pool_used pool s" "\<forall>j<i. j \<in> pool_used pool s"
      "fst (JRT_MemoryPoolAllocate pool s) = pool_block pool s i"
      "pools (snd (JRT_MemoryPoolAllocate pool s)) = pools s"
      "pool_used pool (snd (JRT_MemoryPoolAllocate pool s)) = insert i (pool_used pool s)"
proof (cases "allocate_loop (mem32 s) (mp_used_bitmap (pools s pool)) (mp_block_count (pools s pool)) 0")
  case None
  have "JRT_MemoryPoolAllocate pool s = (NULL, arch_critical_exit (primask s) (cs_enter s))"
    using ok None by (simp add: JRT_MemoryPoolAllocate_def pool_ok_def Let_def arch_critical_enter_eq)
  moreover have "pool_used pool s = {i. i < mp_block_count (pools s pool)}"
    using allocate_loop_none [OF None] by (auto simp: pool_used_def)
  ultimately show thesis by (intro full) (simp_all add: pool_used_def)
next
  case (Some i)
  let ?p = "pools s pool"
  let ?w = "bitmap_word (mp_used_bitmap ?p) i"
  from allocate_loop_some [OF Some] have i: "i < mp_block_count ?p"
    "\<not> block_used (mem32 s) (mp_used_bitmap ?p) i"
    "\<forall>j<i. block_used (mem32 s) (mp_used_bitmap ?p) j" by auto
  have e: "JRT_MemoryPoolAllocate pool s = (pool_block pool s i, arch_critical_exit (primask s)
      ((cs_enter s)\<lparr>mem32 := (mem32 s)(?w := mem32 s ?w OR bitmap_mask i)\<rparr>))"
    using ok Some by (simp add: JRT_MemoryPoolAllocate_def pool_ok_def Let_def arch_critical_enter_eq pool_block_def)
  show thesis
  proof (rule room [of i])
    show "\<forall>j<i. j \<in> pool_used pool s" using i by (auto simp: pool_used_def)
    show "pool_used pool (snd (JRT_MemoryPoolAllocate pool s)) = insert i (pool_used pool s)"
      using i(1) by (auto simp: e pool_used_def block_used_set)
  qed (use i e in \<open>simp_all add: pool_used_def\<close>)
qed

text \<open>The address checks of the free, and the index it computes.\<close>

definition pool_inside :: "JRT_MemoryPool_t \<Rightarrow> addr \<Rightarrow> bool" where
  "pool_inside p b \<longleftrightarrow>
     \<not> (b < mp_storage p \<or> b \<ge> mp_storage p + mp_block_size p * mp_block_count p)
     \<and> \<not> (b - mp_storage p) mod mp_block_size p \<noteq> 0"

definition pool_index :: "JRT_MemoryPool_t \<Rightarrow> addr \<Rightarrow> u32" where
  "pool_index p b = (b - mp_storage p) div mp_block_size p"

lemma free_eq:
  fixes b :: addr
  assumes "pool_ok pool s"
  defines "p \<equiv> pools s pool"
  defines "w \<equiv> bitmap_word (mp_used_bitmap p) (pool_index p b)"
  shows "JRT_MemoryPoolFree pool b s =
    (if b = NULL \<or> \<not> pool_inside p b then (0, s)
     else if \<not> block_used (mem32 s) (mp_used_bitmap p) (pool_index p b) then (0, arch_critical_exit (primask s) (cs_enter s))
     else (1, arch_critical_exit (primask s)
            ((cs_enter s)\<lparr>mem32 := (mem32 s)(w := mem32 s w AND NOT (bitmap_mask (pool_index p b)))\<rparr>)))"
proof -
  have g: "(pool = NULL \<or> b = NULL \<or> mp_storage p = NULL \<or> mp_used_bitmap p = NULL \<or> mp_block_size p = 0) = (b = NULL)"
    using assms(1) unfolding p_def pool_ok_def Let_def by blast
  show ?thesis
    unfolding JRT_MemoryPoolFree_def Let_def arch_critical_enter_eq prod.case block_used_def w_def
      p_def [symmetric] g cs_enter_fields pool_inside_def pool_index_def
    by (simp only: split: if_split) blast
qed

lemma free_cases:
  assumes ok: "pool_ok pool s"
  obtains (bad) "b \<notin> pool_live pool s" "fst (JRT_MemoryPoolFree pool b s) = 0"
      "pools (snd (JRT_MemoryPoolFree pool b s)) = pools s"
      "mem32 (snd (JRT_MemoryPoolFree pool b s)) = mem32 s"
    | (good) i where "i \<in> pool_used pool s" "b = pool_block pool s i"
      "fst (JRT_MemoryPoolFree pool b s) = 1" "pools (snd (JRT_MemoryPoolFree pool b s)) = pools s"
      "pool_used pool (snd (JRT_MemoryPoolFree pool b s)) = pool_used pool s - {i}"
proof -
  let ?p = "pools s pool"
  let ?start = "mp_storage ?p" and ?z = "mp_block_size ?p" and ?n = "mp_block_count ?p"
  let ?i = "pool_index ?p b"
  have z: "0 < unat ?z" using ok by (simp add: pool_ok_def Let_def word_neq_0_unat)
  have inside: "?i < ?n \<and> b = pool_block pool s ?i" if "pool_inside ?p b"
  proof -
    have lo: "?start \<le> b" and hi: "unat b < unat ?start + unat ?z * unat ?n"
      using that unfolding pool_inside_def word_less_unat word_le_unat pool_end [OF ok] by linarith+
    have d: "unat (b - ?start) = unat b - unat ?start" using lo by (rule unat_sub32)
    then have "unat (b - ?start) < unat ?n * unat ?z"
      using hi lo unfolding word_le_unat by (simp add: mult.commute)
    then have lt: "?i < ?n" by (simp only: word_less_unat unat_div32 less_mult_imp_div_less pool_index_def)
    have "unat (b - ?start) mod unat ?z = 0"
      using that unfolding pool_inside_def by (metis unat_mod32 unsigned_0)
    then have "unat ?i * unat ?z = unat (b - ?start)"
      unfolding pool_index_def unat_div32 by (metis add_0_right div_mult_mod_eq)
    then have "unat (pool_block pool s ?i) = unat b"
      using unat_pool_block(1) [OF ok lt] d lo by (simp add: word_le_unat)
    with lt show ?thesis by (simp only: word_eq_unat)
  qed
  have outside: "pool_inside ?p b" if "j < ?n" "b = pool_block pool s j" for j
  proof -
    note u = unat_pool_block [OF ok that(1), folded that(2)]
    have "?start \<le> b" "\<not> b \<ge> ?start + ?z * ?n"
      using u z unfolding word_less_unat word_le_unat pool_end [OF ok] by linarith+
    moreover have "unat (b - ?start) = unat j * unat ?z"
      using unat_sub32 [OF \<open>?start \<le> b\<close>] u by simp
    then have "(b - ?start) mod ?z = 0" by (simp add: word_eq_unat unat_mod32)
    ultimately show ?thesis unfolding pool_inside_def by auto
  qed
  show thesis
  proof (cases "pool_inside ?p b \<and> block_used (mem32 s) (mp_used_bitmap ?p) ?i")
    case True
    then have i: "?i < ?n" "b = pool_block pool s ?i" "?i \<in> pool_used pool s" using inside by (auto simp: pool_used_def)
    have "b \<noteq> NULL" using i pool_null [OF ok] by (auto simp: pool_blocks_def)
    with True show thesis
      by (intro good [of ?i]) (use i in \<open>auto simp: free_eq [OF ok] pool_used_def block_used_clear\<close>)
  next
    case False
    have "b \<notin> pool_live pool s"
    proof
      assume "b \<in> pool_live pool s"
      then obtain j where j: "j \<in> pool_used pool s" "j < ?n" "b = pool_block pool s j" by (auto simp: pool_live_def pool_used_def)
      then have "pool_inside ?p b" using outside by blast
      then have "?i < ?n" "pool_block pool s ?i = pool_block pool s j" using inside j by auto
      then have "?i = j" using j pool_block_inj [OF ok] by (auto dest: inj_onD)
      with j False \<open>pool_inside ?p b\<close> show False by (simp add: pool_used_def)
    qed
    with False show thesis by (intro bad) (auto simp: free_eq [OF ok])
  qed
qed

definition pool_alloc :: "addr \<Rightarrow> kstate \<Rightarrow> addr option \<times> kstate" where
  "pool_alloc pool s =
    (let (b, s) = JRT_MemoryPoolAllocate pool s in (if b = NULL then None else Some b, s))"

definition pool_free :: "addr \<Rightarrow> addr \<Rightarrow> kstate \<Rightarrow> bool \<times> kstate" where
  "pool_free pool b s = (let (r, s) = JRT_MemoryPoolFree pool b s in (r \<noteq> 0, s))"

lemma pool_live_cong:
  "pools t = pools s \<Longrightarrow> pool_used pool t = U \<Longrightarrow> pool_live pool t = pool_block pool s ` U"
  using pool_cong(2) [of t s pool] by (simp add: pool_live_def)

lemma pools_kept:
  assumes "pool_ok pool s"
  shows "pools (snd (pool_alloc pool s)) = pools s" and "pools (snd (pool_free pool b s)) = pools s"
proof -
  show "pools (snd (pool_alloc pool s)) = pools s"
    by (rule allocate_cases [OF assms]) (simp_all add: pool_alloc_def case_prod_beta)
  show "pools (snd (pool_free pool b s)) = pools s"
    by (rule free_cases [OF assms, of b]) (simp_all add: pool_free_def case_prod_beta)
qed

interpretation pool: block_allocator "pool_ok pool" "pool_blocks pool" "pool_live pool" "pool_alloc pool" "pool_free pool"
proof
  fix s :: kstate and b :: addr
  show "finite (pool_blocks pool s)" by simp
  show live: "pool_live pool s \<subseteq> pool_blocks pool s" by (auto simp: pool_live_def pool_blocks_def pool_used_def)
  assume ok: "pool_ok pool s"
  show "pool_ok pool (snd (pool_alloc pool s)) \<and> pool_blocks pool (snd (pool_alloc pool s)) = pool_blocks pool s"
    using pool_cong [OF pools_kept(1) [OF ok]] ok by simp
  show "pool_ok pool (snd (pool_free pool b s)) \<and> pool_blocks pool (snd (pool_free pool b s)) = pool_blocks pool s"
    using pool_cong [OF pools_kept(2) [OF ok]] ok by simp
  have some: "pool_block pool s i \<noteq> NULL" if "i < mp_block_count (pools s pool)" for i
    using pool_null [OF ok] that by (auto simp: pool_blocks_def)
  have fresh: "pool_block pool s i \<notin> pool_live pool s"
    if "i < mp_block_count (pools s pool)" "i \<notin> pool_used pool s" for i
    using that pool_block_inj [OF ok] by (auto simp: pool_live_def pool_used_def dest: inj_onD)
  show "fst (pool_alloc pool s) = None \<and> pool_live pool (snd (pool_alloc pool s)) = pool_live pool s"
    if full: "pool_live pool s = pool_blocks pool s"
    using ok
  proof (rule allocate_cases)
    fix i assume "i < mp_block_count (pools s pool)" "i \<notin> pool_used pool s"
    with fresh full have False by (auto simp: pool_blocks_def)
    then show ?thesis ..
  qed (simp add: pool_alloc_def case_prod_beta pool_live_cong [where s = s] pool_live_def [of pool s])
  show "\<exists>b. fst (pool_alloc pool s) = Some b \<and> b \<in> pool_blocks pool s - pool_live pool s
      \<and> pool_live pool (snd (pool_alloc pool s)) = insert b (pool_live pool s)"
    if room: "pool_live pool s \<noteq> pool_blocks pool s"
    using ok
  proof (rule allocate_cases)
    assume "pool_used pool s = {i. i < mp_block_count (pools s pool)}"
    with room show ?thesis by (simp add: pool_live_def pool_blocks_def)
  next
    fix i assume i: "i < mp_block_count (pools s pool)" "i \<notin> pool_used pool s"
      and e: "fst (JRT_MemoryPoolAllocate pool s) = pool_block pool s i"
        "pools (snd (JRT_MemoryPoolAllocate pool s)) = pools s"
        "pool_used pool (snd (JRT_MemoryPoolAllocate pool s)) = insert i (pool_used pool s)"
    have "pool_live pool (snd (JRT_MemoryPoolAllocate pool s)) = insert (pool_block pool s i) (pool_live pool s)"
      by (simp add: pool_live_cong [OF e(2,3)] pool_live_def [of pool s])
    with i e(1) fresh [OF i] some [OF i(1)] show ?thesis
      by (simp add: pool_alloc_def case_prod_beta pool_blocks_def)
  qed
  show "fst (pool_free pool b s) = (b \<in> pool_live pool s) \<and> pool_live pool (snd (pool_free pool b s)) = pool_live pool s - {b}"
  proof (rule free_cases [OF ok, of b])
    assume bad: "b \<notin> pool_live pool s" "fst (JRT_MemoryPoolFree pool b s) = 0"
      "pools (snd (JRT_MemoryPoolFree pool b s)) = pools s" "mem32 (snd (JRT_MemoryPoolFree pool b s)) = mem32 s"
    then have "pool_used pool (snd (JRT_MemoryPoolFree pool b s)) = pool_used pool s" by (simp add: pool_used_def)
    from pool_live_cong [OF bad(3) this] bad show ?thesis by (simp add: pool_free_def case_prod_beta pool_live_def)
  next
    fix i assume i: "i \<in> pool_used pool s" "b = pool_block pool s i"
      and e: "fst (JRT_MemoryPoolFree pool b s) = 1" "pools (snd (JRT_MemoryPoolFree pool b s)) = pools s"
        "pool_used pool (snd (JRT_MemoryPoolFree pool b s)) = pool_used pool s - {i}"
    have "pool_block pool s ` (pool_used pool s - {i}) = pool_live pool s - {b}"
      using i pool_block_inj [OF ok] by (auto simp: pool_live_def pool_used_def dest: inj_onD)
    then have "pool_live pool (snd (JRT_MemoryPoolFree pool b s)) = pool_live pool s - {b}"
      by (simp add: pool_live_cong [OF e(2,3)])
    moreover have "b \<in> pool_live pool s" using i by (auto simp: pool_live_def)
    ultimately show ?thesis using e(1) by (simp add: pool_free_def case_prod_beta)
  qed
qed

section \<open>Properties of pools\<close>

text \<open>A created pool: all blocks are free.\<close>

lemma created_pool:
  fixes s :: kstate
  assumes "pool \<noteq> NULL" and "storage \<noteq> NULL" and "used_bitmap \<noteq> NULL" and "4 \<le> z" and "n \<noteq> 0"
    and fits: "unat storage + unat z * unat n < 4294967296"
  defines "t \<equiv> JRT_MemoryPoolCreateStatic pool storage z n used_bitmap s"
  shows "pool_ok pool t" and "pool_used pool t = {}"
    and "pools t pool = \<lparr>mp_storage = storage, mp_used_bitmap = used_bitmap, mp_block_size = z, mp_block_count = n\<rparr>"
proof -
  let ?m = "for_upto (bitmap_words n) (\<lambda>index m. m(used_bitmap + 4 * index := 0)) (mem32 s)"
  have z: "\<not> z < 4" "unat z \<ge> 4" using assms(4) by (simp_all add: word_le_unat not_less)
  have t: "pools t pool = \<lparr>mp_storage = storage, mp_used_bitmap = used_bitmap, mp_block_size = z, mp_block_count = n\<rparr>"
    "mem32 t = ?m"
    using assms(1-5) z(1) unfolding t_def JRT_MemoryPoolCreateStatic_def by simp_all
  then show "pools t pool = \<lparr>mp_storage = storage, mp_used_bitmap = used_bitmap, mp_block_size = z, mp_block_count = n\<rparr>" by simp
  have "z \<noteq> 0" using z(2) by auto
  with assms t show "pool_ok pool t" by (simp add: pool_ok_def)
  have n: "unat n + 31 < 4294967296"
    using fits mult_le_mono1 [OF z(2), of "unat n"] by linarith
  have clear: "?m (bitmap_word used_bitmap i) = 0" if "i < n" for i
  proof -
    have "unat (n + 31) = unat n + 31" using n unat_add_small [of n 31] by simp
    then have "unat (bitmap_words n) = (unat n + 31) div 32" by (simp add: bitmap_words_def unat_div32)
    moreover have "unat (i div 32) < (unat n + 31) div 32"
      using that by (simp add: unat_div32 word_less_unat)
    ultimately have "i div 32 < bitmap_words n" by (simp only: word_less_unat)
    moreover have "\<forall>j < bitmap_words n. ?m (used_bitmap + 4 * j) = 0"
    proof -
      have "\<forall>j. unat j < unat (bitmap_words n) \<longrightarrow> ?m (used_bitmap + 4 * j) = 0"
      proof (rule for_upto_induct [where P = "\<lambda>k m. \<forall>j. unat j < k \<longrightarrow> m (used_bitmap + 4 * j) = 0"], goal_cases)
        case (2 k m)
        then show ?case by (auto simp: less_Suc_eq)
      qed simp
      then show ?thesis by (simp add: word_less_unat)
    qed
    ultimately show ?thesis by (simp add: bitmap_word_def)
  qed
  show "pool_used pool t = {}" using clear by (auto simp: pool_used_def t block_used_def)
qed

text \<open>A pool of \<open>n\<close> blocks serves exactly \<open>n\<close> allocations: after its creation, and whatever its
  memory held before, \<open>n\<close> allocations succeed, they return each block once, and the next one
  returns null.\<close>

theorem pool_create_capacity:
  fixes s :: kstate
  assumes "pool \<noteq> NULL" and "storage \<noteq> NULL" and "used_bitmap \<noteq> NULL" and "4 \<le> block_size" and "n \<noteq> 0"
    and "unat storage + unat block_size * unat n < 4294967296"
  defines "t \<equiv> JRT_MemoryPoolCreateStatic pool storage block_size n used_bitmap s"
  shows "\<exists>bs u. serve (pool_alloc pool) (pool_free pool) (replicate (unat n) Request) t
      = (map (\<lambda>b. Got (Some b)) bs, u)
    \<and> distinct bs \<and> set bs = (\<lambda>i. storage + i * block_size) ` {i. i < n}
    \<and> fst (JRT_MemoryPoolAllocate pool u) = NULL"
proof -
  note c = created_pool [OF assms(1-6), of s, folded t_def]
  have b: "pool_blocks pool t = (\<lambda>i. storage + i * block_size) ` {i. i < n}" "pool_live pool t = {}"
    by (simp_all add: pool_blocks_def pool_live_def pool_block_def c)
  have "card {i. i < n} = length (indices n)"
    using distinct_card [OF distinct_indices [of n]] by simp
  then have "card (pool_blocks pool t - pool_live pool t) = unat n"
    using b(2) card_image [OF pool_block_inj [OF c(1)]] by (simp add: c pool_blocks_def)
  from pool.capacity [OF c(1) this] obtain bs u
    where "serve (pool_alloc pool) (pool_free pool) (replicate (unat n) Request) t = (map (\<lambda>b. Got (Some b)) bs, u)"
      "distinct bs" "set bs = pool_blocks pool t" "fst (pool_alloc pool u) = None"
    by (auto simp: b(2))
  moreover from this(4) have "fst (JRT_MemoryPoolAllocate pool u) = NULL"
    by (simp add: pool_alloc_def case_prod_beta split: if_splits)
  ultimately show ?thesis unfolding b(1) by blast
qed

theorem pool_create_capacity_witness:
  "\<exists>bs u. serve (pool_alloc 0x100) (pool_free 0x100) (replicate 3 Request)
      (JRT_MemoryPoolCreateStatic 0x100 0x200 16 3 0x300 (reset_state default_config)) = (map (\<lambda>b. Got (Some b)) bs, u)
    \<and> distinct bs \<and> set bs = (\<lambda>i. 0x200 + i * 16) ` {i. i < (3 :: u32)}
    \<and> fst (JRT_MemoryPoolAllocate 0x100 u) = NULL"
  using pool_create_capacity [of "0x100" "0x200" "0x300" 16 3 "reset_state default_config"] by simp

text \<open>C31: no block is handed out twice: for every history of allocations and frees, with any pointers
  freed, the outcomes are those of the reference allocator on the set of live blocks (an allocation
  takes a block that is not live, null is returned only when all are live, a free succeeds exactly
  on a live block), and different blocks share no byte.\<close>

theorem pool_history_safe:
  assumes "pool_ok pool s" and "serve (pool_alloc pool) (pool_free pool) rs s = (os, t)"
  shows "permitted (pool_blocks pool s) (pool_live pool s) os (pool_live pool t)
    \<and> pool_ok pool t \<and> pool_blocks pool t = pool_blocks pool s
    \<and> (\<forall>a b. a \<in> pool_blocks pool s \<longrightarrow> b \<in> pool_blocks pool s \<longrightarrow> a \<noteq> b \<longrightarrow>
        block_bytes (mp_block_size (pools s pool)) a \<inter> block_bytes (mp_block_size (pools s pool)) b = {})"
  using pool.history [OF assms] pool_blocks_apart [OF assms(1)] by blast

theorem pool_history_witness:
  "\<exists>os t. serve (pool_alloc 0x100) (pool_free 0x100) [Request, Return 0x204, Request, Return 0x200]
       (JRT_MemoryPoolCreateStatic 0x100 0x200 16 3 0x300 (reset_state default_config)) = (os, t)
     \<and> permitted {0x200, 0x210, 0x220} {} os (pool_live 0x100 t)"
proof -
  let ?s = "JRT_MemoryPoolCreateStatic 0x100 0x200 16 3 0x300 (reset_state default_config)"
  have c: "pool_ok 0x100 ?s" "pool_used 0x100 ?s = {}" "pools ?s 0x100 =
      \<lparr>mp_storage = 0x200, mp_used_bitmap = 0x300, mp_block_size = 16, mp_block_count = 3\<rparr>"
    using created_pool [of "0x100" "0x200" "0x300" 16 3 "reset_state default_config"] by simp_all
  have "{i. i < (3 :: u32)} = {0, 1, 2}"
  proof -
    have "{i. i < (3 :: u32)} = set (indices 3)" by simp
    also have "\<dots> = {0, 1, 2}" by (simp add: indices_def upt_rec insert_commute)
    finally show ?thesis .
  qed
  then have b: "pool_blocks 0x100 ?s = {0x200, 0x210, 0x220}" "pool_live 0x100 ?s = {}"
    by (auto simp: pool_blocks_def pool_live_def pool_block_def c)
  obtain os t where "serve (pool_alloc 0x100) (pool_free 0x100) [Request, Return 0x204, Request, Return 0x200] ?s = (os, t)"
    by fastforce
  with pool_history_safe [OF c(1) this] b show ?thesis by auto
qed

text \<open>An allocation takes the free block of the lowest index, marks exactly that block, and
  returns its address; it returns null, changing no bit, exactly when every block is used.\<close>

theorem pool_allocate_exact:
  assumes "pool_ok pool s" and "JRT_MemoryPoolAllocate pool s = (b, t)"
  shows "if b = NULL
    then pool_used pool s = {i. i < mp_block_count (pools s pool)} \<and> pool_used pool t = pool_used pool s
    else \<exists>i < mp_block_count (pools s pool). i \<notin> pool_used pool s
      \<and> b = mp_storage (pools s pool) + i * mp_block_size (pools s pool)
      \<and> {j. j < i} \<subseteq> pool_used pool s
      \<and> pool_used pool t = insert i (pool_used pool s)"
  using assms(1)
proof (rule allocate_cases)
  fix i assume i: "i < mp_block_count (pools s pool)" "fst (JRT_MemoryPoolAllocate pool s) = pool_block pool s i"
    "i \<notin> pool_used pool s" "\<forall>j<i. j \<in> pool_used pool s"
    "pool_used pool (snd (JRT_MemoryPoolAllocate pool s)) = insert i (pool_used pool s)"
  then have "b \<noteq> NULL" using assms(2) pool_null [OF assms(1)] by (auto simp: pool_blocks_def)
  with i assms(2) show ?thesis by (auto simp: pool_block_def)
qed (use assms(2) in simp)

theorem pool_allocate_witness:
  "fst (JRT_MemoryPoolAllocate 0x100
      (JRT_MemoryPoolCreateStatic 0x100 0x200 16 3 0x300 (reset_state default_config))) \<noteq> NULL"
proof -
  let ?s = "JRT_MemoryPoolCreateStatic 0x100 0x200 16 3 0x300 (reset_state default_config)"
  have c: "pool_ok 0x100 ?s" "pool_used 0x100 ?s = {}" "mp_block_count (pools ?s 0x100) = 3"
    using created_pool [of "0x100" "0x200" "0x300" 16 3 "reset_state default_config"] by simp_all
  obtain b t where r: "JRT_MemoryPoolAllocate 0x100 ?s = (b, t)" by fastforce
  have "{i. i < (3 :: u32)} \<noteq> {}" using word_neq_0_conv [of "3 :: u32"] by fastforce
  with pool_allocate_exact [OF c(1) r] c r show ?thesis by (auto split: if_splits)
qed

text \<open>C32: a free accepts exactly the start addresses of allocated blocks, whatever pointer it is
  given, including null, a pointer outside the pool, one into the middle of a block, and a block
  that is already free; it then releases that block alone, and otherwise changes no memory.\<close>

theorem pool_free_exact:
  assumes "pool_ok pool s" and "JRT_MemoryPoolFree pool b s = (r, t)"
  shows "pool_live pool t = pool_live pool s - {b}
    \<and> (if b \<in> pool_live pool s then r = 1 else r = 0 \<and> mem32 t = mem32 s)"
proof -
  have "pool_live pool t = pool_live pool s - {b}"
    using pool.free_live [OF assms(1), of b] assms(2) by (simp add: pool_free_def)
  moreover have "if b \<in> pool_live pool s then r = 1 else r = 0 \<and> mem32 t = mem32 s"
    using assms(2) by (auto intro: free_cases [OF assms(1), of b] simp: pool_live_def)
  ultimately show ?thesis ..
qed

theorem pool_free_witness:
  "fst (JRT_MemoryPoolFree 0x100 0x210
      (JRT_MemoryPoolCreateStatic 0x100 0x200 16 3 0x300 (reset_state default_config))) = 0"
proof -
  let ?s = "JRT_MemoryPoolCreateStatic 0x100 0x200 16 3 0x300 (reset_state default_config)"
  have c: "pool_ok 0x100 ?s" "pool_used 0x100 ?s = {}"
    using created_pool [of "0x100" "0x200" "0x300" 16 3 "reset_state default_config"] by simp_all
  obtain r t where r: "JRT_MemoryPoolFree 0x100 0x210 ?s = (r, t)" by fastforce
  from pool_free_exact [OF c(1) r] c r show ?thesis by (simp add: pool_live_def)
qed

end
