(* ===== verification/JRT_Timer.thy ===== *)
theory JRT_Timer
  imports JRT_Wait JRT_Lists
begin

text \<open>
  Software timers (\<open>kernel/timer.c\<close>) and the wait of the timer-service task (\<open>kernel/task.c\<close>,
  lines 537 to 556): the list of all timers, start and stop, the tick that counts expirations, the
  claim of an expiration by the service task, and the invariant check.
\<close>

section \<open>The wait of the service task\<close>

definition timer_service_waiting :: "kstate \<Rightarrow> bool" where
  "timer_service_waiting s \<longleftrightarrow>
     (let task = tasks s (timer_service_task_index s)
      in t_state task = JRT_TASK_STATE_BLOCKED
       \<and> t_wait_object task = ld_timer_service_wait_object (cfg s)
       \<and> t_wait_kind task = TASK_WAIT_TIMER_SERVICE)"

definition task_timer_service_wake_locked :: "kstate \<Rightarrow> kstate" where
  "task_timer_service_wake_locked s =
    (if timer_service_waiting s then task_wait_end (timer_service_task_index s) 1 0 s else s)"

definition task_timer_service_block_locked :: "u32 \<Rightarrow> kstate \<Rightarrow> kstate" where
  "task_timer_service_block_locked saved_critical s =
    (let s = task_wait_begin (current_task s) (ld_timer_service_wait_object (cfg s))
               TASK_WAIT_TIMER_SERVICE JRT_WAIT_FOREVER s;
         s = arch_critical_exit saved_critical s
     in arch_yield s)"

section \<open>The timer list\<close>

abbreviation (input) TIMER_ACTIVE :: u8 where "TIMER_ACTIVE \<equiv> 1"
abbreviation (input) TIMER_INACTIVE :: u8 where "TIMER_INACTIVE \<equiv> 0"

partial_function (option) timer_is_linked_from ::
  "(addr \<Rightarrow> JRT_Timer_t) \<Rightarrow> addr \<Rightarrow> addr \<Rightarrow> int option" where
  "timer_is_linked_from ts timer current =
    (if current = NULL then Some 0
     else if current = timer then Some 1
     else timer_is_linked_from ts timer (tm_next (ts current)))"

definition timer_is_linked_locked :: "addr \<Rightarrow> kstate \<Rightarrow> int option" where
  "timer_is_linked_locked timer s = timer_is_linked_from (timers s) timer (timer_list s)"

definition set_timer :: "addr \<Rightarrow> JRT_Timer_t \<Rightarrow> kstate \<Rightarrow> kstate" where
  "set_timer timer t s = s\<lparr>timers := (timers s)(timer := t)\<rparr>"

text \<open>\<open>None\<close>: the walk of a cyclic list does not end.\<close>

definition timer_link_locked :: "addr \<Rightarrow> kstate \<Rightarrow> kstate option" where
  "timer_link_locked timer s =
    (case timer_is_linked_locked timer s of
       None \<Rightarrow> None
     | Some linked \<Rightarrow>
        Some (if linked = 0
              then (set_timer timer ((timers s timer)\<lparr>tm_next := timer_list s\<rparr>) s)\<lparr>timer_list := timer\<rparr>
              else s))"

definition JRT_TimerCreateStatic :: "addr \<Rightarrow> kstate \<Rightarrow> kstate option" where
  "JRT_TimerCreateStatic timer s =
    (if timer = NULL then Some s
     else
       let (saved_primask, s) = arch_critical_enter s
       in case timer_is_linked_locked timer s of
         None \<Rightarrow> None
       | Some linked \<Rightarrow>
          let nxt = (if linked \<noteq> 0 then tm_next (timers s timer) else NULL);
              s = set_timer timer \<lparr>tm_deadline = 0, tm_period = 0, tm_reload_ticks = 0,
                    tm_expirations = 0, tm_active = TIMER_INACTIVE, tm_periodic = 0,
                    tm_callback = NULL, tm_argument = NULL, tm_next = nxt\<rparr> s
          in case timer_link_locked timer s of
               None \<Rightarrow> None
             | Some s \<Rightarrow> Some (arch_critical_exit saved_primask s))"

section \<open>Starting and stopping\<close>

definition JRT_TimerSetCallback :: "addr \<Rightarrow> addr \<Rightarrow> addr \<Rightarrow> kstate \<Rightarrow> kstate" where
  "JRT_TimerSetCallback timer callback argument s =
    (if timer \<noteq> NULL
     then
       let (saved_primask, s) = arch_critical_enter s;
           s = set_timer timer ((timers s timer)\<lparr>tm_callback := callback, tm_argument := argument\<rparr>) s
       in if callback \<noteq> NULL \<and> tm_expirations (timers s timer) \<noteq> 0
          then arch_request_switch (arch_critical_exit saved_primask (task_timer_service_wake_locked s))
          else arch_critical_exit saved_primask s
     else s)"

definition JRT_TimerStart :: "addr \<Rightarrow> u32 \<Rightarrow> kstate \<Rightarrow> kstate option" where
  "JRT_TimerStart timer delay_ticks s =
    (if timer = NULL then Some s
     else
       let (saved_primask, s) = arch_critical_enter s
       in case timer_link_locked timer s of
            None \<Rightarrow> None
          | Some s \<Rightarrow>
             Some (arch_critical_exit saved_primask
               (set_timer timer ((timers s timer)\<lparr>tm_deadline := g_kernel_ticks s + delay_ticks,
                  tm_period := 0, tm_reload_ticks := delay_ticks, tm_periodic := 0,
                  tm_active := TIMER_ACTIVE\<rparr>) s)))"

definition JRT_TimerStartPeriodic :: "addr \<Rightarrow> u32 \<Rightarrow> kstate \<Rightarrow> kstate option" where
  "JRT_TimerStartPeriodic timer period_ticks s =
    (if timer = NULL \<or> period_ticks = 0 then Some s
     else
       let (saved_primask, s) = arch_critical_enter s
       in case timer_link_locked timer s of
            None \<Rightarrow> None
          | Some s \<Rightarrow>
             Some (arch_critical_exit saved_primask
               (set_timer timer ((timers s timer)\<lparr>tm_deadline := g_kernel_ticks s + period_ticks,
                  tm_period := period_ticks, tm_reload_ticks := period_ticks, tm_periodic := 1,
                  tm_active := TIMER_ACTIVE\<rparr>) s)))"

definition JRT_TimerRestart :: "addr \<Rightarrow> kstate \<Rightarrow> kstate option" where
  "JRT_TimerRestart timer s =
    (if timer = NULL then Some s
     else
       let (saved_primask, s) = arch_critical_enter s
       in if tm_reload_ticks (timers s timer) \<noteq> 0
          then case timer_link_locked timer s of
                 None \<Rightarrow> None
               | Some s \<Rightarrow>
                  Some (arch_critical_exit saved_primask
                    (set_timer timer ((timers s timer)\<lparr>
                       tm_deadline := g_kernel_ticks s + tm_reload_ticks (timers s timer),
                       tm_active := TIMER_ACTIVE\<rparr>) s))
          else Some (arch_critical_exit saved_primask s))"

definition JRT_TimerStop :: "addr \<Rightarrow> kstate \<Rightarrow> kstate" where
  "JRT_TimerStop timer s =
    (if timer \<noteq> NULL
     then
       let (saved_primask, s) = arch_critical_enter s
       in arch_critical_exit saved_primask
            (set_timer timer ((timers s timer)\<lparr>tm_active := TIMER_INACTIVE\<rparr>) s)
     else s)"

definition JRT_TimerTakeExpirations :: "addr \<Rightarrow> kstate \<Rightarrow> u32 \<times> kstate" where
  "JRT_TimerTakeExpirations timer s =
    (if timer = NULL then (0, s)
     else
       let (saved_primask, s) = arch_critical_enter s;
           expirations = tm_expirations (timers s timer);
           s = set_timer timer ((timers s timer)\<lparr>tm_expirations := 0\<rparr>) s
       in (expirations, arch_critical_exit saved_primask s))"

text \<open>The application's callbacks are the parameter \<open>call\<close>: function address, argument, state.\<close>

definition JRT_TimerDispatch :: "(addr \<Rightarrow> addr \<Rightarrow> kstate \<Rightarrow> kstate) \<Rightarrow> addr \<Rightarrow> kstate \<Rightarrow> kstate" where
  "JRT_TimerDispatch call timer s =
    (if timer = NULL then s
     else
       let (saved_primask, s) = arch_critical_enter s;
           t = timers s timer;
           callback = tm_callback t;
           argument = tm_argument t;
           expirations = tm_expirations t;
           s = (if callback \<noteq> NULL then set_timer timer (t\<lparr>tm_expirations := 0\<rparr>) s else s);
           s = arch_critical_exit saved_primask s
       in if callback = NULL then s else (call callback argument ^^ unat expirations) s)"

section \<open>The tick\<close>

definition timer_due :: "u32 \<Rightarrow> JRT_Timer_t \<Rightarrow> bool" where
  "timer_due now t \<longleftrightarrow> tm_active t \<noteq> 0 \<and> int32 (now - tm_deadline t) \<ge> 0"

text \<open>The body of the loop for a timer that is due.\<close>

definition timer_expire :: "addr \<Rightarrow> kstate \<Rightarrow> kstate" where
  "timer_expire timer s =
    (let s = set_timer timer ((timers s timer)\<lparr>tm_expirations := tm_expirations (timers s timer) + 1\<rparr>) s;
         s = (if tm_callback (timers s timer) \<noteq> NULL then task_timer_service_wake_locked s else s);
         t = timers s timer
     in if tm_periodic t \<noteq> 0
        then set_timer timer (t\<lparr>tm_deadline := tm_deadline t + tm_period t\<rparr>) s
        else set_timer timer (t\<lparr>tm_active := TIMER_INACTIVE\<rparr>) s)"

partial_function (option) timer_tick_loop :: "u32 \<Rightarrow> addr \<Rightarrow> kstate \<Rightarrow> kstate option" where
  "timer_tick_loop now timer s =
    (if timer = NULL then Some s
     else let s = (if timer_due now (timers s timer) then timer_expire timer s else s)
          in timer_tick_loop now (tm_next (timers s timer)) s)"

definition kernel_timer_tick :: "kstate \<Rightarrow> kstate option" where
  "kernel_timer_tick s = timer_tick_loop (g_kernel_ticks s) (timer_list s) s"

section \<open>The claim of the service task\<close>

text \<open>The first timer from \<open>timer\<close> on with a callback and an expiration to serve.\<close>

partial_function (option) timer_claim_loop ::
  "(addr \<Rightarrow> JRT_Timer_t) \<Rightarrow> addr \<Rightarrow> addr option option" where
  "timer_claim_loop ts timer =
    (if timer = NULL then Some None
     else if tm_callback (ts timer) \<noteq> NULL \<and> tm_expirations (ts timer) \<noteq> 0 then Some (Some timer)
     else timer_claim_loop ts (tm_next (ts timer)))"

text \<open>
  \<open>Some (callback, argument)\<close> is the return value 1 with its out-parameters. \<open>None\<close>: the service
  task is blocked and at its yield, after which the claim returns 0.
\<close>

definition kernel_timer_service_claim :: "kstate \<Rightarrow> ((addr \<times> addr) blocking) option" where
  "kernel_timer_service_claim s =
    (let (saved_primask, s) = arch_critical_enter s
     in case timer_claim_loop (timers s) (timer_list s) of
          None \<Rightarrow> None
        | Some (Some timer) \<Rightarrow>
            let t = timers s timer;
                s = set_timer timer (t\<lparr>tm_expirations := tm_expirations t - 1\<rparr>) s
            in Some (Some (tm_callback t, tm_argument t), arch_critical_exit saved_primask s)
        | Some None \<Rightarrow> Some (None, task_timer_service_block_locked saved_primask s))"

section \<open>The check\<close>

partial_function (option) timer_cycle_loop ::
  "(addr \<Rightarrow> JRT_Timer_t) \<Rightarrow> addr \<Rightarrow> addr \<Rightarrow> addr option option" where
  "timer_cycle_loop ts slow fast =
    (if fast \<noteq> NULL \<and> tm_next (ts fast) \<noteq> NULL
     then if tm_next (ts slow) = tm_next (ts (tm_next (ts fast)))
          then Some (Some (tm_next (ts slow)))
          else timer_cycle_loop ts (tm_next (ts slow)) (tm_next (ts (tm_next (ts fast))))
     else Some None)"

definition timer_fault :: "JRT_Timer_t \<Rightarrow> bool" where
  "timer_fault t \<longleftrightarrow> tm_periodic t \<noteq> 0 \<and> tm_period t = 0 \<or> tm_periodic t = 0 \<and> tm_period t \<noteq> 0"

partial_function (option) timer_state_loop ::
  "(addr \<Rightarrow> JRT_Timer_t) \<Rightarrow> addr \<Rightarrow> (JRT_KernelInvariantCode_t \<times> addr option) option" where
  "timer_state_loop ts timer =
    (if timer = NULL then Some (JRT_INVARIANT_NONE, None)
     else if timer_fault (ts timer) then Some (JRT_INVARIANT_TIMER_PERIODIC_STATE, Some timer)
     else timer_state_loop ts (tm_next (ts timer)))"

definition timer_invariant_check :: "kstate \<Rightarrow> (JRT_KernelInvariantCode_t \<times> addr option) option" where
  "timer_invariant_check s =
    (case timer_cycle_loop (timers s) (timer_list s) (timer_list s) of
       None \<Rightarrow> None
     | Some (Some object) \<Rightarrow> Some (JRT_INVARIANT_TIMER_LIST_CYCLE, Some object)
     | Some None \<Rightarrow> timer_state_loop (timers s) (timer_list s))"

interpretation timer_objects: intrusive_list tm_next "\<lambda>p t. t\<lparr>tm_next := p\<rparr>"
  timer_is_linked_from timer_cycle_loop
proof
  show "tm_next (t\<lparr>tm_next := p\<rparr>) = p" for p t by simp
  show "timer_is_linked_from h ob p = (if p = NULL then Some 0 else if p = ob then Some 1
      else timer_is_linked_from h ob (tm_next (h p)))" for h ob p
    by (rule timer_is_linked_from.simps)
  show "timer_cycle_loop h slow fast =
      (if fast \<noteq> NULL \<and> tm_next (h fast) \<noteq> NULL
       then if tm_next (h slow) = tm_next (h (tm_next (h fast)))
            then Some (Some (tm_next (h slow)))
            else timer_cycle_loop h (tm_next (h slow)) (tm_next (h (tm_next (h fast))))
       else Some None)" for h slow fast
    by (rule timer_cycle_loop.simps)
qed

text \<open>The timers the kernel knows, in list order.\<close>

definition linked_timers :: "kstate \<Rightarrow> addr list \<Rightarrow> bool" where
  "linked_timers s xs \<longleftrightarrow> timer_objects.objects (timers s) (timer_list s) xs"

lemma linked_timers_list: "linked_timers s xs = list_at (\<lambda>a. tm_next (timers s a)) (timer_list s) xs"
  by (simp add: linked_timers_def timer_objects.objects_def)

lemma linked_timers_unique: "linked_timers s xs \<Longrightarrow> linked_timers s ys \<Longrightarrow> xs = ys"
  unfolding linked_timers_list by (rule list_at_unique)

section \<open>One tick\<close>

lemma timer_service_wake_fields:
  "timers (task_timer_service_wake_locked s) = timers s"
  "timer_list (task_timer_service_wake_locked s) = timer_list s"
  "g_kernel_ticks (task_timer_service_wake_locked s) = g_kernel_ticks s"
  "task_count (task_timer_service_wake_locked s) = task_count s"
  "timer_service_task_index (task_timer_service_wake_locked s) = timer_service_task_index s"
  "cfg (task_timer_service_wake_locked s) = cfg s"
  "current_task (task_timer_service_wake_locked s) = current_task s"
  "g_current_task_index (task_timer_service_wake_locked s) = g_current_task_index s"
  "mutexes (task_timer_service_wake_locked s) = mutexes s"
  "primask (task_timer_service_wake_locked s) = primask s"
  "tasks (task_timer_service_wake_locked s) = (if timer_service_waiting s
     then (tasks s)(timer_service_task_index s := awake 1 (tasks s (timer_service_task_index s)))
     else tasks s)"
  by (simp_all add: task_timer_service_wake_locked_def task_wait_end_eq)

lemma not_waiting_after_wake [simp]: "\<not> timer_service_waiting (task_timer_service_wake_locked s)"
  by (simp add: task_timer_service_wake_locked_def task_wait_end_eq timer_service_waiting_def Let_def)

text \<open>What one tick does to a timer.\<close>

definition ticked :: "u32 \<Rightarrow> JRT_Timer_t \<Rightarrow> JRT_Timer_t" where
  "ticked now t =
    (if timer_due now t
     then if tm_periodic t \<noteq> 0
          then t\<lparr>tm_expirations := tm_expirations t + 1, tm_deadline := tm_deadline t + tm_period t\<rparr>
          else t\<lparr>tm_expirations := tm_expirations t + 1, tm_active := TIMER_INACTIVE\<rparr>
     else t)"

lemma ticked_simps [simp]:
  "tm_next (ticked now t) = tm_next t" "tm_callback (ticked now t) = tm_callback t"
  "tm_argument (ticked now t) = tm_argument t" "tm_period (ticked now t) = tm_period t"
  "tm_periodic (ticked now t) = tm_periodic t" "tm_reload_ticks (ticked now t) = tm_reload_ticks t"
  "tm_expirations (ticked now t) = tm_expirations t + (if timer_due now t then 1 else 0)"
  by (simp_all add: ticked_def)

lemma set_timer_simps [simp]:
  "timers (set_timer a t s) = (timers s)(a := t)" "tasks (set_timer a t s) = tasks s"
  "timer_list (set_timer a t s) = timer_list s" "task_count (set_timer a t s) = task_count s"
  "g_kernel_ticks (set_timer a t s) = g_kernel_ticks s" "cfg (set_timer a t s) = cfg s"
  "timer_service_task_index (set_timer a t s) = timer_service_task_index s"
  "current_task (set_timer a t s) = current_task s" "primask (set_timer a t s) = primask s"
  "g_current_task_index (set_timer a t s) = g_current_task_index s" "mutexes (set_timer a t s) = mutexes s"
  by (simp_all add: set_timer_def)

lemma waiting_set_timer [simp]: "timer_service_waiting (set_timer a t s) = timer_service_waiting s"
  by (simp add: timer_service_waiting_def)

lemma set_timer_twice [simp]: "set_timer a u (set_timer a t s) = set_timer a u s"
  by (simp add: set_timer_def)

lemma release_records_set_timer: "release_records i c (set_timer a t s) = release_records i c s"
  by (simp add: release_records_def task_benchmark_release_locked_def set_timer_def set_record_def arch_cycle_counter_read_def)

lemma wake_set_timer:
  "task_timer_service_wake_locked (set_timer a t s) = set_timer a t (task_timer_service_wake_locked s)"
  unfolding task_timer_service_wake_locked_def waiting_set_timer task_wait_end_eq release_records_set_timer
  by (simp add: set_timer_def)

lemma timer_expire_eq:
  assumes "timer_due now (timers s a)"
  shows "timer_expire a s = set_timer a (ticked now (timers s a))
    (if tm_callback (timers s a) \<noteq> NULL then task_timer_service_wake_locked s else s)"
  using assms by (simp add: timer_expire_def ticked_def wake_set_timer timer_service_wake_fields Let_def)

text \<open>
  The tick over the whole list: every listed timer is ticked once, the others are untouched, and
  the service task is woken when a timer with a callback expired.
\<close>

definition tick_wakes :: "u32 \<Rightarrow> (addr \<Rightarrow> JRT_Timer_t) \<Rightarrow> addr list \<Rightarrow> bool" where
  "tick_wakes now ts xs \<longleftrightarrow> (\<exists>a\<in>set xs. timer_due now (ts a) \<and> tm_callback (ts a) \<noteq> NULL)"

definition tick_timers :: "u32 \<Rightarrow> addr set \<Rightarrow> (addr \<Rightarrow> JRT_Timer_t) \<Rightarrow> addr \<Rightarrow> JRT_Timer_t" where
  "tick_timers now A ts = (\<lambda>a. if a \<in> A then ticked now (ts a) else ts a)"

lemma wake_idem: "task_timer_service_wake_locked (task_timer_service_wake_locked s) = task_timer_service_wake_locked s"
  using not_waiting_after_wake [of s] by (simp only: task_timer_service_wake_locked_def [of "task_timer_service_wake_locked s"] if_False)

lemma set_timers_twice: "s\<lparr>timers := f\<rparr>\<lparr>timers := g\<rparr> = s\<lparr>timers := g\<rparr>"
  by simp

lemma wake_set_timers:
  "task_timer_service_wake_locked (s\<lparr>timers := f\<rparr>) = (task_timer_service_wake_locked s)\<lparr>timers := f\<rparr>"
proof -
  have "release_records i c (s\<lparr>timers := f\<rparr>) = release_records i c s" for i c
    by (simp add: release_records_def task_benchmark_release_locked_def set_record_def arch_cycle_counter_read_def)
  then show ?thesis
    by (simp add: task_timer_service_wake_locked_def timer_service_waiting_def task_wait_end_eq)
qed

lemma timer_tick_loop_list:
  "list_at (\<lambda>a. tm_next (timers s a)) p xs \<Longrightarrow>
     timer_tick_loop now p s = Some
       ((if tick_wakes now (timers s) xs then task_timer_service_wake_locked s else s)
         \<lparr>timers := tick_timers now (set xs) (timers s)\<rparr>)"
proof (induction xs arbitrary: p s)
  case Nil
  then show ?case by (simp add: timer_tick_loop.simps [of now] tick_wakes_def tick_timers_def)
next
  case (Cons x xs)
  then have x: "p = x" "x \<noteq> NULL" "list_at (\<lambda>a. tm_next (timers s a)) (tm_next (timers s x)) xs" by auto
  let ?u = "if timer_due now (timers s x) then timer_expire x s else s"
  let ?w = "timer_due now (timers s x) \<and> tm_callback (timers s x) \<noteq> NULL"
  have u: "?u = (if ?w then task_timer_service_wake_locked s else s)\<lparr>timers := (timers s)(x := ticked now (timers s x))\<rparr>"
    by (auto simp: timer_expire_eq set_timer_def ticked_def timer_service_wake_fields)
  then have tu: "timers ?u = (timers s)(x := ticked now (timers s x))" by simp
  then have nx: "tm_next (timers ?u a) = tm_next (timers s a)" for a by simp
  have notin: "x \<notin> set xs" using list_at_distinct [OF Cons.prems] by simp
  have same: "timers ?u a = timers s a" if "a \<in> set xs" for a using tu that notin by auto
  have "list_at (\<lambda>a. tm_next (timers ?u a)) (tm_next (timers ?u x)) xs" using x(3) by (simp only: nx)
  note IH = Cons.IH [OF this]
  have w: "tick_wakes now (timers ?u) xs = tick_wakes now (timers s) xs"
    using same by (auto simp: tick_wakes_def)
  have t: "tick_timers now (set xs) (timers ?u) = tick_timers now (set (x # xs)) (timers s)"
    using tu notin by (auto simp: tick_timers_def fun_eq_iff)
  have all: "tick_wakes now (timers s) (x # xs) = (?w \<or> tick_wakes now (timers s) xs)"
    by (auto simp: tick_wakes_def)
  have "timer_tick_loop now p s = timer_tick_loop now (tm_next (timers ?u x)) ?u"
    using x by (subst timer_tick_loop.simps) (simp add: Let_def)
  also have "\<dots> = Some ((if tick_wakes now (timers s) xs then task_timer_service_wake_locked ?u else ?u)
         \<lparr>timers := tick_timers now (set (x # xs)) (timers s)\<rparr>)"
    by (simp only: IH w t)
  also have "\<dots> = Some ((if tick_wakes now (timers s) (x # xs) then task_timer_service_wake_locked s else s)
         \<lparr>timers := tick_timers now (set (x # xs)) (timers s)\<rparr>)"
    unfolding all u by (simp add: wake_set_timers wake_idem)
  finally show ?case .
qed

lemma kernel_timer_tick_list:
  "linked_timers s xs \<Longrightarrow> kernel_timer_tick s = Some
     ((if tick_wakes (g_kernel_ticks s) (timers s) xs then task_timer_service_wake_locked s else s)
       \<lparr>timers := tick_timers (g_kernel_ticks s) (set xs) (timers s)\<rparr>)"
  unfolding kernel_timer_tick_def linked_timers_list by (rule timer_tick_loop_list)

section \<open>Many ticks\<close>

text \<open>
  \<open>timer_ticks n s\<close>: the timer part of \<open>n\<close> consecutive tick interrupts, each incrementing the tick
  count first, with no other timer operation in between. \<open>runs n now t\<close> is their effect on one timer.
\<close>

fun timer_ticks :: "nat \<Rightarrow> kstate \<Rightarrow> kstate option" where
  "timer_ticks 0 s = Some s"
| "timer_ticks (Suc n) s =
    (case timer_ticks n s of
       None \<Rightarrow> None
     | Some s \<Rightarrow> kernel_timer_tick (s\<lparr>g_kernel_ticks := g_kernel_ticks s + 1\<rparr>))"

fun runs :: "nat \<Rightarrow> u32 \<Rightarrow> JRT_Timer_t \<Rightarrow> JRT_Timer_t" where
  "runs 0 now t = t"
| "runs (Suc n) now t = ticked (now + word_of_nat (Suc n)) (runs n now t)"

lemma timer_ticks_list:
  assumes "linked_timers s xs"
  shows "\<exists>t. timer_ticks n s = Some t \<and> linked_timers t xs \<and> g_kernel_ticks t = g_kernel_ticks s + word_of_nat n
    \<and> (\<forall>a\<in>set xs. timers t a = runs n (g_kernel_ticks s) (timers s a))
    \<and> (\<forall>a. a \<notin> set xs \<longrightarrow> timers t a = timers s a)"
proof (induction n)
  case 0
  with assms show ?case by simp
next
  case (Suc n)
  then obtain t where t: "timer_ticks n s = Some t" "linked_timers t xs" "g_kernel_ticks t = g_kernel_ticks s + word_of_nat n"
    "\<forall>a\<in>set xs. timers t a = runs n (g_kernel_ticks s) (timers s a)" "\<forall>a. a \<notin> set xs \<longrightarrow> timers t a = timers s a" by blast
  let ?u = "t\<lparr>g_kernel_ticks := g_kernel_ticks t + 1\<rparr>"
  have now: "g_kernel_ticks ?u = g_kernel_ticks s + word_of_nat (Suc n)" using t(3) by simp
  have u: "linked_timers ?u xs" using t(2) by (simp add: linked_timers_def)
  let ?v = "(if tick_wakes (g_kernel_ticks ?u) (timers ?u) xs then task_timer_service_wake_locked ?u else ?u)
      \<lparr>timers := tick_timers (g_kernel_ticks ?u) (set xs) (timers t)\<rparr>"
  have "timer_ticks (Suc n) s = Some ?v" using kernel_timer_tick_list [OF u] t(1) by simp
  moreover have "linked_timers ?v xs"
    using t(2) by (simp add: linked_timers_list timer_service_wake_fields tick_timers_def if_distrib cong: if_cong)
  moreover have "g_kernel_ticks ?v = g_kernel_ticks s + word_of_nat (Suc n)"
    using now by (simp add: timer_service_wake_fields)
  moreover have "timers ?v = tick_timers (g_kernel_ticks s + word_of_nat (Suc n)) (set xs) (timers t)"
    unfolding now by simp
  ultimately show ?case using t(4,5) by (auto simp: tick_timers_def)
qed

lemma int32_of_int: "- 2147483648 \<le> k \<Longrightarrow> k < 2147483648 \<Longrightarrow> int32 (word_of_int k) = k"
  by (simp add: int32_def signed_of_int signed_take_bit_int_eq_self)

text \<open>The signed comparison of the tick sees a deadline ahead by at most half the tick range.\<close>

lemma not_yet_due:
  assumes "d \<le> 2147483648" and "0 < d"
  shows "\<not> 0 \<le> int32 (x - (x + word_of_nat d))"
proof -
  have "x - (x + word_of_nat d) = word_of_int (- int d)" by (simp add: word_of_nat_eq_iff)
  then have "int32 (x - (x + word_of_nat d)) = - int d"
    using assms by (simp only: int32_of_int)
  with assms show ?thesis by simp
qed

lemma due_now: "0 \<le> int32 (x - x)"
  by (simp add: int32_def)

lemma runs_periodic:
  assumes p: "0 < p" "p \<le> 2147483649"
    and t: "tm_active t \<noteq> 0" "tm_periodic t \<noteq> 0" "tm_period t = word_of_nat p" "tm_deadline t = now + word_of_nat p"
  shows "runs n now t = t\<lparr>tm_expirations := tm_expirations t + word_of_nat (n div p),
    tm_deadline := now + word_of_nat (p * (n div p + 1))\<rparr>"
proof (induction n)
  case 0
  with t show ?case by simp
next
  case (Suc n)
  let ?x = "now + word_of_nat (Suc n)" and ?d = "p - Suc (n mod p)"
  let ?u = "runs n now t"
  have lt: "n mod p < p" using p by simp
  have "n = p * (n div p) + n mod p" by simp
  then have "Suc n + ?d = p * (n div p) + p" using lt by linarith
  then have "Suc n + ?d = p * (n div p + 1)" by simp
  then have "(word_of_nat (p * (n div p + 1)) :: u32) = word_of_nat (Suc n) + word_of_nat ?d"
    by (metis of_nat_add)
  then have dl: "tm_deadline ?u = ?x + word_of_nat ?d" using Suc by (simp add: add.assoc)
  have act: "tm_active ?u \<noteq> 0" "tm_periodic ?u \<noteq> 0" "tm_period ?u = word_of_nat p" using Suc t by simp_all
  show ?case
  proof (cases "Suc (n mod p) = p")
    case True
    then have q: "Suc n div p = Suc (n div p)" by (simp add: div_Suc mod_Suc)
    have "timer_due ?x ?u" using act dl True due_now by (simp add: timer_due_def)
    then have "runs (Suc n) now t = ?u\<lparr>tm_expirations := tm_expirations ?u + 1, tm_deadline := tm_deadline ?u + word_of_nat p\<rparr>"
      using act by (simp add: ticked_def)
    then show ?thesis unfolding q Suc by (simp add: algebra_simps)
  next
    case False
    then have q: "Suc n div p = n div p" using lt by (simp add: div_Suc mod_Suc)
    have "0 < ?d" "?d \<le> 2147483648" using False lt p by linarith+
    then have "\<not> timer_due ?x ?u" using dl not_yet_due by (simp only: timer_due_def) simp
    then have "runs (Suc n) now t = ?u" by (simp add: ticked_def)
    then show ?thesis unfolding q Suc .
  qed
qed

text \<open>The tick, counted from the start, at which a one-shot timer fires.\<close>

definition fires_at :: "u32 \<Rightarrow> nat" where
  "fires_at delay = (if delay = 0 \<or> delay > 0x80000001 then 1 else unat delay)"

lemma fires_at_pos: "0 < fires_at d"
  by (auto simp: fires_at_def word_neq_0_unat)

lemma fires_at_due:
  assumes "0 < m" and "m \<le> fires_at d"
  shows "0 \<le> int32 (now + word_of_nat m - (now + d)) \<longleftrightarrow> m = fires_at d"
proof (cases "d = 0 \<or> d > 0x80000001")
  case True
  then have m: "m = 1" using assms by (simp add: fires_at_def)
  define k where "k = (if d = 0 then 1 else 4294967297 - uint d)"
  have "1 - d = word_of_int k"
  proof (cases "d = 0")
    case False
    have "(word_of_int (4294967297 - uint d) :: u32) = word_of_int 4294967297 - word_of_int (uint d)"
      by (simp only: of_int_diff)
    also have "\<dots> = 1 - d" by simp
    finally show ?thesis using False by (simp add: k_def)
  qed (simp add: k_def)
  moreover have "2147483649 < uint d" if "d \<noteq> 0" using True that by (simp add: word_less_def)
  moreover have "uint d \<le> 4294967295" using unat_le32 [of d] uint_nat [of d] by linarith
  ultimately have "0 \<le> int32 (1 - d)" by (simp add: int32_of_int k_def)
  moreover have "now + word_of_nat m - (now + d) = 1 - d" using m by simp
  ultimately show ?thesis using m True by (simp add: fires_at_def)
next
  case False
  then have d: "fires_at d = unat d" "unat d \<le> 2147483649" by (auto simp: fires_at_def word_less_unat not_less)
  show ?thesis
  proof (cases "m = unat d")
    case True
    then show ?thesis using d(1) due_now by simp
  next
    case ne: False
    then have k: "0 < unat d - m" "unat d - m \<le> 2147483648" "m + (unat d - m) = unat d" using assms d by linarith+
    have "d = word_of_nat (m + (unat d - m))" by (simp only: k(3)) simp
    then have eq: "now + d = (now + word_of_nat m) + word_of_nat (unat d - m)" by (simp add: add.assoc)
    show ?thesis
      unfolding eq using not_yet_due [OF k(2,1), of "now + word_of_nat m"] ne d(1) by blast
  qed
qed

lemma runs_oneshot:
  assumes t: "tm_active t \<noteq> 0" "tm_periodic t = 0" "tm_deadline t = now + d"
  shows "runs n now t = (if fires_at d \<le> n
    then t\<lparr>tm_expirations := tm_expirations t + 1, tm_active := TIMER_INACTIVE\<rparr> else t)"
proof (induction n)
  case 0
  then show ?case using fires_at_pos [of d] by simp
next
  case (Suc n)
  show ?case
  proof (cases "fires_at d \<le> n")
    case True
    with Suc show ?thesis by (simp add: ticked_def timer_due_def)
  next
    case False
    then have "timer_due (now + word_of_nat (Suc n)) t \<longleftrightarrow> Suc n = fires_at d"
      using fires_at_due [of "Suc n" d now] t by (simp only: timer_due_def) simp
    then show ?thesis using False Suc t by (auto simp: ticked_def simp del: of_nat_Suc)
  qed
qed

section \<open>Linking\<close>

text \<open>\<open>a\<close> is put at the head of the list unless it is on it.\<close>

definition linked_with :: "addr \<Rightarrow> addr list \<Rightarrow> addr list" where
  "linked_with a xs = (if a \<in> set xs then xs else a # xs)"

lemma in_linked_with [simp]: "set (linked_with a xs) = insert a (set xs)"
  by (auto simp: linked_with_def)

lemma linked_timers_cong:
  "(\<And>a. tm_next (timers t a) = tm_next (timers s a)) \<Longrightarrow> timer_list t = timer_list s \<Longrightarrow>
     linked_timers t xs = linked_timers s xs"
  unfolding linked_timers_def by (simp add: timer_objects.objects_same_next [of "timers t" "timers s"])

lemma timer_link_list:
  assumes "linked_timers s xs" and "a \<noteq> NULL"
  obtains nxt p where
    "timer_link_locked a s = Some ((set_timer a ((timers s a)\<lparr>tm_next := nxt\<rparr>) s)\<lparr>timer_list := p\<rparr>)"
    "linked_timers ((set_timer a ((timers s a)\<lparr>tm_next := nxt\<rparr>) s)\<lparr>timer_list := p\<rparr>) (linked_with a xs)"
proof -
  have xs: "timer_objects.objects (timers s) (timer_list s) xs" using assms(1) by (simp add: linked_timers_def)
  have l: "timer_is_linked_locked a s = Some (if a \<in> set xs then 1 else 0)"
    unfolding timer_is_linked_locked_def by (rule timer_objects.is_linked_objects [OF xs])
  show thesis
  proof (cases "a \<in> set xs")
    case True
    have "(set_timer a ((timers s a)\<lparr>tm_next := tm_next (timers s a)\<rparr>) s)\<lparr>timer_list := timer_list s\<rparr> = s"
      by (simp add: set_timer_def)
    with True l assms(1) show thesis
      by (intro that [of "timer_list s" "tm_next (timers s a)"]) (simp_all add: timer_link_locked_def linked_with_def)
  next
    case False
    with l timer_objects.push_objects [OF xs False assms(2)] show thesis
      by (intro that [of a "timer_list s"]) (simp_all add: timer_link_locked_def linked_with_def linked_timers_def)
  qed
qed

lemma linked_cs_enter [simp]: "linked_timers (cs_enter s) xs = linked_timers s xs"
  by (simp add: linked_timers_def)

lemma linked_cs_exit [simp]: "linked_timers (arch_critical_exit p s) xs = linked_timers s xs"
  by (simp add: linked_timers_def)

text \<open>The three starts: link, then set the timer's fields by \<open>f\<close>.\<close>

lemma start_list:
  assumes "linked_timers s xs" and "a \<noteq> NULL" and f: "\<And>t. tm_next (f t) = tm_next t"
  obtains u where
    "(case timer_link_locked a (cs_enter s) of None \<Rightarrow> None
      | Some s \<Rightarrow> Some (arch_critical_exit p (set_timer a (f (timers s a)) s))) = Some u"
    "linked_timers u (linked_with a xs)" "\<exists>nxt. timers u = (timers s)(a := f ((timers s a)\<lparr>tm_next := nxt\<rparr>))"
    "tasks u = tasks s" "g_kernel_ticks u = g_kernel_ticks s" "cfg u = cfg s"
    "timer_service_task_index u = timer_service_task_index s" "task_count u = task_count s" "primask u = p"
proof -
  have "linked_timers (cs_enter s) xs" using assms(1) by simp
  from timer_link_list [OF this assms(2)] obtain nxt q where l:
    "timer_link_locked a (cs_enter s) = Some ((set_timer a ((timers s a)\<lparr>tm_next := nxt\<rparr>) (cs_enter s))\<lparr>timer_list := q\<rparr>)"
    "linked_timers ((set_timer a ((timers s a)\<lparr>tm_next := nxt\<rparr>) (cs_enter s))\<lparr>timer_list := q\<rparr>) (linked_with a xs)"
    by (simp only: cs_enter_fields) blast
  let ?v = "(set_timer a ((timers s a)\<lparr>tm_next := nxt\<rparr>) (cs_enter s))\<lparr>timer_list := q\<rparr>"
  let ?u = "arch_critical_exit p (set_timer a (f (timers ?v a)) ?v)"
  have "linked_timers ?u (linked_with a xs)"
    unfolding linked_cs_exit using l(2) by (subst linked_timers_cong [of _ ?v]) (auto simp: f)
  then show thesis
    by (intro that [of ?u]) (auto simp: l(1))
qed

lemma timer_link_ticks: "timer_link_locked a s = Some v \<Longrightarrow> g_kernel_ticks v = g_kernel_ticks s"
  by (auto simp: timer_link_locked_def split: option.splits)

lemma start_eqs:
  "a \<noteq> NULL \<Longrightarrow> JRT_TimerStart a d s = (case timer_link_locked a (cs_enter s) of None \<Rightarrow> None
     | Some v \<Rightarrow> Some (arch_critical_exit (primask s) (set_timer a ((timers v a)\<lparr>tm_deadline := g_kernel_ticks s + d,
         tm_period := 0, tm_reload_ticks := d, tm_periodic := 0, tm_active := TIMER_ACTIVE\<rparr>) v)))"
  "a \<noteq> NULL \<Longrightarrow> d \<noteq> 0 \<Longrightarrow> JRT_TimerStartPeriodic a d s = (case timer_link_locked a (cs_enter s) of None \<Rightarrow> None
     | Some v \<Rightarrow> Some (arch_critical_exit (primask s) (set_timer a ((timers v a)\<lparr>tm_deadline := g_kernel_ticks s + d,
         tm_period := d, tm_reload_ticks := d, tm_periodic := 1, tm_active := TIMER_ACTIVE\<rparr>) v)))"
  "a \<noteq> NULL \<Longrightarrow> tm_reload_ticks (timers s a) \<noteq> 0 \<Longrightarrow> JRT_TimerRestart a s = (case timer_link_locked a (cs_enter s) of None \<Rightarrow> None
     | Some v \<Rightarrow> Some (arch_critical_exit (primask s) (set_timer a ((timers v a)\<lparr>
         tm_deadline := g_kernel_ticks s + tm_reload_ticks (timers v a), tm_active := TIMER_ACTIVE\<rparr>) v)))"
  by (auto simp: JRT_TimerStart_def JRT_TimerStartPeriodic_def JRT_TimerRestart_def arch_critical_enter_eq
      dest!: timer_link_ticks split: option.splits)

section \<open>The invariant of the timer list\<close>

text \<open>
  The list ends, the two records of "periodic" agree, a timer that is not on the list has nothing
  to serve, and the service task never waits while a listed timer has an expiration to serve.
\<close>

definition servable :: "JRT_Timer_t \<Rightarrow> bool" where
  "servable t \<longleftrightarrow> tm_callback t \<noteq> NULL \<and> tm_expirations t \<noteq> 0"

definition timers_ok :: "bool \<Rightarrow> (addr \<Rightarrow> JRT_Timer_t) \<Rightarrow> addr set \<Rightarrow> bool" where
  "timers_ok waiting ts A \<longleftrightarrow> (\<forall>a. \<not> timer_fault (ts a)) \<and> (\<forall>a. a \<notin> A \<longrightarrow> tm_expirations (ts a) = 0)
     \<and> (waiting \<longrightarrow> (\<forall>a\<in>A. \<not> servable (ts a)))"

definition timer_inv :: "kstate \<Rightarrow> bool" where
  "timer_inv s \<longleftrightarrow> (\<exists>xs. linked_timers s xs \<and> timers_ok (timer_service_waiting s) (timers s) (set xs))"

lemma timer_invI:
  "linked_timers s xs \<Longrightarrow> timers_ok (timer_service_waiting s) (timers s) (set xs) \<Longrightarrow> timer_inv s"
  unfolding timer_inv_def by blast

text \<open>Rewriting one listed timer without making it servable.\<close>

lemma timers_ok_update:
  assumes "timers_ok w ts A" and "\<not> timer_fault t" and "servable t \<Longrightarrow> servable (ts a)"
    and "tm_expirations (ts a) = 0 \<Longrightarrow> tm_expirations t = 0"
  shows "timers_ok w (ts(a := t)) (insert a A)"
  using assms by (cases "a \<in> A") (auto simp: timers_ok_def servable_def)

lemma timers_ok_same:
  assumes "timers_ok w ts A" and "timer_fault t = timer_fault (ts a)" and "servable t \<Longrightarrow> servable (ts a)"
    and "tm_expirations (ts a) = 0 \<Longrightarrow> tm_expirations t = 0"
  shows "timers_ok w (ts(a := t)) A"
  using assms by (cases "a \<in> A") (auto simp: timers_ok_def servable_def)

lemma waiting_cong:
  "tasks t = tasks s \<Longrightarrow> timer_service_task_index t = timer_service_task_index s \<Longrightarrow> cfg t = cfg s \<Longrightarrow>
     timer_service_waiting t = timer_service_waiting s"
  by (simp add: timer_service_waiting_def)

lemma timers_ok_wake: "timers_ok w ts A \<Longrightarrow> timers_ok False ts A"
  by (simp add: timers_ok_def)

lemma waiting_timers [simp]: "timer_service_waiting (s\<lparr>timers := f\<rparr>) = timer_service_waiting s"
  by (rule waiting_cong) simp_all

lemma waiting_cs [simp]:
  "timer_service_waiting (cs_enter s) = timer_service_waiting s"
  "timer_service_waiting (arch_critical_exit p s) = timer_service_waiting s"
  "timer_service_waiting (arch_request_switch s) = timer_service_waiting s"
  by (simp_all add: timer_service_waiting_def arch_request_switch_def request_switch_def)

lemma tick_timer_inv:
  assumes "timer_inv s"
  shows "\<exists>t. kernel_timer_tick s = Some t \<and> timer_inv t"
proof -
  obtain xs where xs: "linked_timers s xs" "timers_ok (timer_service_waiting s) (timers s) (set xs)"
    using assms by (auto simp: timer_inv_def)
  let ?W = "tick_wakes (g_kernel_ticks s) (timers s) xs"
  let ?t = "(if ?W then task_timer_service_wake_locked s else s)\<lparr>timers := tick_timers (g_kernel_ticks s) (set xs) (timers s)\<rparr>"
  have "linked_timers ?t xs"
    using xs(1) by (subst linked_timers_cong [of _ s]) (simp_all add: timer_service_wake_fields tick_timers_def)
  moreover have "timers_ok (timer_service_waiting ?t) (timers ?t) (set xs)"
    using xs(2) by (cases ?W) (auto simp: timers_ok_def tick_timers_def timer_fault_def servable_def tick_wakes_def)
  ultimately show ?thesis using kernel_timer_tick_list [OF xs(1)] by (blast intro: timer_invI)
qed

lemma start_timer_inv:
  assumes inv: "timer_inv s" and a: "a \<noteq> NULL"
    and f: "\<And>t. tm_next (f t) = tm_next t" "\<And>t n. tm_expirations (f (t\<lparr>tm_next := n\<rparr>)) = tm_expirations t"
      "\<And>t n. tm_callback (f (t\<lparr>tm_next := n\<rparr>)) = tm_callback t"
    and ok: "\<And>t n. \<not> timer_fault t \<Longrightarrow> \<not> timer_fault (f (t\<lparr>tm_next := n\<rparr>))"
  shows "\<exists>u. (case timer_link_locked a (cs_enter s) of None \<Rightarrow> None
      | Some s \<Rightarrow> Some (arch_critical_exit p (set_timer a (f (timers s a)) s))) = Some u \<and> timer_inv u"
proof -
  obtain xs where xs: "linked_timers s xs" "timers_ok (timer_service_waiting s) (timers s) (set xs)"
    using inv by (auto simp: timer_inv_def)
  from start_list [OF xs(1) a f(1), of p] obtain u where
    u: "(case timer_link_locked a (cs_enter s) of None \<Rightarrow> None
        | Some s \<Rightarrow> Some (arch_critical_exit p (set_timer a (f (timers s a)) s))) = Some u"
      "linked_timers u (linked_with a xs)" "\<exists>nxt. timers u = (timers s)(a := f ((timers s a)\<lparr>tm_next := nxt\<rparr>))"
      "tasks u = tasks s" "g_kernel_ticks u = g_kernel_ticks s" "cfg u = cfg s"
      "timer_service_task_index u = timer_service_task_index s" .
  have "timer_service_waiting u = timer_service_waiting s" using u by (intro waiting_cong)
  moreover have "\<not> timer_fault (timers s a)" using xs(2) by (simp add: timers_ok_def)
  moreover obtain nxt where n: "timers u = (timers s)(a := f ((timers s a)\<lparr>tm_next := nxt\<rparr>))" using u(3) by blast
  moreover have "timers_ok (timer_service_waiting s) ((timers s)(a := f ((timers s a)\<lparr>tm_next := nxt\<rparr>))) (insert a (set xs))"
    by (rule timers_ok_update [OF xs(2)]) (use \<open>\<not> timer_fault (timers s a)\<close> f(2,3) ok in \<open>simp_all add: servable_def\<close>)
  ultimately have "timers_ok (timer_service_waiting u) (timers u) (set (linked_with a xs))" by simp
  with u(1,2) show ?thesis by (blast intro: timer_invI)
qed

lemma update_timer_inv:
  assumes inv: "timer_inv s" and nx: "tm_next t = tm_next (timers s a)" and fault: "timer_fault t = timer_fault (timers s a)"
    and serve: "servable t \<Longrightarrow> servable (timers s a)" and none: "tm_expirations (timers s a) = 0 \<Longrightarrow> tm_expirations t = 0"
  shows "timer_inv (arch_critical_exit p (set_timer a t (cs_enter s)))"
proof -
  obtain xs where xs: "linked_timers s xs" "timers_ok (timer_service_waiting s) (timers s) (set xs)"
    using inv by (auto simp: timer_inv_def)
  show ?thesis
  proof (rule timer_invI)
    show "linked_timers (arch_critical_exit p (set_timer a t (cs_enter s))) xs"
      using xs(1) by (subst linked_timers_cong [of _ s]) (simp_all add: nx)
    show "timers_ok (timer_service_waiting (arch_critical_exit p (set_timer a t (cs_enter s))))
        (timers (arch_critical_exit p (set_timer a t (cs_enter s)))) (set xs)"
      using timers_ok_same [OF xs(2) fault serve none] by simp
  qed
qed

lemma create_timer_inv:
  assumes inv: "timer_inv s"
  shows "\<exists>t. JRT_TimerCreateStatic a s = Some t \<and> timer_inv t"
proof (cases "a = NULL")
  case True
  then show ?thesis using inv by (simp add: JRT_TimerCreateStatic_def)
next
  case a: False
  obtain xs where xs: "linked_timers s xs" "timers_ok (timer_service_waiting s) (timers s) (set xs)"
    using inv by (auto simp: timer_inv_def)
  let ?z = "\<lambda>n. \<lparr>tm_deadline = 0, tm_period = 0, tm_reload_ticks = 0, tm_expirations = 0, tm_active = TIMER_INACTIVE,
      tm_periodic = 0, tm_callback = NULL, tm_argument = NULL, tm_next = n\<rparr>"
  let ?n = "if a \<in> set xs then tm_next (timers s a) else NULL"
  let ?u = "set_timer a (?z ?n) (cs_enter s)"
  have l: "timer_is_linked_locked a (cs_enter s) = Some (if a \<in> set xs then 1 else 0)"
    using xs(1) timer_objects.is_linked_objects by (simp add: timer_is_linked_locked_def linked_timers_def)
  have "linked_timers ?u xs"
  proof (cases "a \<in> set xs")
    case True
    with xs(1) show ?thesis by (subst linked_timers_cong [of _ s]) auto
  next
    case False
    then have "(\<lambda>b. tm_next (timers ?u b)) = (\<lambda>b. tm_next (timers s b))(a := NULL)" by auto
    with xs(1) False show ?thesis by (simp add: linked_timers_list list_at_update)
  qed
  then obtain nxt q where v:
    "timer_link_locked a ?u = Some ((set_timer a (?z nxt) (cs_enter s))\<lparr>timer_list := q\<rparr>)"
    "linked_timers ((set_timer a (?z nxt) (cs_enter s))\<lparr>timer_list := q\<rparr>) (linked_with a xs)"
    by (rule timer_link_list [OF _ a]) simp
  let ?t = "arch_critical_exit (primask s) ((set_timer a (?z nxt) (cs_enter s))\<lparr>timer_list := q\<rparr>)"
  have "timer_service_waiting ?t = timer_service_waiting s" by (rule waiting_cong) simp_all
  then have "timers_ok (timer_service_waiting ?t) (timers ?t) (set (linked_with a xs))"
    using timers_ok_update [OF xs(2), of "?z nxt" a] by (simp add: timer_fault_def servable_def)
  moreover have "JRT_TimerCreateStatic a s = Some ?t"
    using a l v(1) by (cases "a \<in> set xs") (simp_all add: JRT_TimerCreateStatic_def arch_critical_enter_eq)
  ultimately show ?thesis using v(2) timer_invI by (metis linked_cs_exit)
qed

lemma set_callback_inv:
  assumes inv: "timer_inv s"
  shows "timer_inv (JRT_TimerSetCallback a cb arg s)"
proof (cases "a = NULL")
  case True
  then show ?thesis using inv by (simp add: JRT_TimerSetCallback_def)
next
  case a: False
  obtain xs where xs: "linked_timers s xs" "timers_ok (timer_service_waiting s) (timers s) (set xs)"
    using inv by (auto simp: timer_inv_def)
  let ?t = "(timers s a)\<lparr>tm_callback := cb, tm_argument := arg\<rparr>"
  show ?thesis
  proof (cases "cb \<noteq> NULL \<and> tm_expirations (timers s a) \<noteq> 0")
    case True
    let ?u = "JRT_TimerSetCallback a cb arg s"
    have e: "?u = arch_request_switch (arch_critical_exit (primask s)
        (task_timer_service_wake_locked (set_timer a ?t (cs_enter s))))"
      using a True by (simp add: JRT_TimerSetCallback_def arch_critical_enter_eq)
    then have u: "timers ?u = (timers s)(a := ?t)" "timer_list ?u = timer_list s" "\<not> timer_service_waiting ?u"
      unfolding e by (simp_all add: timer_service_wake_fields)
    have "linked_timers ?u xs" using xs(1) u by (subst linked_timers_cong [of _ s]) simp_all
    moreover have "timers_ok False (timers ?u) (set xs)"
      using xs(2) u(1) by (auto simp: timers_ok_def timer_fault_def)
    ultimately show ?thesis using u(3) by (intro timer_invI [of ?u xs]) simp_all
  next
    case False
    then have "JRT_TimerSetCallback a cb arg s = arch_critical_exit (primask s) (set_timer a ?t (cs_enter s))"
      using a by (auto simp: JRT_TimerSetCallback_def arch_critical_enter_eq)
    then show ?thesis using update_timer_inv [OF inv, of ?t a] False by (auto simp: timer_fault_def servable_def)
  qed
qed

section \<open>Properties of timers\<close>

text \<open>The timer tick is exact: on a list that ends, every listed timer that is active and whose
  deadline is reached counts one expiration and is either reloaded by its period or stopped, no
  other timer changes, and the service task is woken, if it waits, exactly when a timer with a
  callback expired; no other task changes.\<close>

theorem timer_tick_exact:
  assumes "linked_timers s xs"
  shows "\<exists>t. kernel_timer_tick s = Some t
    \<and> timers t = (\<lambda>a. if a \<in> set xs \<and> timer_due (g_kernel_ticks s) (timers s a)
        then (if tm_periodic (timers s a) \<noteq> 0
              then (timers s a)\<lparr>tm_expirations := tm_expirations (timers s a) + 1,
                     tm_deadline := tm_deadline (timers s a) + tm_period (timers s a)\<rparr>
              else (timers s a)\<lparr>tm_expirations := tm_expirations (timers s a) + 1, tm_active := TIMER_INACTIVE\<rparr>)
        else timers s a)
    \<and> linked_timers t xs
    \<and> tasks t = (if timer_service_waiting s
          \<and> (\<exists>a\<in>set xs. timer_due (g_kernel_ticks s) (timers s a) \<and> tm_callback (timers s a) \<noteq> NULL)
        then (tasks s)(timer_service_task_index s := awake 1 (tasks s (timer_service_task_index s)))
        else tasks s)"
proof -
  let ?t = "(if tick_wakes (g_kernel_ticks s) (timers s) xs then task_timer_service_wake_locked s else s)
     \<lparr>timers := tick_timers (g_kernel_ticks s) (set xs) (timers s)\<rparr>"
  have t: "kernel_timer_tick s = Some ?t" by (rule kernel_timer_tick_list [OF assms])
  have timers: "timers ?t = tick_timers (g_kernel_ticks s) (set xs) (timers s)" by simp
  moreover have "linked_timers ?t xs"
    using assms by (subst linked_timers_cong [of _ s]) (simp_all add: timer_service_wake_fields tick_timers_def)
  moreover have "tasks ?t = (if timer_service_waiting s \<and> tick_wakes (g_kernel_ticks s) (timers s) xs
      then (tasks s)(timer_service_task_index s := awake 1 (tasks s (timer_service_task_index s))) else tasks s)"
    by (simp add: timer_service_wake_fields)
  ultimately show ?thesis
    by (intro exI [of _ ?t] conjI t) (auto simp: tick_timers_def ticked_def tick_wakes_def fun_eq_iff)
qed

text \<open>A state with one periodic timer that has a callback and is due, the service task waiting.\<close>

definition timer_state :: kstate where
  "timer_state = (reset_state default_config)\<lparr>task_count := 2, timer_service_task_index := 1, g_kernel_ticks := 5,
     timer_list := 0x100,
     timers := (\<lambda>_. zero_timer)(0x100 := zero_timer\<lparr>tm_deadline := 5, tm_period := 5, tm_reload_ticks := 5,
       tm_active := 1, tm_periodic := 1, tm_callback := 0x2000\<rparr>),
     tasks := (\<lambda>_. zero_task)(1 := blocked_on 0x20001000 TASK_WAIT_TIMER_SERVICE (make_deadline 0 JRT_WAIT_FOREVER) zero_task)\<rparr>"

lemma timer_state_simps:
  "linked_timers timer_state [0x100]" "timer_service_waiting timer_state" "g_kernel_ticks timer_state = 5"
  "timers timer_state = (\<lambda>_. zero_timer)(0x100 := zero_timer\<lparr>tm_deadline := 5, tm_period := 5, tm_reload_ticks := 5,
       tm_active := 1, tm_periodic := 1, tm_callback := 0x2000\<rparr>)"
  "timer_service_task_index timer_state = 1"
  by (simp_all add: timer_state_def linked_timers_list timer_service_waiting_def reset_state_def default_config_def zero_timer_def)

lemma timer_state_inv: "timer_inv timer_state"
  by (rule timer_invI [OF timer_state_simps(1)])
    (simp add: timer_state_simps timers_ok_def timer_fault_def servable_def zero_timer_def)

theorem timer_tick_witness:
  "\<exists>t. kernel_timer_tick timer_state = Some t \<and> tm_expirations (timers t 0x100) = 1
     \<and> tm_deadline (timers t 0x100) = 10 \<and> t_state (tasks t 1) = JRT_TASK_STATE_READY"
proof -
  have "timer_due 5 (timers timer_state 0x100)" by (simp add: timer_due_def timer_state_simps due_now [of 0, simplified])
  with timer_tick_exact [OF timer_state_simps(1)] timer_state_simps show ?thesis by (auto simp: zero_timer_def)
qed



text \<open>C29: a one-shot timer fires once, at exactly its delay, for delays of 1 to \<open>2\<^sup>31 + 1\<close> ticks; a
  delay of 0 fires at the next tick, and so does a longer delay, because the tick compares the
  deadline as a signed difference: a one-shot of \<open>2\<^sup>31 + 2\<close> ticks or more expires after one tick.\<close>

theorem timer_oneshot_exact:
  assumes "linked_timers s xs" and "a \<noteq> NULL"
  shows "\<exists>u t. JRT_TimerStart a d s = Some u \<and> timer_ticks n u = Some t
    \<and> tm_expirations (timers t a) = tm_expirations (timers s a)
        + (if (if d = 0 \<or> d > 0x80000001 then 1 else unat d) \<le> n then 1 else 0)
    \<and> tm_active (timers t a) =
        (if (if d = 0 \<or> d > 0x80000001 then 1 else unat d) \<le> n then TIMER_INACTIVE else TIMER_ACTIVE)"
proof -
  let ?f = "\<lambda>t. t\<lparr>tm_deadline := g_kernel_ticks s + d, tm_period := 0, tm_reload_ticks := d, tm_periodic := 0, tm_active := TIMER_ACTIVE\<rparr>"
  obtain u where u: "(case timer_link_locked a (cs_enter s) of None \<Rightarrow> None
      | Some v \<Rightarrow> Some (arch_critical_exit (primask s) (set_timer a (?f (timers v a)) v))) = Some u"
    "linked_timers u (linked_with a xs)" "\<exists>nxt. timers u = (timers s)(a := ?f ((timers s a)\<lparr>tm_next := nxt\<rparr>))"
    "g_kernel_ticks u = g_kernel_ticks s"
    by (rule start_list [OF assms(1,2), of ?f]) auto
  have start: "JRT_TimerStart a d s = Some u" using start_eqs(1) [OF assms(2), of d s] u(1) by simp
  obtain t where t: "timer_ticks n u = Some t" "timers t a = runs n (g_kernel_ticks u) (timers u a)"
    using timer_ticks_list [OF u(2), of n] by auto
  have "runs n (g_kernel_ticks u) (timers u a) = (if fires_at d \<le> n
      then (timers u a)\<lparr>tm_expirations := tm_expirations (timers u a) + 1, tm_active := TIMER_INACTIVE\<rparr> else timers u a)"
    using u(3,4) by (intro runs_oneshot) auto
  then have "timers t a = (if fires_at d \<le> n
      then (timers u a)\<lparr>tm_expirations := tm_expirations (timers u a) + 1, tm_active := TIMER_INACTIVE\<rparr> else timers u a)"
    by (simp only: t(2))
  with t(1) u(3) start show ?thesis unfolding fires_at_def by (cases "fires_at d \<le> n") (auto simp: fires_at_def)
qed

theorem timer_oneshot_witness:
  "(\<exists>u t. JRT_TimerStart 0x200 7 timer_state = Some u \<and> timer_ticks 6 u = Some t \<and> tm_expirations (timers t 0x200) = 0)
   \<and> (\<exists>u t. JRT_TimerStart 0x200 0xC0000000 timer_state = Some u \<and> timer_ticks 1 u = Some t \<and> tm_expirations (timers t 0x200) = 1)"
  using timer_oneshot_exact [OF timer_state_simps(1), of "0x200" 7 6]
    timer_oneshot_exact [OF timer_state_simps(1), of "0x200" "0xC0000000" 1]
  by (auto simp: timer_state_simps zero_timer_def)

lemma start_invs:
  assumes "timer_inv s"
  shows "\<exists>t. JRT_TimerStart a d s = Some t \<and> timer_inv t"
    and "\<exists>t. JRT_TimerStartPeriodic a d s = Some t \<and> timer_inv t"
    and "\<exists>t. JRT_TimerRestart a s = Some t \<and> timer_inv t"
proof -
  show "\<exists>t. JRT_TimerStart a d s = Some t \<and> timer_inv t"
  proof (cases "a = NULL")
    case False
    show ?thesis unfolding start_eqs(1) [OF False]
      by (rule start_timer_inv [OF assms False]) (auto simp: timer_fault_def)
  qed (simp add: JRT_TimerStart_def assms)
  show "\<exists>t. JRT_TimerStartPeriodic a d s = Some t \<and> timer_inv t"
  proof (cases "a = NULL \<or> d = 0")
    case False
    then have a: "a \<noteq> NULL" "d \<noteq> 0" by auto
    show ?thesis unfolding start_eqs(2) [OF a]
      by (rule start_timer_inv [OF assms a(1)]) (auto simp: timer_fault_def a(2))
  qed (auto simp: JRT_TimerStartPeriodic_def assms)
  show "\<exists>t. JRT_TimerRestart a s = Some t \<and> timer_inv t"
  proof (cases "a = NULL \<or> tm_reload_ticks (timers s a) = 0")
    case True
    have "set_timer a (timers s a) (cs_enter s) = cs_enter s" by (simp add: set_timer_def cs_enter_def)
    then have "timer_inv (arch_critical_exit (primask s) (cs_enter s))"
      using update_timer_inv [OF assms, of "timers s a" a "primask s"] by simp
    with True assms show ?thesis by (auto simp: JRT_TimerRestart_def arch_critical_enter_eq)
  next
    case False
    then have a: "a \<noteq> NULL" "tm_reload_ticks (timers s a) \<noteq> 0" by auto
    show ?thesis unfolding start_eqs(3) [OF a]
      by (rule start_timer_inv [OF assms a(1), of "\<lambda>t. t\<lparr>tm_deadline := g_kernel_ticks s + tm_reload_ticks t, tm_active := TIMER_ACTIVE\<rparr>"])
        (auto simp: timer_fault_def)
  qed
qed

lemma stop_invs:
  assumes "timer_inv s"
  shows "timer_inv (JRT_TimerStop a s)" and "timer_inv (snd (JRT_TimerTakeExpirations a s))"
proof -
  show "timer_inv (JRT_TimerStop a s)"
    using assms update_timer_inv [OF assms, of "(timers s a)\<lparr>tm_active := TIMER_INACTIVE\<rparr>" a]
    by (simp add: JRT_TimerStop_def arch_critical_enter_eq timer_fault_def servable_def)
  show "timer_inv (snd (JRT_TimerTakeExpirations a s))"
    using assms update_timer_inv [OF assms, of "(timers s a)\<lparr>tm_expirations := 0\<rparr>" a]
    by (simp add: JRT_TimerTakeExpirations_def arch_critical_enter_eq timer_fault_def servable_def)
qed



lemma timer_claim_list:
  "list_at (\<lambda>a. tm_next (ts a)) p xs \<Longrightarrow> timer_claim_loop ts p = Some (find (\<lambda>a. servable (ts a)) xs)"
proof (induction xs arbitrary: p)
  case Nil
  then show ?case by (subst timer_claim_loop.simps) simp
next
  case (Cons x xs)
  then show ?case by (subst timer_claim_loop.simps) (auto simp: servable_def)
qed

lemma timer_service_block_fields:
  assumes "current_task s = timer_service_task_index s"
  shows "timer_service_waiting (task_timer_service_block_locked p s)"
    and "timers (task_timer_service_block_locked p s) = timers s"
    and "timer_list (task_timer_service_block_locked p s) = timer_list s"
  using assms by (simp_all add: task_timer_service_block_locked_def task_wait_begin_eq task_wait_begin_until_eq
      timer_service_waiting_def Let_def arch_yield_def request_switch_def)

text \<open>The claim of the service task serves the first listed timer that has a callback and an
  expiration, taking exactly one, and blocks the service task if and only if there is none; it
  always ends and keeps the timer invariant.\<close>

theorem timer_claim_exact:
  assumes "timer_inv s" and "linked_timers s xs" and "current_task s = timer_service_task_index s"
  shows "\<exists>r t. kernel_timer_service_claim s = Some (r, t) \<and> timer_inv t
    \<and> (case find (\<lambda>a. tm_callback (timers s a) \<noteq> NULL \<and> tm_expirations (timers s a) \<noteq> 0) xs of
         Some a \<Rightarrow> r = Some (tm_callback (timers s a), tm_argument (timers s a)) \<and> tasks t = tasks s
           \<and> timers t = (timers s)(a := (timers s a)\<lparr>tm_expirations := tm_expirations (timers s a) - 1\<rparr>)
       | None \<Rightarrow> r = None \<and> timer_service_waiting t \<and> timers t = timers s)"
proof -
  have ok: "timers_ok (timer_service_waiting s) (timers s) (set xs)"
    using assms(1,2) linked_timers_unique by (auto simp: timer_inv_def)
  have loop: "timer_claim_loop (timers s) (timer_list s) = Some (find (\<lambda>a. servable (timers s a)) xs)"
    using assms(2) timer_claim_list by (simp add: linked_timers_list)
  show ?thesis
  proof (cases "find (\<lambda>a. servable (timers s a)) xs")
    case (Some a)
    then have a: "servable (timers s a)" by (auto simp: find_Some_iff)
    let ?t = "(timers s a)\<lparr>tm_expirations := tm_expirations (timers s a) - 1\<rparr>"
    have "timer_inv (arch_critical_exit (primask s) (set_timer a ?t (cs_enter s)))"
      using a by (intro update_timer_inv [OF assms(1)]) (simp_all add: timer_fault_def servable_def)
    with Some loop show ?thesis
      by (simp add: kernel_timer_service_claim_def arch_critical_enter_eq servable_def Let_def)
  next
    case None
    let ?u = "task_timer_service_block_locked (primask s) (cs_enter s)"
    have u: "timer_service_waiting ?u" "timers ?u = timers s" "timer_list ?u = timer_list s"
      using timer_service_block_fields [of "cs_enter s" "primask s"] assms(3) by simp_all
    have "linked_timers ?u xs" using assms(2) u by (subst linked_timers_cong [of _ s]) simp_all
    moreover have "timers_ok True (timers s) (set xs)"
      using ok None by (auto simp: timers_ok_def find_None_iff)
    ultimately have "timer_inv ?u" by (intro timer_invI [of ?u xs]) (simp_all add: u)
    with None loop u show ?thesis
      by (simp add: kernel_timer_service_claim_def arch_critical_enter_eq servable_def)
  qed
qed

theorem timer_claim_witness:
  "\<exists>t. kernel_timer_service_claim (timer_state\<lparr>current_task := 1\<rparr>) = Some (None, t) \<and> timer_service_waiting t"
proof -
  let ?s = "timer_state\<lparr>current_task := 1\<rparr>"
  have xs: "linked_timers ?s [0x100]" using timer_state_simps(1) by (simp add: linked_timers_def)
  have w: "timer_service_waiting ?s" using timer_state_simps(2) by (simp add: timer_service_waiting_def)
  have "timers_ok (timer_service_waiting ?s) (timers ?s) (set [0x100])"
    using w by (simp add: timer_state_simps timers_ok_def timer_fault_def servable_def zero_timer_def)
  then have "timer_inv ?s" by (rule timer_invI [OF xs])
  with timer_claim_exact [OF this xs] show ?thesis by (auto simp: timer_state_simps zero_timer_def)
qed

lemma timer_state_loop_list:
  "list_at (\<lambda>a. tm_next (ts a)) p ys \<Longrightarrow> timer_state_loop ts p = Some
      (case find (\<lambda>a. timer_fault (ts a)) ys of None \<Rightarrow> (JRT_INVARIANT_NONE, None)
       | Some a \<Rightarrow> (JRT_INVARIANT_TIMER_PERIODIC_STATE, Some a))"
proof (induction ys arbitrary: p)
  case Nil
  then show ?case by (subst timer_state_loop.simps) simp
next
  case (Cons y ys)
  then show ?case by (subst timer_state_loop.simps) auto
qed

lemma timer_invariant_check_list:
  assumes "linked_timers s xs"
  shows "timer_invariant_check s = Some
    (case find (\<lambda>a. timer_fault (timers s a)) xs of None \<Rightarrow> (JRT_INVARIANT_NONE, None)
     | Some a \<Rightarrow> (JRT_INVARIANT_TIMER_PERIODIC_STATE, Some a))"
  using assms timer_objects.find_cycle_none timer_state_loop_list
  by (simp add: timer_invariant_check_def linked_timers_def) (simp add: linked_timers_list flip: linked_timers_def)

lemma timer_invariant_check_cyclic:
  assumes "\<nexists>xs. linked_timers s xs"
  shows "\<exists>c. timer_invariant_check s = Some (JRT_INVARIANT_TIMER_LIST_CYCLE, Some c)"
  using timer_objects.find_cycle_found assms by (fastforce simp: timer_invariant_check_def linked_timers_def)

text \<open>The list ends and no listed timer is faulty.\<close>

definition timers_wf :: "kstate \<Rightarrow> bool" where
  "timers_wf s \<longleftrightarrow> (\<exists>xs. linked_timers s xs \<and> (\<forall>a\<in>set xs. \<not> timer_fault (timers s a)))"

lemma timers_wf_check: "\<exists>code object. timer_invariant_check s = Some (code, object) \<and> (code = JRT_INVARIANT_NONE \<longleftrightarrow> timers_wf s)"
proof (cases "\<exists>xs. linked_timers s xs")
  case False
  with timer_invariant_check_cyclic [of s] show ?thesis by (auto simp: timers_wf_def)
next
  case True
  then obtain xs where xs: "linked_timers s xs" by blast
  then have wf: "timers_wf s \<longleftrightarrow> find (\<lambda>a. timer_fault (timers s a)) xs = None"
    using linked_timers_unique by (auto simp: timers_wf_def find_None_iff)
  show ?thesis
    unfolding timer_invariant_check_list [OF xs] wf by (cases "find (\<lambda>a. timer_fault (timers s a)) xs") simp_all
qed

lemma timer_inv_wf: "timer_inv s \<Longrightarrow> timers_wf s"
  by (auto simp: timer_inv_def timers_wf_def timers_ok_def)

text \<open>The timer check always ends, on every heap, and its verdict is exact: it passes if and
  only if the list reaches null and on every listed timer "periodic" agrees with a positive period.\<close>

theorem timer_invariant_check_exact:
  "\<exists>code object. timer_invariant_check s = Some (code, object)
    \<and> (code = JRT_INVARIANT_NONE \<longleftrightarrow>
        (\<exists>xs. linked_timers s xs \<and> (\<forall>a\<in>set xs. (tm_periodic (timers s a) \<noteq> 0) = (tm_period (timers s a) \<noteq> 0))))"
proof -
  have "(\<not> timer_fault t) = ((tm_periodic t \<noteq> 0) = (tm_period t \<noteq> 0))" for t by (auto simp: timer_fault_def)
  with timers_wf_check [of s] show ?thesis by (simp only: timers_wf_def)
qed

theorem timer_invariant_check_witness:
  "\<exists>object. timer_invariant_check timer_state = Some (JRT_INVARIANT_NONE, object)"
proof -
  have "(tm_periodic (timers timer_state a) \<noteq> 0) = (tm_period (timers timer_state a) \<noteq> 0)" for a
    by (simp add: timer_state_simps zero_timer_def)
  with timer_invariant_check_exact [of timer_state] timer_state_simps(1) show ?thesis by auto
qed

end
