(* ===== verification/JRT_Events.thy ===== *)
theory JRT_Events
  imports JRT_Wait
begin

text \<open>
  Event groups and task notifications (\<open>kernel/task.c\<close>, lines 558 to 852): setting, reading and
  waiting for event bits, and the notification value of a task. A wait is split at its
  \<open>arch_yield\<close>: the \<open>_resume\<close> definitions are the code after it.
\<close>

section \<open>Event groups\<close>

definition event_condition :: "u32 \<Rightarrow> u32 \<Rightarrow> u32 \<Rightarrow> bool" where
  "event_condition current requested wait_all \<longleftrightarrow>
     (if wait_all \<noteq> 0 then current AND requested = requested else current AND requested \<noteq> 0)"

definition set_event_bits :: "addr \<Rightarrow> u32 \<Rightarrow> kstate \<Rightarrow> kstate" where
  "set_event_bits grp bits s =
     s\<lparr>event_groups := (event_groups s)(grp := (event_groups s grp)\<lparr>eg_bits := bits\<rparr>)\<rparr>"

definition JRT_EventGroupCreateStatic :: "addr \<Rightarrow> kstate \<Rightarrow> kstate" where
  "JRT_EventGroupCreateStatic grp s = (if grp \<noteq> NULL then set_event_bits grp 0 s else s)"

text \<open>The body of the loop over all tasks.\<close>

definition event_wake_step :: "addr \<Rightarrow> u32 \<Rightarrow> kstate \<Rightarrow> kstate" where
  "event_wake_step grp index s =
    (if waits_on grp TASK_WAIT_EVENT_GROUP (tasks s index)
        \<and> event_condition (eg_bits (event_groups s grp))
             (t_event_wait_bits (tasks s index)) (t_event_wait_all (tasks s index))
     then task_wait_end index 1 0 s else s)"

definition event_group_set_bits_common :: "addr \<Rightarrow> u32 \<Rightarrow> int \<Rightarrow> kstate \<Rightarrow> u32 \<times> kstate" where
  "event_group_set_bits_common grp bits from_isr s =
    (if grp = NULL \<or> (if from_isr \<noteq> 0 then arch_in_isr s = 0 else arch_in_isr s \<noteq> 0) then (0, s)
     else
       let (saved_primask, s) = arch_critical_enter s;
           s = set_event_bits grp (eg_bits (event_groups s grp) OR bits) s;
           result = eg_bits (event_groups s grp);
           s = for_upto (task_count s) (event_wake_step grp) s;
           s = arch_critical_exit saved_primask s
       in (result, arch_request_switch s))"

definition JRT_EventGroupSetBits :: "addr \<Rightarrow> u32 \<Rightarrow> kstate \<Rightarrow> u32 \<times> kstate" where
  "JRT_EventGroupSetBits grp bits s = event_group_set_bits_common grp bits 0 s"

definition JRT_EventGroupGetBits :: "addr \<Rightarrow> kstate \<Rightarrow> u32 \<times> kstate" where
  "JRT_EventGroupGetBits grp s =
    (if grp = NULL then (0, s)
     else
       let (saved_primask, s) = arch_critical_enter s;
           result = eg_bits (event_groups s grp)
       in (result, arch_critical_exit saved_primask s))"

definition JRT_EventGroupSetBitsFromISR :: "addr \<Rightarrow> u32 \<Rightarrow> kstate \<Rightarrow> u32 \<times> kstate" where
  "JRT_EventGroupSetBitsFromISR grp bits s =
    (if arch_in_isr s = 0 then (0, s) else event_group_set_bits_common grp bits 1 s)"

definition JRT_EventGroupWaitBits ::
  "addr \<Rightarrow> u32 \<Rightarrow> int \<Rightarrow> int \<Rightarrow> u32 \<Rightarrow> kstate \<Rightarrow> u32 blocking" where
  "JRT_EventGroupWaitBits grp bits wait_all clear_on_exit timeout_ticks s =
    (if grp = NULL \<or> bits = 0 \<or> arch_in_isr s \<noteq> 0 then (Some 0, s)
     else
       let (saved_primask, s) = arch_critical_enter s;
           result = eg_bits (event_groups s grp)
       in if event_condition result bits (if wait_all \<noteq> 0 then 1 else 0)
          then
            let s = (if clear_on_exit \<noteq> 0 then set_event_bits grp (result AND NOT bits) s else s)
            in (Some (result AND bits), arch_critical_exit saved_primask s)
          else if timeout_ticks = 0 then (Some 0, arch_critical_exit saved_primask s)
          else
            let i = current_task s;
                s = set_task i ((tasks s i)\<lparr>t_event_wait_bits := bits,
                      t_event_wait_all := (if wait_all \<noteq> 0 then 1 else 0),
                      t_event_clear_on_exit := (if clear_on_exit \<noteq> 0 then 1 else 0)\<rparr>) s;
                s = task_wait_begin i grp TASK_WAIT_EVENT_GROUP timeout_ticks s;
                s = arch_critical_exit saved_primask s
            in (None, arch_yield s))"

definition event_group_wait_resume :: "addr \<Rightarrow> u32 \<Rightarrow> kstate \<Rightarrow> u32 \<times> kstate" where
  "event_group_wait_resume grp bits s =
    (let (saved_primask, s) = arch_critical_enter s;
         current = eg_bits (event_groups s grp);
         result = current AND bits;
         task = tasks s (current_task s);
         s = (if event_condition current bits (t_event_wait_all task) \<and> t_event_clear_on_exit task \<noteq> 0
              then set_event_bits grp (current AND NOT bits) s else s)
     in (result, arch_critical_exit saved_primask s))"

section \<open>Notifications\<close>

text \<open>The address of a control block: \<open>&tasks[i]\<close>, 26 words each.\<close>

definition task_address :: "jrt_config \<Rightarrow> u32 \<Rightarrow> addr" where
  "task_address c i = ld_tasks c + 104 * i"

definition task_notify_common :: "u32 \<Rightarrow> u32 \<Rightarrow> int \<Rightarrow> kstate \<Rightarrow> int \<times> kstate" where
  "task_notify_common task_id v from_isr s =
    (if (if from_isr \<noteq> 0 then arch_in_isr s = 0 else arch_in_isr s \<noteq> 0) then (0, s)
     else if \<not> task_id < task_count s then (0, s)
     else
       let (saved_primask, s) = arch_critical_enter s;
           task = tasks s task_id;
           coalesced = (if v \<noteq> 0 \<and> t_notification_value task \<noteq> 0 then 1 else 0 :: int);
           s = set_task task_id (task\<lparr>t_notification_value := t_notification_value task + v\<rparr>) s;
           s = (if t_state (tasks s task_id) = JRT_TASK_STATE_BLOCKED
                   \<and> t_wait_kind (tasks s task_id) = TASK_WAIT_NOTIFICATION
                then task_wait_end task_id 1 coalesced s
                else if coalesced \<noteq> 0 then task_benchmark_coalesced_locked task_id s
                else s);
           s = arch_critical_exit saved_primask s
       in (1, arch_request_switch s))"

definition JRT_TaskNotify :: "u32 \<Rightarrow> u32 \<Rightarrow> kstate \<Rightarrow> int \<times> kstate" where
  "JRT_TaskNotify task_id v s = task_notify_common task_id v 0 s"

definition JRT_TaskNotifyFromISR :: "u32 \<Rightarrow> u32 \<Rightarrow> kstate \<Rightarrow> int \<times> kstate" where
  "JRT_TaskNotifyFromISR task_id v s = task_notify_common task_id v 1 s"

text \<open>\<open>value_ptr\<close> is the caller's pointer; the result has what is written through it, if anything.\<close>

definition JRT_TaskNotifyTake :: "addr \<Rightarrow> u32 \<Rightarrow> kstate \<Rightarrow> (int \<times> u32 option) blocking" where
  "JRT_TaskNotifyTake value_ptr timeout_ticks s =
    (if value_ptr = NULL \<or> arch_in_isr s \<noteq> 0 then (Some (0, None), s)
     else
       let (saved_primask, s) = arch_critical_enter s;
           i = current_task s;
           notification = t_notification_value (tasks s i)
       in if notification \<noteq> 0
          then (Some (1, Some notification),
                arch_critical_exit saved_primask (set_task i ((tasks s i)\<lparr>t_notification_value := 0\<rparr>) s))
          else if timeout_ticks = 0 then (Some (0, None), arch_critical_exit saved_primask s)
          else
            let s = task_wait_begin i (task_address (cfg s) i) TASK_WAIT_NOTIFICATION timeout_ticks s;
                s = arch_critical_exit saved_primask s
            in (None, arch_yield s))"

definition task_notify_resume :: "kstate \<Rightarrow> (int \<times> u32) \<times> kstate" where
  "task_notify_resume s =
    (let (saved_primask, s) = arch_critical_enter s;
         i = current_task s;
         notification = t_notification_value (tasks s i);
         s = set_task i ((tasks s i)\<lparr>t_notification_value := 0\<rparr>) s
     in ((if notification \<noteq> 0 then 1 else 0, notification), arch_critical_exit saved_primask s))"

section \<open>What setting bits does\<close>

definition event_waiter :: "addr \<Rightarrow> u32 \<Rightarrow> task_t \<Rightarrow> bool" where
  "event_waiter grp current t \<longleftrightarrow> waits_on grp TASK_WAIT_EVENT_GROUP t
     \<and> event_condition current (t_event_wait_bits t) (t_event_wait_all t)"

lemma set_event_bits_fields [simp]:
  "tasks (set_event_bits g b s) = tasks s" "task_count (set_event_bits g b s) = task_count s"
  "eg_bits (event_groups (set_event_bits g b s) g') = (if g' = g then b else eg_bits (event_groups s g'))"
  "current_task (set_event_bits g b s) = current_task s" "primask (set_event_bits g b s) = primask s"
  "ipsr (set_event_bits g b s) = ipsr s"
  by (simp_all add: set_event_bits_def)

lemma not_waiter_awake [simp]: "\<not> event_waiter grp b (awake r t)"
  by (simp add: event_waiter_def waits_on_def)

lemma event_wake_step_fields:
  "tasks (event_wake_step g i s) = (if event_waiter g (eg_bits (event_groups s g)) (tasks s i)
     then (tasks s)(i := awake 1 (tasks s i)) else tasks s)"
  "event_groups (event_wake_step g i s) = event_groups s"
  "task_count (event_wake_step g i s) = task_count s"
  "current_task (event_wake_step g i s) = current_task s"
  by (simp_all add: event_wake_step_def event_waiter_def task_wait_end_eq)

lemma event_wake_all:
  fixes s :: kstate and g :: addr
  defines "t \<equiv> for_upto (task_count s) (event_wake_step g) s"
  shows "tasks t = (\<lambda>i. if i < task_count s \<and> event_waiter g (eg_bits (event_groups s g)) (tasks s i)
      then awake 1 (tasks s i) else tasks s i)"
    and "event_groups t = event_groups s" and "task_count t = task_count s" and "current_task t = current_task s"
proof -
  let ?W = "\<lambda>i. event_waiter g (eg_bits (event_groups s g)) (tasks s i)"
  have "event_groups t = event_groups s \<and> task_count t = task_count s \<and> current_task t = current_task s
      \<and> tasks t = (\<lambda>i. if unat i < unat (task_count s) \<and> ?W i then awake 1 (tasks s i) else tasks s i)"
    unfolding t_def
  proof (rule for_upto_induct [where P = "\<lambda>k t. event_groups t = event_groups s \<and> task_count t = task_count s
      \<and> current_task t = current_task s
      \<and> tasks t = (\<lambda>i. if unat i < k \<and> ?W i then awake 1 (tasks s i) else tasks s i)"], goal_cases)
    case (2 k u)
    let ?i = "word_of_nat k :: u32"
    have "unat i < Suc k \<longleftrightarrow> unat i < k \<or> i = ?i" for i :: u32
      using 2(3) by (auto simp: less_Suc_eq word_eq_unat)
    with 2 show ?case by (auto simp: event_wake_step_fields fun_eq_iff)
  qed simp
  then show "tasks t = (\<lambda>i. if i < task_count s \<and> ?W i then awake 1 (tasks s i) else tasks s i)"
    "event_groups t = event_groups s" "task_count t = task_count s" "current_task t = current_task s"
    by (simp_all add: word_less_unat)
qed

definition allowed_context :: "int \<Rightarrow> kstate \<Rightarrow> bool" where
  "allowed_context from_isr s \<longleftrightarrow> (if from_isr \<noteq> 0 then ipsr s \<noteq> 0 else ipsr s = 0)"

lemma set_bits_fields:
  assumes "g \<noteq> NULL" and "allowed_context isr s"
  shows "fst (event_group_set_bits_common g b isr s) = eg_bits (event_groups s g) OR b"
    and "eg_bits (event_groups (snd (event_group_set_bits_common g b isr s)) g') =
      (if g' = g then eg_bits (event_groups s g) OR b else eg_bits (event_groups s g'))"
    and "tasks (snd (event_group_set_bits_common g b isr s)) =
      (\<lambda>i. if i < task_count s \<and> event_waiter g (eg_bits (event_groups s g) OR b) (tasks s i)
           then awake 1 (tasks s i) else tasks s i)"
    and "task_count (snd (event_group_set_bits_common g b isr s)) = task_count s"
    and "current_task (snd (event_group_set_bits_common g b isr s)) = current_task s"
  using assms event_wake_all [of "set_event_bits g (eg_bits (event_groups s g) OR b) (cs_enter s)" g, simplified]
  by (auto simp: event_group_set_bits_common_def allowed_context_def arch_in_isr_def arch_critical_enter_eq
      Let_def split: if_splits)

lemma set_bits_rejected:
  "\<not> (g \<noteq> NULL \<and> allowed_context isr s) \<Longrightarrow> event_group_set_bits_common g b isr s = (0, s)"
  by (auto simp: event_group_set_bits_common_def allowed_context_def arch_in_isr_def split: if_splits)

section \<open>The event contract\<close>

text \<open>Nobody waits for bits that are there: the invariant of an event group.\<close>

definition event_inv :: "addr \<Rightarrow> kstate \<Rightarrow> bool" where
  "event_inv g s \<longleftrightarrow> (\<forall>i < task_count s. waits_on g TASK_WAIT_EVENT_GROUP (tasks s i) \<longrightarrow>
     t_event_wait_bits (tasks s i) \<noteq> 0
     \<and> \<not> event_condition (eg_bits (event_groups s g)) (t_event_wait_bits (tasks s i)) (t_event_wait_all (tasks s i)))"

text \<open>Clearing bits satisfies no condition that was not satisfied.\<close>

lemma event_condition_clear:
  assumes "event_condition (b AND NOT c) r w" shows "event_condition b r w"
proof -
  have sub: "bit (b AND r) k" if "bit ((b AND NOT c) AND r) k" for k
    using that by (simp add: bit_and_iff)
  show ?thesis
  proof (cases "w = 0")
    case True
    then have "(b AND NOT c) AND r \<noteq> 0" using assms by (simp add: event_condition_def)
    then have "\<exists>k. bit ((b AND NOT c) AND r) k" by (auto simp: bit_eq_iff [of _ 0])
    then obtain k where "bit (b AND r) k" using sub by blast
    then have "b AND r \<noteq> 0" by (metis bit_0_eq bot_apply bot_bool_def)
    with True show ?thesis by (simp add: event_condition_def)
  next
    case False
    then have "(b AND NOT c) AND r = r" using assms by (simp add: event_condition_def)
    then have "bit (b AND r) k = bit r k" for k using sub [of k] bit_and_iff [of b r k] by metis
    then have "b AND r = r" by (simp add: bit_eq_iff)
    with False show ?thesis by (simp add: event_condition_def)
  qed
qed

lemma event_condition_zero: "r \<noteq> 0 \<Longrightarrow> \<not> event_condition 0 r w"
  by (simp add: event_condition_def)

lemma event_inv_tasks:
  assumes "event_inv g s" and "task_count t = task_count s"
    and "eg_bits (event_groups t g) = eg_bits (event_groups s g)
      \<or> (\<exists>c. eg_bits (event_groups t g) = eg_bits (event_groups s g) AND NOT c)"
    and "\<And>i. i < task_count s \<Longrightarrow> tasks t i = tasks s i \<or> \<not> waits_on g TASK_WAIT_EVENT_GROUP (tasks t i)"
  shows "event_inv g t"
  using assms event_condition_clear unfolding event_inv_def by metis

lemma event_inv_set_bits:
  assumes "event_inv g s"
  shows "event_inv g (snd (event_group_set_bits_common g' b isr s))"
proof (cases "g' \<noteq> NULL \<and> allowed_context isr s")
  case True
  note f = set_bits_fields [of g' isr s b, OF conjunct1 [OF True] conjunct2 [OF True]]
  show ?thesis
  proof (cases "g' = g")
    case True
    with assms f show ?thesis by (auto simp: event_inv_def event_waiter_def waits_on_def)
  next
    case False
    have "tasks (snd (event_group_set_bits_common g' b isr s)) i = tasks s i
        \<or> \<not> waits_on g TASK_WAIT_EVENT_GROUP (tasks (snd (event_group_set_bits_common g' b isr s)) i)" for i
      by (auto simp: f(3) waits_on_def)
    then show ?thesis using False by (intro event_inv_tasks [OF assms f(4)]) (simp_all add: f(2))
  qed
qed (use assms set_bits_rejected in auto)

lemma wait_bits_fields:
  assumes "JRT_EventGroupWaitBits g b w c timeout s = (r, t)" and "g \<noteq> NULL" "b \<noteq> 0" "ipsr s = 0"
  shows "task_count t = task_count s \<and>
    (if event_condition (eg_bits (event_groups s g)) b (if w \<noteq> 0 then 1 else 0)
     then r = Some (eg_bits (event_groups s g) AND b) \<and> tasks t = tasks s
       \<and> event_groups t = (if c \<noteq> 0 then (event_groups s)(g := (event_groups s g)\<lparr>eg_bits := eg_bits (event_groups s g) AND NOT b\<rparr>) else event_groups s)
     else event_groups t = event_groups s \<and>
       (if timeout = 0 then r = Some 0 \<and> tasks t = tasks s
        else r = None \<and> tasks t = (tasks s)(current_task s := blocked_on g TASK_WAIT_EVENT_GROUP
          (make_deadline (g_kernel_ticks s) timeout)
          ((tasks s (current_task s))\<lparr>t_event_wait_bits := b, t_event_wait_all := (if w \<noteq> 0 then 1 else 0),
             t_event_clear_on_exit := (if c \<noteq> 0 then 1 else 0)\<rparr>))))"
proof (cases "event_condition (eg_bits (event_groups s g)) b (if w \<noteq> 0 then 1 else 0)")
  case True
  with assms show ?thesis
    by (auto simp: JRT_EventGroupWaitBits_def arch_in_isr_def arch_critical_enter_eq set_event_bits_def Let_def)
next
  case False
  with assms show ?thesis
    by (auto simp: JRT_EventGroupWaitBits_def arch_in_isr_def arch_critical_enter_eq Let_def set_task_def
        task_wait_begin_eq task_wait_begin_until_eq arch_yield_def request_switch_def)
qed

lemma event_inv_wait:
  assumes "event_inv g s" and "current_task s < task_count s"
  shows "event_inv g (snd (JRT_EventGroupWaitBits g' b w c timeout s))"
proof (cases "g' \<noteq> NULL \<and> b \<noteq> 0 \<and> ipsr s = 0")
  case True
  obtain r t where r: "JRT_EventGroupWaitBits g' b w c timeout s = (r, t)" by fastforce
  let ?cond = "event_condition (eg_bits (event_groups s g')) b (if w \<noteq> 0 then 1 else 0)"
  note f = wait_bits_fields [OF r]
  show ?thesis
  proof (cases "?cond \<or> timeout = 0")
    case ready: True
    have "tasks t = tasks s" "task_count t = task_count s" using f True ready by (auto split: if_splits)
    moreover have "eg_bits (event_groups t g) = eg_bits (event_groups s g)
      \<or> (\<exists>c. eg_bits (event_groups t g) = eg_bits (event_groups s g) AND NOT c)"
      using f True ready by (cases "g' = g") (auto split: if_splits)
    ultimately show ?thesis using r by (auto intro: event_inv_tasks [OF assms(1)])
  next
    case blocks: False
    have t: "event_groups t = event_groups s" "task_count t = task_count s"
      "tasks t = (tasks s)(current_task s := blocked_on g' TASK_WAIT_EVENT_GROUP (make_deadline (g_kernel_ticks s) timeout)
          ((tasks s (current_task s))\<lparr>t_event_wait_bits := b, t_event_wait_all := (if w \<noteq> 0 then 1 else 0),
             t_event_clear_on_exit := (if c \<noteq> 0 then 1 else 0)\<rparr>))"
      using f True blocks by auto
    show ?thesis using assms(1) True blocks r t by (auto simp: event_inv_def waits_on_def)
  qed
next
  case False
  then have "JRT_EventGroupWaitBits g' b w c timeout s = (Some 0, s)"
    by (auto simp: JRT_EventGroupWaitBits_def arch_in_isr_def)
  with assms(1) show ?thesis by simp
qed

lemma event_inv_resume:
  assumes "event_inv g s"
  shows "event_inv g (snd (event_group_wait_resume g' b s))"
proof (rule event_inv_tasks [OF assms])
  let ?t = "snd (event_group_wait_resume g' b s)"
  show "task_count ?t = task_count s" "\<And>i. tasks ?t i = tasks s i \<or> \<not> waits_on g TASK_WAIT_EVENT_GROUP (tasks ?t i)"
    by (simp_all add: event_group_wait_resume_def arch_critical_enter_eq Let_def)
  show "eg_bits (event_groups ?t g) = eg_bits (event_groups s g)
      \<or> (\<exists>c. eg_bits (event_groups ?t g) = eg_bits (event_groups s g) AND NOT c)"
    by (auto simp: event_group_wait_resume_def arch_critical_enter_eq Let_def)
qed

text \<open>No lost event: after every event-group operation, on any group, with any arguments and in
  any context, no task waits for bits that satisfy its condition; a waiter always has a non-empty
  set of requested bits.\<close>

theorem event_group_no_lost_wakeup:
  assumes "event_inv g s" and "current_task s < task_count s"
  shows "event_inv g (snd (JRT_EventGroupSetBits g' b s))
    \<and> event_inv g (snd (JRT_EventGroupSetBitsFromISR g' b s))
    \<and> event_inv g (snd (JRT_EventGroupWaitBits g' b wait_all clear_on_exit timeout s))
    \<and> event_inv g (snd (event_group_wait_resume g' b s))
    \<and> event_inv g (JRT_EventGroupCreateStatic g' s)"
proof (intro conjI)
  show "event_inv g (JRT_EventGroupCreateStatic g' s)"
    using assms(1) event_condition_zero by (auto simp: JRT_EventGroupCreateStatic_def event_inv_def)
  show "event_inv g (snd (JRT_EventGroupSetBitsFromISR g' b s))"
    using assms(1) event_inv_set_bits by (simp add: JRT_EventGroupSetBitsFromISR_def)
qed (use assms event_inv_set_bits event_inv_wait event_inv_resume in \<open>simp_all add: JRT_EventGroupSetBits_def\<close>)

text \<open>Tasks 1 and 2 wait for the bits 3 and 5 (any, and all), task 0 runs.\<close>

definition event_task :: "u32 \<Rightarrow> u32 \<Rightarrow> task_t" where
  "event_task b w = blocked_on 0x100 TASK_WAIT_EVENT_GROUP (make_deadline 0 JRT_WAIT_FOREVER)
     (zero_task\<lparr>t_event_wait_bits := b, t_event_wait_all := w, t_event_clear_on_exit := 1\<rparr>)"

definition event_state :: kstate where
  "event_state = (reset_state default_config)\<lparr>task_count := 4,
     tasks := (\<lambda>_. zero_task)(1 := event_task 3 0, 2 := event_task 5 1, 3 := event_task 2 0)\<rparr>"

lemma event_state_simps:
  "tasks event_state = (\<lambda>_. zero_task)(1 := event_task 3 0, 2 := event_task 5 1, 3 := event_task 2 0)"
  "task_count event_state = 4" "current_task event_state = 0" "ipsr event_state = 0"
  "eg_bits (event_groups event_state g) = 0"
  by (simp_all add: event_state_def reset_state_def)

lemma event_state_inv: "event_inv 0x100 event_state"
  by (auto simp: event_inv_def event_state_simps event_task_def event_condition_def)
    (auto simp: waits_on_def zero_task_def)

theorem event_group_no_lost_wakeup_witness:
  "event_inv 0x100 event_state \<and> event_inv 0x100 (snd (JRT_EventGroupSetBits 0x100 3 event_state))"
  using event_group_no_lost_wakeup [OF event_state_inv] event_state_inv by (simp add: event_state_simps)

text \<open>Setting bits is exact: in the right context it returns the new bits, wakes every task whose
  wait condition on this group is now satisfied, all of them at once and whatever their
  priorities, and changes no other task and no other group; in the wrong context it does nothing.\<close>

theorem event_group_set_bits_exact:
  assumes "event_group_set_bits_common g b from_isr s = (r, t)"
  shows "if g \<noteq> NULL \<and> (from_isr \<noteq> 0 \<longleftrightarrow> ipsr s \<noteq> 0)
    then r = eg_bits (event_groups s g) OR b
      \<and> eg_bits (event_groups t g) = r \<and> (\<forall>g'. g' \<noteq> g \<longrightarrow> eg_bits (event_groups t g') = eg_bits (event_groups s g'))
      \<and> (\<forall>i. tasks t i = (if i < task_count s \<and> waits_on g TASK_WAIT_EVENT_GROUP (tasks s i)
             \<and> event_condition r (t_event_wait_bits (tasks s i)) (t_event_wait_all (tasks s i))
           then awake 1 (tasks s i) else tasks s i))
    else r = 0 \<and> t = s"
proof (cases "g \<noteq> NULL \<and> (from_isr \<noteq> 0 \<longleftrightarrow> ipsr s \<noteq> 0)")
  case True
  then have c: "g \<noteq> NULL" "allowed_context from_isr s" by (auto simp: allowed_context_def)
  note f = set_bits_fields [OF c, of b, unfolded assms, simplified]
  from True show ?thesis by (simp add: f event_waiter_def)
next
  case False
  then have "event_group_set_bits_common g b from_isr s = (0, s)"
    by (intro set_bits_rejected) (auto simp: allowed_context_def)
  with assms False show ?thesis by auto
qed

theorem event_group_set_bits_witness:
  "t_state (tasks (snd (event_group_set_bits_common 0x100 1 0 event_state)) 1) = JRT_TASK_STATE_READY
   \<and> t_state (tasks (snd (event_group_set_bits_common 0x100 1 0 event_state)) 2) = JRT_TASK_STATE_BLOCKED"
proof -
  obtain r t where r: "event_group_set_bits_common 0x100 1 0 event_state = (r, t)" by fastforce
  from event_group_set_bits_exact [OF r] r show ?thesis
    by (simp add: event_state_simps event_task_def waits_on_def event_condition_def)
qed

lemma wait_resume_eq:
  "fst (event_group_wait_resume g b s) = eg_bits (event_groups s g) AND b"
  "eg_bits (event_groups (snd (event_group_wait_resume g b s)) g) =
    (if event_condition (eg_bits (event_groups s g)) b (t_event_wait_all (tasks s (current_task s)))
        \<and> t_event_clear_on_exit (tasks s (current_task s)) \<noteq> 0
     then eg_bits (event_groups s g) AND NOT b else eg_bits (event_groups s g))"
  "tasks (snd (event_group_wait_resume g b s)) = tasks s"
  by (simp_all add: event_group_wait_resume_def arch_critical_enter_eq Let_def)


section \<open>The notification contract\<close>

text \<open>A task that waits for a notification has none pending.\<close>

definition notification_inv :: "kstate \<Rightarrow> bool" where
  "notification_inv s \<longleftrightarrow> (\<forall>i < task_count s. t_state (tasks s i) = JRT_TASK_STATE_BLOCKED \<longrightarrow>
     t_wait_kind (tasks s i) = TASK_WAIT_NOTIFICATION \<longrightarrow> t_notification_value (tasks s i) = 0)"

definition waits_notification :: "task_t \<Rightarrow> bool" where
  "waits_notification t \<longleftrightarrow> t_state t = JRT_TASK_STATE_BLOCKED \<and> t_wait_kind t = TASK_WAIT_NOTIFICATION"

definition notified :: "u32 \<Rightarrow> task_t \<Rightarrow> task_t" where
  "notified v t = (let u = t\<lparr>t_notification_value := t_notification_value t + v\<rparr>
     in if waits_notification t then awake 1 u else u)"

lemma notify_fields:
  assumes "allowed_context isr s" and "i < task_count s"
  shows "fst (task_notify_common i v isr s) = 1"
    and "tasks (snd (task_notify_common i v isr s)) = (tasks s)(i := notified v (tasks s i))"
    and "task_count (snd (task_notify_common i v isr s)) = task_count s"
    and "ipsr (snd (task_notify_common i v isr s)) = ipsr s"
    and "current_task (snd (task_notify_common i v isr s)) = current_task s"
    and "cfg (snd (task_notify_common i v isr s)) = cfg s"
  using assms
  by (simp_all add: task_notify_common_def allowed_context_def arch_in_isr_def arch_critical_enter_eq Let_def
      notified_def waits_notification_def task_wait_end_eq set_task_def coalesced_frame
      split: if_splits)

lemma notify_rejected:
  "\<not> (allowed_context isr s \<and> i < task_count s) \<Longrightarrow> task_notify_common i v isr s = (0, s)"
  by (auto simp: task_notify_common_def allowed_context_def arch_in_isr_def split: if_splits)

lemma take_fields:
  assumes "JRT_TaskNotifyTake p timeout s = (r, t)" and "p \<noteq> NULL" and "ipsr s = 0"
  defines "x \<equiv> t_notification_value (tasks s (current_task s))"
  shows "task_count t = task_count s \<and>
    (if x \<noteq> 0 then r = Some (1, Some x) \<and> tasks t = (tasks s)(current_task s := (tasks s (current_task s))\<lparr>t_notification_value := 0\<rparr>)
     else if timeout = 0 then r = Some (0, None) \<and> tasks t = tasks s
     else r = None \<and> tasks t = (tasks s)(current_task s := blocked_on (task_address (cfg s) (current_task s))
       TASK_WAIT_NOTIFICATION (make_deadline (g_kernel_ticks s) timeout) (tasks s (current_task s))))"
  using assms
  by (auto simp: JRT_TaskNotifyTake_def arch_in_isr_def arch_critical_enter_eq Let_def set_task_def
      task_wait_begin_eq task_wait_begin_until_eq arch_yield_def request_switch_def split: if_splits)

lemma notify_resume_fields:
  "fst (task_notify_resume s) = (let x = t_notification_value (tasks s (current_task s)) in (if x \<noteq> 0 then 1 else 0, x))"
  "tasks (snd (task_notify_resume s)) = (tasks s)(current_task s := (tasks s (current_task s))\<lparr>t_notification_value := 0\<rparr>)"
  "task_count (snd (task_notify_resume s)) = task_count s"
  by (simp_all add: task_notify_resume_def arch_critical_enter_eq Let_def set_task_def)

lemma notification_inv_notify:
  assumes "notification_inv s" shows "notification_inv (snd (task_notify_common i v isr s))"
proof (cases "allowed_context isr s \<and> i < task_count s")
  case True
  note f = notify_fields [OF conjunct1 [OF True] conjunct2 [OF True], of v]
  show ?thesis using assms by (auto simp: notification_inv_def f notified_def waits_notification_def Let_def)
qed (simp add: notify_rejected assms)

lemma notification_inv_take:
  assumes "notification_inv s" shows "notification_inv (snd (JRT_TaskNotifyTake p timeout s))"
proof (cases "p \<noteq> NULL \<and> ipsr s = 0")
  case True
  obtain r t where r: "JRT_TaskNotifyTake p timeout s = (r, t)" by fastforce
  from take_fields [OF this] True assms r show ?thesis by (auto simp: notification_inv_def split: if_splits)
next
  case False
  then have "JRT_TaskNotifyTake p timeout s = (Some (0, None), s)"
    by (auto simp: JRT_TaskNotifyTake_def arch_in_isr_def)
  with assms show ?thesis by simp
qed

lemma notification_inv_resume:
  assumes "notification_inv s" shows "notification_inv (snd (task_notify_resume s))"
  using assms by (auto simp: notification_inv_def notify_resume_fields)

text \<open>No notification is lost to a sleeping task: after every notification operation, in any
  context, a task that waits for a notification has none pending, so a task is never left waiting
  with a value it should have received.\<close>

theorem notification_no_lost_wakeup:
  assumes "notification_inv s"
  shows "notification_inv (snd (JRT_TaskNotify i v s))
    \<and> notification_inv (snd (JRT_TaskNotifyFromISR i v s))
    \<and> notification_inv (snd (JRT_TaskNotifyTake p timeout s))
    \<and> notification_inv (snd (task_notify_resume s))"
  using notification_inv_notify [OF assms] notification_inv_take [OF assms] notification_inv_resume [OF assms]
  by (simp add: JRT_TaskNotify_def JRT_TaskNotifyFromISR_def)

theorem notification_no_lost_wakeup_witness:
  "notification_inv event_state \<and> notification_inv (snd (JRT_TaskNotify 1 5 event_state))"
proof -
  have "notification_inv event_state"
    by (auto simp: notification_inv_def event_state_simps event_task_def zero_task_def)
  with notification_no_lost_wakeup [OF this] show ?thesis by simp
qed



end
