(* ===== verification/JRT_Tasks.thy ===== *)
theory JRT_Tasks
  imports JRT_Wait
begin

text \<open>
  Task services (\<open>kernel/task.c\<close>, lines 105 to 300 and 853 to 901): the queries of a task, suspend
  and resume, the tick count and delays, and the benchmark query of one task
  (\<open>kernel/benchmark.c\<close>, lines 180 to 232). An out-pointer is its address, compared with null, and
  what is written through it is an option in the result.
\<close>

section \<open>Queries\<close>

definition validate_task_id :: "u32 \<Rightarrow> kstate \<Rightarrow> JRT_Status_t" where
  "validate_task_id task_id s = (if task_id < task_count s then JRT_STATUS_OK else JRT_STATUS_INVALID_TASK)"

definition resolve_application_task_id :: "u32 \<Rightarrow> int \<Rightarrow> kstate \<Rightarrow> JRT_Status_t \<times> u32 option" where
  "resolve_application_task_id requested_task_id allow_self s =
    (let task_id = (if allow_self \<noteq> 0 \<and> requested_task_id = JRT_TASK_ID_SELF
                    then g_current_task_index s else requested_task_id)
     in if task_id \<ge> application_task_count s then (JRT_STATUS_INVALID_TASK, None)
        else (JRT_STATUS_OK, Some task_id))"

text \<open>The four getters share their shape: check, read one thing of the task in a critical section.\<close>

definition read_task :: "addr \<Rightarrow> u32 \<Rightarrow> (task_t \<Rightarrow> 'a) \<Rightarrow> kstate \<Rightarrow> JRT_Status_t \<times> 'a option \<times> kstate" where
  "read_task out task_id get s =
    (if out = NULL \<or> validate_task_id task_id s \<noteq> JRT_STATUS_OK then (JRT_STATUS_INVALID_TASK, None, s)
     else
       let (saved_primask, s) = arch_critical_enter s;
           result = get (tasks s task_id);
           s = arch_critical_exit saved_primask s
       in (JRT_STATUS_OK, Some result, s))"

definition JRT_TaskGetState :: "u32 \<Rightarrow> addr \<Rightarrow> kstate \<Rightarrow> JRT_Status_t \<times> u32 option \<times> kstate" where
  "JRT_TaskGetState task_id state = read_task state task_id t_state"

text \<open>Pointer differences of words: \<open>stack_top - stack_bottom\<close> counts words.\<close>

definition stack_info :: "task_t \<Rightarrow> JRT_TaskStackInfo_t" where
  "stack_info task = \<lparr>si_stack_words = (t_stack_top task - t_stack_bottom task) div 4,
     si_used_words = t_high_water_words task, si_minimum_sp = t_minimum_sp task,
     si_current_sp = t_sp task\<rparr>"

definition JRT_TaskGetStackInfo ::
  "u32 \<Rightarrow> addr \<Rightarrow> kstate \<Rightarrow> JRT_Status_t \<times> JRT_TaskStackInfo_t option \<times> kstate" where
  "JRT_TaskGetStackInfo task_id info = read_task info task_id stack_info"

definition JRT_TaskGetName :: "u32 \<Rightarrow> addr \<Rightarrow> kstate \<Rightarrow> JRT_Status_t \<times> string option \<times> kstate" where
  "JRT_TaskGetName task_id name = read_task name task_id t_name"

definition JRT_TaskGetPriority :: "u32 \<Rightarrow> addr \<Rightarrow> kstate \<Rightarrow> JRT_Status_t \<times> u32 option \<times> kstate" where
  "JRT_TaskGetPriority task_id priority = read_task priority task_id t_priority"

definition task_current_index :: "kstate \<Rightarrow> u32" where
  "task_current_index s = g_current_task_index s"

definition task_current_priority :: "kstate \<Rightarrow> u32" where
  "task_current_priority s = t_priority (tasks s (current_task s))"

definition task_current_sp :: "kstate \<Rightarrow> addr" where
  "task_current_sp s = t_sp (tasks s (current_task s))"

abbreviation (input) ARCH_LAUNCH_PRIVILEGED :: u32 where "ARCH_LAUNCH_PRIVILEGED \<equiv> 2"
abbreviation (input) ARCH_LAUNCH_UNPRIVILEGED :: u32 where "ARCH_LAUNCH_UNPRIVILEGED \<equiv> 3"

definition task_current_control :: "kstate \<Rightarrow> u32" where
  "task_current_control s =
    (if t_flags (tasks s (current_task s)) AND JRT_TASK_FLAG_UNPRIVILEGED \<noteq> 0
     then ARCH_LAUNCH_UNPRIVILEGED else ARCH_LAUNCH_PRIVILEGED)"

definition task_benchmark_get_task_flags :: "u32 \<Rightarrow> kstate \<Rightarrow> u32" where
  "task_benchmark_get_task_flags task_id s = t_flags (tasks s task_id)"

definition task_benchmark_is_task_context :: "kstate \<Rightarrow> int" where
  "task_benchmark_is_task_context s = (if kernel_started s \<noteq> 0 \<and> arch_in_isr s = 0 then 1 else 0)"

section \<open>Suspend and resume\<close>

definition kernel_task_suspend :: "u32 \<Rightarrow> kstate \<Rightarrow> JRT_Status_t \<times> kstate" where
  "kernel_task_suspend requested_task_id s =
    (let (saved_primask, s) = arch_critical_enter s
     in if kernel_initialized s = 0 then (JRT_STATUS_NOT_INITIALIZED, arch_critical_exit saved_primask s)
        else if kernel_started s = 0 then (JRT_STATUS_INVALID_CONTEXT, arch_critical_exit saved_primask s)
        else case resolve_application_task_id requested_task_id 1 s of
          (status, None) \<Rightarrow> (status, arch_critical_exit saved_primask s)
        | (status, Some task_id) \<Rightarrow>
            if t_state (tasks s task_id) \<noteq> JRT_TASK_STATE_READY
               \<and> (t_state (tasks s task_id) \<noteq> JRT_TASK_STATE_RUNNING \<or> task_id \<noteq> g_current_task_index s)
            then (JRT_STATUS_INVALID_STATE, arch_critical_exit saved_primask s)
            else
              let s = (if t_state (tasks s task_id) = JRT_TASK_STATE_RUNNING
                       then task_benchmark_complete_locked task_id s else s);
                  s = set_task task_id ((tasks s task_id)\<lparr>t_state := JRT_TASK_STATE_SUSPENDED\<rparr>) s
              in (JRT_STATUS_OK, arch_critical_exit saved_primask s))"

definition kernel_task_resume :: "u32 \<Rightarrow> kstate \<Rightarrow> JRT_Status_t \<times> kstate" where
  "kernel_task_resume requested_task_id s =
    (let (saved_primask, s) = arch_critical_enter s
     in if kernel_initialized s = 0 then (JRT_STATUS_NOT_INITIALIZED, arch_critical_exit saved_primask s)
        else if kernel_started s = 0 then (JRT_STATUS_INVALID_CONTEXT, arch_critical_exit saved_primask s)
        else case resolve_application_task_id requested_task_id 0 s of
          (status, None) \<Rightarrow> (status, arch_critical_exit saved_primask s)
        | (status, Some task_id) \<Rightarrow>
            if t_state (tasks s task_id) \<noteq> JRT_TASK_STATE_SUSPENDED
            then (JRT_STATUS_INVALID_STATE, arch_critical_exit saved_primask s)
            else
              let s = task_benchmark_release_locked task_id 0 s;
                  s = set_task task_id ((tasks s task_id)\<lparr>t_state := JRT_TASK_STATE_READY\<rparr>) s
              in (JRT_STATUS_OK, arch_critical_exit saved_primask s))"

section \<open>The tick count and delays\<close>

definition JRT_KernelGetTickCount :: "kstate \<Rightarrow> u32 \<times> kstate" where
  "JRT_KernelGetTickCount s =
    (let (saved_primask, s) = arch_critical_enter s;
         ticks = g_kernel_ticks s
     in (ticks, arch_critical_exit saved_primask s))"

definition JRT_KernelTickReached :: "u32 \<Rightarrow> kstate \<Rightarrow> int \<times> kstate" where
  "JRT_KernelTickReached deadline s =
    (let (now, s) = JRT_KernelGetTickCount s
     in (if int32 (now - deadline) \<ge> 0 then 1 else 0, s))"

text \<open>
  \<open>JRT_TaskDelay\<close> is SVC 2 (\<open>svc_stubs_cm7.c\<close>), whose handler calls \<open>sleep_current\<close> and requests a
  switch; theory \<open>JRT_Svc\<close> proves that the dispatcher does this.
\<close>

definition JRT_TaskDelay :: "u32 \<Rightarrow> kstate \<Rightarrow> kstate" where
  "JRT_TaskDelay ticks s = request_switch (sleep_current ticks s)"

text \<open>
  \<open>previous_wake\<close> is the pointer and \<open>prev\<close> what it points to. The result is the new value of
  \<open>*previous_wake\<close>, if it is written, the ticks passed to \<open>JRT_TaskDelay\<close>, if it is called, and the
  state at that call or at the return.
\<close>

definition JRT_TaskDelayUntil :: "addr \<Rightarrow> u32 \<Rightarrow> u32 \<Rightarrow> kstate \<Rightarrow> u32 option \<times> u32 option \<times> kstate" where
  "JRT_TaskDelayUntil previous_wake prev period_ticks s =
    (if previous_wake = NULL then (None, None, s)
     else
       let next_wake = prev + period_ticks;
           (now, s) = JRT_KernelGetTickCount s
       in if int32 (now - next_wake) < 0
          then (Some next_wake, Some (next_wake - now), JRT_TaskDelay (next_wake - now) s)
          else (Some next_wake, None, s))"

section \<open>The benchmark query of a task\<close>

record JRT_TaskBenchmarkInfo_t =
  bt_release_count :: u32
  bt_completion_count :: u32
  bt_pending_count :: u32
  bt_coalesced_count :: u32
  bt_max_release_latency_cycles :: u32
  bt_max_activation_cycles :: u32
  bt_period_cycles :: u32
  bt_flags :: u32
  bt_stack_words :: u32
  bt_used_stack_words :: u32

definition task_benchmark_pending :: "JRT_TaskBenchmarkRecord_t \<Rightarrow> u32" where
  "task_benchmark_pending r =
    (if b_completion_count r > b_release_count r
        \<or> b_coalesced_count r > b_release_count r - b_completion_count r
     then 0
     else let completed_count = b_completion_count r + b_coalesced_count r
          in b_release_count r - completed_count)"

text \<open>
  \<open>info_ptr\<close> is the pointer and \<open>info\<close> what it points to, which the call updates field by field: the
  last error path returns after all but the stack fields are written.
\<close>

definition JRT_BenchmarkGetTask :: "u32 \<Rightarrow> addr \<Rightarrow> JRT_TaskBenchmarkInfo_t \<Rightarrow> kstate
    \<Rightarrow> JRT_Status_t \<times> JRT_TaskBenchmarkInfo_t \<times> kstate" where
  "JRT_BenchmarkGetTask task_id info_ptr info s =
    (if info_ptr = NULL then (JRT_STATUS_INVALID_TASK, info, s)
     else if benchmark_initialized s = 0 then (JRT_STATUS_NOT_INITIALIZED, info, s)
     else
       let (saved_primask, s) = arch_critical_enter s
       in if task_id \<ge> benchmark_task_count s
          then (JRT_STATUS_INVALID_TASK, info, arch_critical_exit saved_primask s)
          else
            let r = benchmark_records s task_id;
                info = info\<lparr>bt_pending_count := task_benchmark_pending r,
                  bt_release_count := b_release_count r, bt_completion_count := b_completion_count r,
                  bt_coalesced_count := b_coalesced_count r,
                  bt_max_release_latency_cycles := b_max_release_latency_cycles r,
                  bt_max_activation_cycles := b_max_activation_cycles r,
                  bt_period_cycles := b_period_cycles r,
                  bt_flags := task_benchmark_get_task_flags task_id s\<rparr>
            in case JRT_TaskGetStackInfo task_id info_ptr s of
                 (status, Some si, s) \<Rightarrow>
                   (JRT_STATUS_OK, info\<lparr>bt_stack_words := si_stack_words si, bt_used_stack_words := si_used_words si\<rparr>,
                    arch_critical_exit saved_primask s)
               | (status, None, s) \<Rightarrow> (JRT_STATUS_NOT_INITIALIZED, info, arch_critical_exit saved_primask s))"

section \<open>Correctness of the services\<close>

text \<open>The pending count is the releases not yet accounted for, and never wraps below zero.\<close>

lemma task_benchmark_pending_exact:
  "unat (task_benchmark_pending r) =
     unat (b_release_count r) - (unat (b_completion_count r) + unat (b_coalesced_count r))"
proof (cases "b_completion_count r > b_release_count r \<or> b_coalesced_count r > b_release_count r - b_completion_count r")
  case True
  then have "unat (b_release_count r) \<le> unat (b_completion_count r) + unat (b_coalesced_count r)"
    using unat_sub32 [of "b_completion_count r" "b_release_count r"]
    by (cases "b_completion_count r \<le> b_release_count r") (auto simp: word_less_unat word_le_unat)
  with True show ?thesis by (simp add: task_benchmark_pending_def)
next
  case False
  then have le: "b_completion_count r \<le> b_release_count r" "b_coalesced_count r \<le> b_release_count r - b_completion_count r" by auto
  then have le': "unat (b_completion_count r) + unat (b_coalesced_count r) \<le> unat (b_release_count r)"
    using unat_sub32 [OF le(1)] by (simp add: word_le_unat)
  then have add: "unat (b_completion_count r + b_coalesced_count r) = unat (b_completion_count r) + unat (b_coalesced_count r)"
    using unat_le32 [of "b_release_count r"] by (intro unat_add_small) linarith
  have "b_completion_count r + b_coalesced_count r \<le> b_release_count r" unfolding word_le_unat add by (rule le')
  from unat_sub32 [OF this] show ?thesis
    using False by (simp add: task_benchmark_pending_def add Let_def)
qed

lemma suspend_eq:
  "kernel_task_suspend req s =
    (let i = (if req = JRT_TASK_ID_SELF then g_current_task_index s else req); t = tasks s i in
     if kernel_initialized s = 0 then (JRT_STATUS_NOT_INITIALIZED, arch_critical_exit (primask s) (cs_enter s))
     else if kernel_started s = 0 then (JRT_STATUS_INVALID_CONTEXT, arch_critical_exit (primask s) (cs_enter s))
     else if i \<ge> application_task_count s then (JRT_STATUS_INVALID_TASK, arch_critical_exit (primask s) (cs_enter s))
     else if t_state t = JRT_TASK_STATE_READY
     then (JRT_STATUS_OK, arch_critical_exit (primask s) (set_task i (t\<lparr>t_state := JRT_TASK_STATE_SUSPENDED\<rparr>) (cs_enter s)))
     else if t_state t = JRT_TASK_STATE_RUNNING \<and> i = g_current_task_index s
     then (JRT_STATUS_OK, arch_critical_exit (primask s) (set_task i (t\<lparr>t_state := JRT_TASK_STATE_SUSPENDED\<rparr>)
            (task_benchmark_complete_locked i (cs_enter s))))
     else (JRT_STATUS_INVALID_STATE, arch_critical_exit (primask s) (cs_enter s)))"
  by (auto simp: kernel_task_suspend_def resolve_application_task_id_def arch_critical_enter_eq Let_def complete_frame)

lemma resume_eq:
  "kernel_task_resume i s =
    (if kernel_initialized s = 0 then (JRT_STATUS_NOT_INITIALIZED, arch_critical_exit (primask s) (cs_enter s))
     else if kernel_started s = 0 then (JRT_STATUS_INVALID_CONTEXT, arch_critical_exit (primask s) (cs_enter s))
     else if i \<ge> application_task_count s then (JRT_STATUS_INVALID_TASK, arch_critical_exit (primask s) (cs_enter s))
     else if t_state (tasks s i) \<noteq> JRT_TASK_STATE_SUSPENDED
     then (JRT_STATUS_INVALID_STATE, arch_critical_exit (primask s) (cs_enter s))
     else (JRT_STATUS_OK, arch_critical_exit (primask s) (set_task i ((tasks s i)\<lparr>t_state := JRT_TASK_STATE_READY\<rparr>)
            (task_benchmark_release_locked i 0 (cs_enter s)))))"
  by (auto simp: kernel_task_resume_def resolve_application_task_id_def arch_critical_enter_eq Let_def release_frame)

text \<open>Suspend and resume are inverse: after a suspend that succeeded, of the caller or of a ready
  task, the task is SUSPENDED and cannot be suspended again; a resume by its ID succeeds and
  restores its control block exactly as it was, except that it is READY; no other task changes,
  and a second resume is rejected.\<close>

theorem suspend_resume_roundtrip:
  assumes "kernel_task_suspend req s = (JRT_STATUS_OK, t)"
  shows "let i = (if req = JRT_TASK_ID_SELF then g_current_task_index s else req) in
    t_state (tasks t i) = JRT_TASK_STATE_SUSPENDED
    \<and> fst (kernel_task_suspend i t) = JRT_STATUS_INVALID_STATE
    \<and> (\<exists>u. kernel_task_resume i t = (JRT_STATUS_OK, u)
        \<and> tasks u = (tasks s)(i := (tasks s i)\<lparr>t_state := JRT_TASK_STATE_READY\<rparr>)
        \<and> fst (kernel_task_resume i u) = JRT_STATUS_INVALID_STATE)"
proof -
  define i where "i = (if req = JRT_TASK_ID_SELF then g_current_task_index s else req)"
  note eq = suspend_eq [of req s, unfolded i_def [symmetric] Let_def]
  from assms have i: "kernel_initialized s \<noteq> 0" "kernel_started s \<noteq> 0" "\<not> i \<ge> application_task_count s"
    unfolding eq by (auto split: if_splits)
  from assms have t: "tasks t = (tasks s)(i := (tasks s i)\<lparr>t_state := JRT_TASK_STATE_SUSPENDED\<rparr>)"
    "kernel_initialized t = kernel_initialized s" "kernel_started t = kernel_started s"
    "application_task_count t = application_task_count s" "g_current_task_index t = g_current_task_index s"
    unfolding eq by (auto simp: set_task_def complete_frame arch_critical_exit_eq split: if_splits)
  have "i \<noteq> JRT_TASK_ID_SELF" using i(3) unat_le32 [of "application_task_count s"] by (auto simp: word_le_unat)
  then have again: "fst (kernel_task_suspend i t) = JRT_STATUS_INVALID_STATE"
    using i unfolding suspend_eq Let_def by (simp add: t)
  let ?u = "snd (kernel_task_resume i t)"
  have r: "kernel_task_resume i t = (JRT_STATUS_OK, ?u)" using i by (simp add: resume_eq t)
  have u: "tasks ?u = (tasks s)(i := (tasks s i)\<lparr>t_state := JRT_TASK_STATE_READY\<rparr>)"
    "kernel_initialized ?u = kernel_initialized s" "kernel_started ?u = kernel_started s"
    "application_task_count ?u = application_task_count s"
    using i by (simp_all add: resume_eq t set_task_def release_frame arch_critical_exit_eq)
  have "fst (kernel_task_resume i ?u) = JRT_STATUS_INVALID_STATE" using i by (simp add: resume_eq [of i ?u] u)
  with r u again t show ?thesis by (auto simp: Let_def simp flip: i_def)
qed

definition task_state :: kstate where
  "task_state = (reset_state default_config)\<lparr>task_count := 4, application_task_count := 2,
     kernel_initialized := 1, kernel_started := 1,
     tasks := (\<lambda>_. zero_task)(0 := zero_task\<lparr>t_state := JRT_TASK_STATE_RUNNING, t_priority := 3\<rparr>)\<rparr>"

theorem suspend_resume_witness:
  "fst (kernel_task_suspend JRT_TASK_ID_SELF task_state) = JRT_STATUS_OK
   \<and> fst (kernel_task_resume 0 (snd (kernel_task_suspend JRT_TASK_ID_SELF task_state))) = JRT_STATUS_OK"
proof -
  have "fst (kernel_task_suspend JRT_TASK_ID_SELF task_state) = JRT_STATUS_OK"
    by (simp add: suspend_eq Let_def task_state_def reset_state_def)
  then obtain t where t: "kernel_task_suspend JRT_TASK_ID_SELF task_state = (JRT_STATUS_OK, t)"
    by (cases "kernel_task_suspend JRT_TASK_ID_SELF task_state") simp
  have "g_current_task_index task_state = 0" by (simp add: task_state_def reset_state_def)
  with suspend_resume_roundtrip [OF t] t show ?thesis by (auto simp: Let_def)
qed

text \<open>A delay until the next wake time sleeps exactly the ticks that are left, if any are.\<close>

lemma delay_until_eq:
  assumes "previous_wake \<noteq> NULL"
  shows "JRT_TaskDelayUntil previous_wake prev period s =
    (Some (prev + period),
     if int32 (g_kernel_ticks s - (prev + period)) < 0 then Some (prev + period - g_kernel_ticks s) else None,
     if int32 (g_kernel_ticks s - (prev + period)) < 0
     then JRT_TaskDelay (prev + period - g_kernel_ticks s) (arch_critical_exit (primask s) (cs_enter s))
     else arch_critical_exit (primask s) (cs_enter s))"
  using assms by (simp add: JRT_TaskDelayUntil_def JRT_KernelGetTickCount_def arch_critical_enter_eq Let_def)

lemma sleep_current_fields:
  "tasks (sleep_current n s) = (tasks s)(current_task s := (tasks s (current_task s))
     \<lparr>t_sleep_ticks := n, t_state := (if n = 0 then JRT_TASK_STATE_READY else JRT_TASK_STATE_SLEEPING)\<rparr>)"
  "task_count (sleep_current n s) = task_count s" "current_task (sleep_current n s) = current_task s"
  "g_kernel_ticks (sleep_current n s) = g_kernel_ticks s" "primask (sleep_current n s) = primask s"
  by (simp_all add: sleep_current_def arch_critical_enter_eq Let_def set_task_def complete_frame)

lemma delay_fields:
  "tasks (JRT_TaskDelay n s) = (tasks s)(current_task s := (tasks s (current_task s))
     \<lparr>t_sleep_ticks := n, t_state := (if n = 0 then JRT_TASK_STATE_READY else JRT_TASK_STATE_SLEEPING)\<rparr>)"
  "task_count (JRT_TaskDelay n s) = task_count s" "g_kernel_ticks (JRT_TaskDelay n s) = g_kernel_ticks s"
  by (simp_all add: JRT_TaskDelay_def request_switch_def sleep_current_fields)

end
