(* ===== verification/JRT_Tick.thy ===== *)
theory JRT_Tick
  imports JRT_Mutex JRT_Timer JRT_Events JRT_Tasks
begin

text \<open>
  The tick interrupt (\<open>kernel/task.c\<close>, lines 993 to 1127): the tick count, the timers, the ends of
  sleeps and of waits with a timeout, and the periodic check of the kernel's invariants, which
  halts the kernel when one is broken.
\<close>

section \<open>The invariant check\<close>

definition kernel_invariant_fail ::
  "JRT_KernelInvariantCode_t \<Rightarrow> u32 \<Rightarrow> addr \<Rightarrow> u32 \<Rightarrow> kstate \<Rightarrow> 'a halting" where
  "kernel_invariant_fail code task_id object aux s =
    (let s = s\<lparr>g_kernel_invariant_code := code\<rparr>;
         s = s\<lparr>g_kernel_invariant_task := task_id\<rparr>;
         s = s\<lparr>g_kernel_invariant_object := object\<rparr>;
         s = s\<lparr>g_kernel_invariant_aux := aux\<rparr>;
         s = s\<lparr>g_kernel_invariant_tick := g_kernel_ticks s\<rparr>;
         s = s\<lparr>g_kernel_invariant_active := 1\<rparr>
     in kernel_fatal JRT_FATAL_KERNEL_INVARIANT s)"

text \<open>The checks of one task: the code and the auxiliary value reported, if one fails.\<close>

definition task_invariant :: "task_t \<Rightarrow> (JRT_KernelInvariantCode_t \<times> u32) option" where
  "task_invariant task =
    (if t_state task > JRT_TASK_STATE_SUSPENDED then Some (JRT_INVARIANT_TASK_STATE, t_state task)
     else if t_state task = JRT_TASK_STATE_BLOCKED
     then if t_wait_object task = NULL
          then Some (JRT_INVARIANT_BLOCKED_WAIT_OBJECT, wait_kind_code (t_wait_kind task))
          else if t_wait_kind task = TASK_WAIT_NONE \<or> t_wait_kind task > TASK_WAIT_TIMER_SERVICE
          then Some (JRT_INVARIANT_BLOCKED_WAIT_KIND, wait_kind_code (t_wait_kind task))
          else None
     else if t_wait_object task \<noteq> NULL \<or> t_wait_kind task \<noteq> TASK_WAIT_NONE \<or> t_wait_start task \<noteq> 0
             \<or> t_wait_deadline task \<noteq> 0 \<or> t_wait_forever task \<noteq> 0
     then Some (JRT_INVARIANT_NONBLOCKED_WAIT_METADATA, wait_kind_code (t_wait_kind task))
     else None)"

fun check_tasks_loop :: "u32 list \<Rightarrow> kstate \<Rightarrow> kstate halting" where
  "check_tasks_loop [] s = Inr s"
| "check_tasks_loop (index # rest) s =
    (case task_invariant (tasks s index) of
       Some (code, aux) \<Rightarrow> kernel_invariant_fail code index (task_address (cfg s) index) aux s
     | None \<Rightarrow> check_tasks_loop rest s)"

definition object_or_null :: "addr option \<Rightarrow> addr" where
  "object_or_null ob = (case ob of Some a \<Rightarrow> a | None \<Rightarrow> NULL)"

text \<open>\<open>None\<close>: a walk does not end, which the cycle checks exclude. \<open>Some (Inl s)\<close>: halted in \<open>s\<close>.\<close>

definition kernel_check_invariants_locked :: "kstate \<Rightarrow> kstate halting option" where
  "kernel_check_invariants_locked s =
    (case check_tasks_loop (indices (task_count s)) s of
       Inl s \<Rightarrow> Some (Inl s)
     | Inr s \<Rightarrow>
        (case sync_invariant_check (task_count s) s of
           None \<Rightarrow> None
         | Some (code, object) \<Rightarrow>
            if code \<noteq> JRT_INVARIANT_NONE
            then Some (kernel_invariant_fail code UINT32_MAX (object_or_null object) 0 s)
            else
              (case timer_invariant_check s of
                 None \<Rightarrow> None
               | Some (code, object) \<Rightarrow>
                  if code \<noteq> JRT_INVARIANT_NONE
                  then Some (kernel_invariant_fail code UINT32_MAX (object_or_null object) 0 s)
                  else Some (Inr s))))"

section \<open>The tick\<close>

definition count_timeout :: "task_wait_kind_t \<Rightarrow> kstate \<Rightarrow> kstate" where
  "count_timeout wait_kind s =
    (if wait_kind = TASK_WAIT_SEMAPHORE then s\<lparr>g_wait_timeout_semaphore := g_wait_timeout_semaphore s + 1\<rparr>
     else if wait_kind = TASK_WAIT_QUEUE_SEND then s\<lparr>g_wait_timeout_queue_send := g_wait_timeout_queue_send s + 1\<rparr>
     else if wait_kind = TASK_WAIT_QUEUE_RECEIVE
     then s\<lparr>g_wait_timeout_queue_receive := g_wait_timeout_queue_receive s + 1\<rparr>
     else if wait_kind = TASK_WAIT_MUTEX then s\<lparr>g_wait_timeout_mutex := g_wait_timeout_mutex s + 1\<rparr>
     else s)"

text \<open>The end of the wait of task \<open>index\<close> by timeout.\<close>

definition tick_timeout :: "u32 \<Rightarrow> kstate \<Rightarrow> kstate" where
  "tick_timeout index s =
    (let wait_kind = t_wait_kind (tasks s index);
         m = mutexes s (t_wait_object (tasks s index));
         mutex_owner_id =
           (if t_wait_kind (tasks s index) = TASK_WAIT_MUTEX \<and> t_wait_object (tasks s index) \<noteq> NULL
               \<and> m_locked m \<noteq> 0 \<and> m_owner m < task_count s
            then m_owner m else task_count s);
         s = task_wait_end index 0 0 s;
         s = count_timeout wait_kind s
     in if mutex_owner_id < task_count s then restore_priority_chain mutex_owner_id s else s)"

text \<open>The body of the loop over all tasks.\<close>

definition tick_task :: "u32 \<Rightarrow> kstate \<Rightarrow> kstate" where
  "tick_task index s =
    (if t_state (tasks s index) = JRT_TASK_STATE_SLEEPING \<and> t_sleep_ticks (tasks s index) > 0
     then
       let s = set_task index ((tasks s index)\<lparr>t_sleep_ticks := t_sleep_ticks (tasks s index) - 1\<rparr>) s
       in if t_sleep_ticks (tasks s index) = 0
          then let s = task_benchmark_release_locked index 0 s
               in set_task index ((tasks s index)\<lparr>t_state := JRT_TASK_STATE_READY\<rparr>) s
          else s
     else if t_state (tasks s index) = JRT_TASK_STATE_BLOCKED
          \<and> deadline_passed (g_kernel_ticks s) (t_wait_start (tasks s index))
              (t_wait_deadline (tasks s index)) (t_wait_forever (tasks s index))
     then tick_timeout index s
     else s)"

definition tick_tasks :: "kstate \<Rightarrow> kstate halting option" where
  "tick_tasks s =
    (let (saved_primask, s) = arch_critical_enter s;
         s = s\<lparr>g_kernel_ticks := g_kernel_ticks s + 1\<rparr>
     in case kernel_timer_tick s of
          None \<Rightarrow> None
        | Some s \<Rightarrow>
            (let s = for_upto (task_count s) tick_task s
             in case kernel_check_invariants_locked s of
                  None \<Rightarrow> None
                | Some (Inl s) \<Rightarrow> Some (Inl s)
                | Some (Inr s) \<Rightarrow> Some (Inr (arch_critical_exit saved_primask s))))"

section \<open>What the loop does to a task\<close>

text \<open>Up to priorities, which the ends of mutex waits recalculate, each task is treated alone.\<close>

definition task_ticked :: "u32 \<Rightarrow> task_t \<Rightarrow> task_t" where
  "task_ticked now t =
    (if t_state t = JRT_TASK_STATE_SLEEPING \<and> t_sleep_ticks t > 0
     then if t_sleep_ticks t = 1 then t\<lparr>t_sleep_ticks := 0, t_state := JRT_TASK_STATE_READY\<rparr>
          else t\<lparr>t_sleep_ticks := t_sleep_ticks t - 1\<rparr>
     else if t_state t = JRT_TASK_STATE_BLOCKED
          \<and> deadline_passed now (t_wait_start t) (t_wait_deadline t) (t_wait_forever t)
     then awake 0 t else t)"

definition erased :: "task_t \<Rightarrow> task_t" where
  "erased t = t\<lparr>t_priority := 0\<rparr>"

lemma erased_same: "same_but_priority ts us \<Longrightarrow> erased (us i) = erased (ts i)"
  by (auto simp: same_but_priority_def erased_def dest!: spec [of _ i])

lemma erased_fields:
  assumes "erased t = erased u"
  shows "t_state t = t_state u" "t_sleep_ticks t = t_sleep_ticks u" "t_wait_object t = t_wait_object u"
    "t_wait_kind t = t_wait_kind u" "t_wait_start t = t_wait_start u" "t_wait_deadline t = t_wait_deadline u"
    "t_wait_forever t = t_wait_forever u" "t_base_priority t = t_base_priority u" "t_wait_result t = t_wait_result u"
  using assms by (cases t; cases u; simp add: erased_def)+

lemma erased_ticked:
  assumes "erased t = erased u" shows "erased (task_ticked now t) = erased (task_ticked now u)"
proof -
  have "t = u\<lparr>t_priority := t_priority t\<rparr>" using assms by (cases t; cases u) (simp add: erased_def)
  then obtain p where p: "t = u\<lparr>t_priority := p\<rparr>" by blast
  show ?thesis by (simp add: p task_ticked_def erased_def awake_def)
qed

lemma count_timeout_fields [simp]:
  "tasks (count_timeout k s) = tasks s" "task_count (count_timeout k s) = task_count s"
  "mutexes (count_timeout k s) = mutexes s" "mutex_list (count_timeout k s) = mutex_list s"
  "timers (count_timeout k s) = timers s" "timer_list (count_timeout k s) = timer_list s"
  "g_kernel_ticks (count_timeout k s) = g_kernel_ticks s" "cfg (count_timeout k s) = cfg s"
  "timer_service_task_index (count_timeout k s) = timer_service_task_index s"
  "primask (count_timeout k s) = primask s" "event_groups (count_timeout k s) = event_groups s"
  "semaphores (count_timeout k s) = semaphores s" "queues (count_timeout k s) = queues s"
  "current_task (count_timeout k s) = current_task s" "g_current_task_index (count_timeout k s) = g_current_task_index s"
  by (simp_all add: count_timeout_def)

definition timeout_owner :: "u32 \<Rightarrow> kstate \<Rightarrow> u32" where
  "timeout_owner i s = (if blocked_on_mutex (tasks s i) \<and> m_locked (mutexes s (t_wait_object (tasks s i))) \<noteq> 0
     \<and> m_owner (mutexes s (t_wait_object (tasks s i))) < task_count s
   then m_owner (mutexes s (t_wait_object (tasks s i))) else task_count s)"

lemma tick_timeout_tasks:
  assumes "t_state (tasks s i) = JRT_TASK_STATE_BLOCKED"
  shows "tasks (tick_timeout i s) = (let ts = (tasks s)(i := awake 0 (tasks s i)) in
     if timeout_owner i s < task_count s
     then restore_loop (unat (task_count s)) (task_count s) (mutexes s) (timeout_owner i s) ts else ts)"
  using assms
  by (simp add: tick_timeout_def timeout_owner_def blocked_on_mutex_def Let_def task_wait_end_eq restore_priority_chain_def)

text \<open>What the loop leaves alone, as one equation, so that it composes.\<close>

definition tick_frame :: "kstate \<Rightarrow> kstate \<Rightarrow> bool" where
  "tick_frame s t \<longleftrightarrow> task_count t = task_count s \<and> mutexes t = mutexes s \<and> mutex_list t = mutex_list s
     \<and> timers t = timers s \<and> timer_list t = timer_list s \<and> g_kernel_ticks t = g_kernel_ticks s \<and> cfg t = cfg s
     \<and> timer_service_task_index t = timer_service_task_index s \<and> primask t = primask s
     \<and> event_groups t = event_groups s \<and> semaphores t = semaphores s \<and> queues t = queues s
     \<and> current_task t = current_task s \<and> g_current_task_index t = g_current_task_index s"

lemma tick_task_frame: "tick_frame s (tick_task i s)"
  by (simp add: tick_frame_def tick_task_def tick_timeout_def Let_def task_wait_end_eq restore_priority_chain_def
      set_task_def release_frame)

lemma tick_task_erased:
  "erased (tasks (tick_task i s) j) = erased (if j = i then task_ticked (g_kernel_ticks s) (tasks s i) else tasks s j)"
proof (cases "t_state (tasks s i) = JRT_TASK_STATE_BLOCKED
    \<and> deadline_passed (g_kernel_ticks s) (t_wait_start (tasks s i)) (t_wait_deadline (tasks s i)) (t_wait_forever (tasks s i))")
  case True
  let ?ts = "(tasks s)(i := awake 0 (tasks s i))"
  have "tasks (tick_task i s) = tasks (tick_timeout i s)" using True by (simp add: tick_task_def)
  then have "erased (tasks (tick_task i s) j) = erased (?ts j)"
    using True erased_same [OF same_but_priority_restore] by (simp add: tick_timeout_tasks Let_def)
  with True show ?thesis by (simp add: task_ticked_def)
next
  case False
  then show ?thesis
    by (auto simp: tick_task_def task_ticked_def set_task_def release_frame Let_def)
qed

lemma tick_frame_refl [simp]: "tick_frame s s"
  by (simp add: tick_frame_def)

lemma tick_frame_trans: "tick_frame s t \<Longrightarrow> tick_frame t u \<Longrightarrow> tick_frame s u"
  by (simp add: tick_frame_def)

lemma tick_loop:
  fixes s :: kstate
  defines "t \<equiv> for_upto (task_count s) tick_task s"
  shows "tick_frame s t"
    and "erased (tasks t i) = erased (if i < task_count s then task_ticked (g_kernel_ticks s) (tasks s i) else tasks s i)"
proof -
  have "tick_frame s t \<and> (\<forall>i. erased (tasks t i) =
      erased (if unat i < unat (task_count s) then task_ticked (g_kernel_ticks s) (tasks s i) else tasks s i))"
    unfolding t_def
  proof (rule for_upto_induct [where P = "\<lambda>k t. tick_frame s t \<and> (\<forall>i. erased (tasks t i) =
      erased (if unat i < k then task_ticked (g_kernel_ticks s) (tasks s i) else tasks s i))"], goal_cases)
    case (2 k u)
    let ?k = "word_of_nat k :: u32"
    have now: "g_kernel_ticks u = g_kernel_ticks s" using 2(4) by (simp add: tick_frame_def)
    have k: "erased (tasks u ?k) = erased (tasks s ?k)" using 2(3,4) by auto
    have lt: "unat i < Suc k \<longleftrightarrow> unat i < k \<or> i = ?k" for i :: u32
      using 2(3) by (auto simp: less_Suc_eq word_eq_unat)
    have "erased (tasks (tick_task ?k u) i) =
        erased (if unat i < Suc k then task_ticked (g_kernel_ticks s) (tasks s i) else tasks s i)" for i
      using 2(3,4) erased_ticked [OF k, of "g_kernel_ticks s"] by (auto simp: tick_task_erased now lt)
    then show ?case using 2(4) tick_frame_trans tick_task_frame by blast
  qed simp
  then show "tick_frame s t"
    and "erased (tasks t i) = erased (if i < task_count s then task_ticked (g_kernel_ticks s) (tasks s i) else tasks s i)"
    by (simp_all add: word_less_unat)
qed

section \<open>Priorities stay exact\<close>

lemma exact_state_change:
  assumes "exact n ms ts" and "\<not> blocked_on_mutex (ts i)" and "\<not> blocked_on_mutex t"
    and "t_priority t = t_priority (ts i)" and "t_base_priority t = t_base_priority (ts i)"
  shows "exact n ms (ts(i := t))"
proof -
  have "mutex_waiters_of n ms (ts(i := t)) j = mutex_waiters_of n ms ts j" for j
    using assms(2,3) by (auto simp: mutex_waiters_of_def waits_for_def)
  then have "exact n ms (ts(i := t)) = exact n ms ts" using assms(4,5) by (intro exact_cong) auto
  with assms(1) show ?thesis by simp
qed

text \<open>A waiter of an ownerless mutex, or of an owner that does not exist, demands of nobody.\<close>

lemma exact_awake_unowned:
  assumes ex: "exact n ms ts" and no: "\<And>j. j < n \<Longrightarrow> \<not> waits_for ms ts i j"
  shows "exact n ms (ts(i := awake r (ts i)))"
proof -
  have "mutex_waiters_of n ms (ts(i := awake r (ts i))) j = mutex_waiters_of n ms ts j" if "j < n" for j
    using no [OF that] by (auto simp: mutex_waiters_of_def waits_for_def blocked_on_mutex_def)
  then have "exact n ms (ts(i := awake r (ts i))) = exact n ms ts" by (intro exact_cong) auto
  with ex show ?thesis by simp
qed

lemma tick_timeout_exact:
  assumes "exact_priorities s" and "t_state (tasks s i) = JRT_TASK_STATE_BLOCKED"
  shows "exact_priorities (tick_timeout i s)"
proof -
  have f: "tick_frame s (tick_timeout i s)"
    by (simp add: tick_frame_def tick_timeout_def Let_def task_wait_end_eq restore_priority_chain_def)
  show ?thesis
  proof (cases "timeout_owner i s < task_count s")
    case True
    then have w: "waits_for (mutexes s) (tasks s) i (timeout_owner i s)"
      by (auto simp: timeout_owner_def waits_for_def split: if_splits)
    from stop_waiting_then_restore [OF _ w refl] assms True f show ?thesis
      by (simp add: exact_priorities_def tick_frame_def tick_timeout_tasks Let_def)
  next
    case False
    then have "\<not> waits_for (mutexes s) (tasks s) i j" if "j < task_count s" for j
      using that by (auto simp: timeout_owner_def waits_for_def split: if_splits)
    from exact_awake_unowned [OF _ this] assms False f show ?thesis
      by (simp add: exact_priorities_def tick_frame_def tick_timeout_tasks Let_def)
  qed
qed

lemma tick_task_exact:
  assumes "exact_priorities s" shows "exact_priorities (tick_task i s)"
proof (cases "t_state (tasks s i) = JRT_TASK_STATE_BLOCKED")
  case True
  then show ?thesis using assms tick_timeout_exact by (simp add: tick_task_def)
next
  case False
  let ?t = "tick_task i s"
  have f: "mutexes ?t = mutexes s" "task_count ?t = task_count s" using tick_task_frame [of s i] by (simp_all add: tick_frame_def)
  have "tasks ?t = (tasks s)(i := tasks ?t i)" "t_state (tasks ?t i) \<noteq> JRT_TASK_STATE_BLOCKED"
    "t_priority (tasks ?t i) = t_priority (tasks s i)" "t_base_priority (tasks ?t i) = t_base_priority (tasks s i)"
    using False by (simp_all add: tick_task_def set_task_def release_frame Let_def)
  with exact_state_change [of "task_count s" "mutexes s" "tasks s" i "tasks ?t i"] assms False f show ?thesis
    by (simp add: exact_priorities_def blocked_on_mutex_def)
qed

lemma tick_loop_exact: "exact_priorities s \<Longrightarrow> exact_priorities (for_upto n tick_task s)"
  by (rule for_upto_invariant [where P = exact_priorities]) (auto intro: tick_task_exact)

section \<open>No false alarm\<close>

definition tasks_wf :: "kstate \<Rightarrow> bool" where
  "tasks_wf s \<longleftrightarrow> (\<forall>i < task_count s. task_invariant (tasks s i) = None)"

definition mutexes_wf :: "kstate \<Rightarrow> bool" where
  "mutexes_wf s \<longleftrightarrow> (\<exists>xs. linked_mutexes s xs
     \<and> (\<forall>a\<in>set xs. mutex_fault (task_count s) (mutexes s a) = JRT_INVARIANT_NONE))"

lemma check_tasks_pass: "\<forall>i\<in>set is. task_invariant (tasks s i) = None \<Longrightarrow> check_tasks_loop is s = Inr s"
  by (induction "is") auto

lemma check_tasks_fail:
  "check_tasks_loop is s = (case find (\<lambda>i. task_invariant (tasks s i) \<noteq> None) is of
     None \<Rightarrow> Inr s
   | Some i \<Rightarrow> kernel_invariant_fail (fst (the (task_invariant (tasks s i)))) i (task_address (cfg s) i)
        (snd (the (task_invariant (tasks s i)))) s)"
proof (induction "is")
  case (Cons i rest)
  then show ?case by (cases "task_invariant (tasks s i)") auto
qed simp

lemma mutexes_wf_check:
  "\<exists>code object. sync_invariant_check (task_count s) s = Some (code, object) \<and> (code = JRT_INVARIANT_NONE \<longleftrightarrow> mutexes_wf s)"
proof (cases "\<exists>xs. linked_mutexes s xs")
  case False
  with sync_invariant_check_cyclic [of s "task_count s"] show ?thesis by (auto simp: mutexes_wf_def)
next
  case True
  then obtain xs where xs: "linked_mutexes s xs" by blast
  have only: "linked_mutexes s ys \<longleftrightarrow> ys = xs" for ys using xs list_at_unique unfolding linked_mutexes_def by blast
  then have wf: "mutexes_wf s \<longleftrightarrow> find (\<lambda>a. mutex_fault (task_count s) (mutexes s a) \<noteq> JRT_INVARIANT_NONE) xs = None"
    by (simp add: mutexes_wf_def only find_None_iff Ball_def)
  let ?f = "find (\<lambda>a. mutex_fault (task_count s) (mutexes s a) \<noteq> JRT_INVARIANT_NONE) xs"
  have "mutex_fault (task_count s) (mutexes s a) \<noteq> JRT_INVARIANT_NONE" if "?f = Some a" for a
    using that by (auto simp: find_Some_iff)
  then show ?thesis
    unfolding sync_invariant_check_list [OF xs] wf by (cases ?f) simp_all
qed

lemma tasks_wf_check:
  "check_tasks_loop (indices (task_count s)) s = Inr s \<and> tasks_wf s
   \<or> (\<exists>code i ob aux. check_tasks_loop (indices (task_count s)) s = kernel_invariant_fail code i ob aux s) \<and> \<not> tasks_wf s"
proof -
  have "tasks_wf s \<longleftrightarrow> find (\<lambda>i. task_invariant (tasks s i) \<noteq> None) (indices (task_count s)) = None"
    by (auto simp: tasks_wf_def find_None_iff simp del: not_None_eq)
  then show ?thesis
    unfolding check_tasks_fail by (cases "find (\<lambda>i. task_invariant (tasks s i) \<noteq> None) (indices (task_count s))") auto
qed

definition halted_by_check :: "kstate \<Rightarrow> bool" where
  "halted_by_check h \<longleftrightarrow> primask h = 1 \<and> g_fatal_active h = 1 \<and> g_fatal_reason h = 2 \<and> g_kernel_invariant_active h = 1"

lemma invariant_fail_halts: "\<exists>h. (kernel_invariant_fail code i ob aux s :: kstate halting) = Inl h \<and> halted_by_check h"
  by (simp add: kernel_invariant_fail_def kernel_fatal_def halted_by_check_def kdefs Let_def)



lemma kernel_check_pass:
  assumes "tasks_wf s" and "mutexes_wf s" and "timers_wf s"
  shows "kernel_check_invariants_locked s = Some (Inr s)"
proof -
  obtain o1 where "sync_invariant_check (task_count s) s = Some (JRT_INVARIANT_NONE, o1)"
    using mutexes_wf_check [of s] assms by auto
  moreover obtain o2 where "timer_invariant_check s = Some (JRT_INVARIANT_NONE, o2)"
    using timers_wf_check [of s] assms by auto
  moreover have "check_tasks_loop (indices (task_count s)) s = Inr s" using tasks_wf_check [of s] assms by blast
  ultimately show ?thesis by (simp add: kernel_check_invariants_locked_def)
qed

section \<open>A tick of a well-formed kernel\<close>

text \<open>The kernel's own invariant: what the check tests, with exact priorities and no lost timer work.\<close>

definition kernel_wf :: "kstate \<Rightarrow> bool" where
  "kernel_wf s \<longleftrightarrow> tasks_wf s \<and> mutexes_wf s \<and> mutex_inv s \<and> timer_inv s"

lemma task_invariant_erased: "erased t = erased u \<Longrightarrow> task_invariant t = task_invariant u"
  by (simp add: task_invariant_def erased_fields [of t u])

lemma task_invariant_ticked: "task_invariant t = None \<Longrightarrow> task_invariant (task_ticked now t) = None"
  by (auto simp: task_invariant_def task_ticked_def split: if_splits)

lemma task_invariant_awake: "task_invariant (awake r t) = None"
  by (simp add: task_invariant_def)

text \<open>The state in which the tick's loop runs: ticks counted, timers ticked.\<close>

definition tick_start :: "kstate \<Rightarrow> kstate" where
  "tick_start s = (cs_enter s)\<lparr>g_kernel_ticks := g_kernel_ticks s + 1\<rparr>"

lemma tick_start_fields [simp]:
  "tasks (tick_start s) = tasks s" "task_count (tick_start s) = task_count s" "mutexes (tick_start s) = mutexes s"
  "mutex_list (tick_start s) = mutex_list s" "timers (tick_start s) = timers s" "timer_list (tick_start s) = timer_list s"
  "g_kernel_ticks (tick_start s) = g_kernel_ticks s + 1" "cfg (tick_start s) = cfg s"
  "timer_service_task_index (tick_start s) = timer_service_task_index s"
  "current_task (tick_start s) = current_task s" "g_current_task_index (tick_start s) = g_current_task_index s"
  by (simp_all add: tick_start_def)

lemma timer_inv_cong:
  assumes "timers t = timers s" and "timer_list t = timer_list s" and "timer_service_waiting t \<Longrightarrow> timer_service_waiting s"
  shows "timer_inv s \<Longrightarrow> timer_inv t"
  using assms linked_timers_cong [of t s] unfolding timer_inv_def timers_ok_def by auto

lemma tick_tasks_eq:
  assumes "kernel_timer_tick (tick_start s) = Some v"
    and "kernel_check_invariants_locked (for_upto (task_count v) tick_task v) = Some (Inr (for_upto (task_count v) tick_task v))"
  shows "tick_tasks s = Some (Inr (arch_critical_exit (primask s) (for_upto (task_count v) tick_task v)))"
  using assms by (simp add: tick_tasks_def arch_critical_enter_eq tick_start_def)

lemma kernel_waiters_ticked:
  assumes "task_count t = task_count s" and "\<And>i. i < task_count s \<Longrightarrow>
      waits_on ob k (tasks t i) \<Longrightarrow> waits_on ob k (tasks s i)"
  shows "kernel_waiters ob k t \<subseteq> kernel_waiters ob k s"
  using assms by (auto simp: kernel_waiters_def waiters_def)

lemma waits_on_erased: "erased t = erased u \<Longrightarrow> waits_on ob k t = waits_on ob k u"
  by (simp add: waits_on_def erased_fields [of t u])

lemma waits_on_ticked: "waits_on ob k (task_ticked now t) \<Longrightarrow> waits_on ob k t"
  by (auto simp: waits_on_def task_ticked_def split: if_splits)

lemma mutex_inv_mono:
  assumes "mutex_inv s" and "exact_priorities t" and "mutexes t = mutexes s" and "task_count t = task_count s"
    and "\<And>ob i. i < task_count s \<Longrightarrow> waits_on ob TASK_WAIT_MUTEX (tasks t i) \<Longrightarrow> waits_on ob TASK_WAIT_MUTEX (tasks s i)"
  shows "mutex_inv t"
  using assms kernel_waiters_ticked [OF assms(4), of _ TASK_WAIT_MUTEX] unfolding mutex_inv_def by fastforce

lemma mutexes_wf_cong:
  "mutexes t = mutexes s \<Longrightarrow> mutex_list t = mutex_list s \<Longrightarrow> task_count t = task_count s \<Longrightarrow> mutexes_wf t = mutexes_wf s"
  by (simp add: mutexes_wf_def linked_mutexes_def)

text \<open>The timer part keeps the kernel well formed.\<close>

lemma timer_tick_wf:
  assumes wf: "kernel_wf s"
  obtains v where "kernel_timer_tick (tick_start s) = Some v" "kernel_wf v"
    "task_count v = task_count s" "g_kernel_ticks v = g_kernel_ticks s + 1" "mutexes v = mutexes s"
    "current_task v = current_task s" "g_current_task_index v = g_current_task_index s"
    "tasks v = tasks s \<or> timer_service_waiting s
       \<and> tasks v = (tasks s)(timer_service_task_index s := awake 1 (tasks s (timer_service_task_index s)))"
proof -
  let ?u = "tick_start s" and ?i = "timer_service_task_index s"
  have "timer_inv ?u"
    using wf timer_inv_cong [of ?u s] by (simp add: kernel_wf_def waiting_cong [of ?u s])
  with tick_timer_inv obtain v where v: "kernel_timer_tick ?u = Some v" "timer_inv v" by blast
  obtain xs where xs: "linked_timers ?u xs" using \<open>timer_inv ?u\<close> by (auto simp: timer_inv_def)
  let ?W = "tick_wakes (g_kernel_ticks ?u) (timers ?u) xs"
  have eq: "v = (if ?W then task_timer_service_wake_locked ?u else ?u)\<lparr>timers := tick_timers (g_kernel_ticks ?u) (set xs) (timers ?u)\<rparr>"
    using v(1) kernel_timer_tick_list [OF xs] by simp
  have waiting: "timer_service_waiting ?u = timer_service_waiting s" by (rule waiting_cong) simp_all
  have f: "task_count v = task_count s" "g_kernel_ticks v = g_kernel_ticks s + 1" "mutexes v = mutexes s"
    "current_task v = current_task s" "g_current_task_index v = g_current_task_index s"
    "tasks v = tasks s \<or> timer_service_waiting s \<and> tasks v = (tasks s)(?i := awake 1 (tasks s ?i))"
    by (simp_all add: eq timer_service_wake_fields waiting)
  have ml: "mutex_list v = mutex_list s"
    by (simp add: eq task_timer_service_wake_locked_def task_wait_end_eq)
  have each: "tasks v i = tasks s i \<or> tasks v i = awake 1 (tasks s i)" for i using f(6) by auto
  have "tasks_wf v"
    using wf each task_invariant_awake f(1) unfolding kernel_wf_def tasks_wf_def by metis
  moreover have "mutexes_wf v" using wf mutexes_wf_cong [OF f(3) ml f(1)] by (simp add: kernel_wf_def)
  moreover have "mutex_inv v"
  proof (rule mutex_inv_mono [OF _ _ f(3,1)])
    show "mutex_inv s" using wf by (simp add: kernel_wf_def)
    show "exact_priorities v"
    proof (cases "tasks v = tasks s")
      case True
      then show ?thesis using wf f by (simp add: exact_priorities_def kernel_wf_def mutex_inv_def)
    next
      case False
      then have a: "timer_service_waiting s" "tasks v = (tasks s)(?i := awake 1 (tasks s ?i))" using f(6) by auto
      then have "\<not> blocked_on_mutex (tasks s ?i)" by (simp add: timer_service_waiting_def blocked_on_mutex_def Let_def)
      then have "exact (task_count s) (mutexes s) ((tasks s)(?i := awake 1 (tasks s ?i)))"
        using wf by (intro exact_state_change) (simp_all add: blocked_on_mutex_def kernel_wf_def mutex_inv_def exact_priorities_def)
      then show ?thesis by (simp add: exact_priorities_def f(1,3) a(2))
    qed
    show "waits_on ob TASK_WAIT_MUTEX (tasks s i)" if "waits_on ob TASK_WAIT_MUTEX (tasks v i)" for ob i
      using that each [of i] by (auto simp: waits_on_def)
  qed
  ultimately have "kernel_wf v" using v(2) by (simp add: kernel_wf_def)
  from that [OF v(1) this f] show thesis .
qed

lemma tick_loop_wf:
  assumes wf: "kernel_wf v"
  shows "kernel_wf (for_upto (task_count v) tick_task v)"
proof -
  let ?t = "for_upto (task_count v) tick_task v"
  note l = tick_loop [of v]
  have f: "task_count ?t = task_count v" "mutexes ?t = mutexes v" "mutex_list ?t = mutex_list v" "timers ?t = timers v"
    "timer_list ?t = timer_list v" "cfg ?t = cfg v" "timer_service_task_index ?t = timer_service_task_index v"
    using l(1) by (simp_all add: tick_frame_def)
  have inv: "task_invariant (tasks ?t i) = None" if "i < task_count v" for i
    using task_invariant_erased [OF l(2) [of i]] task_invariant_ticked wf that
    by (simp add: kernel_wf_def tasks_wf_def)
  have waits: "waits_on ob k (tasks v i)" if "waits_on ob k (tasks ?t i)" for ob k i
    using waits_on_erased [OF l(2) [of i]] waits_on_ticked that by (auto split: if_splits)
  have "tasks_wf ?t" using inv by (simp add: tasks_wf_def f(1))
  moreover have "mutexes_wf ?t" using wf mutexes_wf_cong [OF f(2,3,1)] by (simp add: kernel_wf_def)
  moreover have "mutex_inv ?t"
  proof (rule mutex_inv_mono [OF _ _ f(2,1)])
    show "exact_priorities ?t" using wf tick_loop_exact by (simp add: kernel_wf_def mutex_inv_def)
  qed (use wf waits in \<open>simp_all add: kernel_wf_def\<close>)
  moreover have "timer_inv ?t"
  proof (rule timer_inv_cong [OF f(4,5)])
    show "timer_service_waiting v" if "timer_service_waiting ?t"
      using that waits [of "ld_timer_service_wait_object (cfg v)" TASK_WAIT_TIMER_SERVICE "timer_service_task_index v"]
      by (simp add: timer_service_waiting_def waits_on_def Let_def f(6,7))
  qed (use wf in \<open>simp add: kernel_wf_def\<close>)
  ultimately show ?thesis by (simp add: kernel_wf_def)
qed

lemma kernel_wf_exit [simp]: "kernel_wf (arch_critical_exit p s) = kernel_wf s"
proof -
  have "timer_inv (arch_critical_exit p s) = timer_inv s" by (simp add: timer_inv_def)
  moreover have "mutex_inv (arch_critical_exit p s) = mutex_inv s" by (rule mutex_inv_cong) simp_all
  moreover have "mutexes_wf (arch_critical_exit p s) = mutexes_wf s" by (rule mutexes_wf_cong) simp_all
  ultimately show ?thesis by (simp add: kernel_wf_def tasks_wf_def)
qed

text \<open>All of a tick on a well-formed kernel.\<close>

lemma tick_tasks_wf:
  assumes wf: "kernel_wf s"
  obtains t where "tick_tasks s = Some (Inr t)" "kernel_wf t" "task_count t = task_count s"
    "g_kernel_ticks t = g_kernel_ticks s + 1" "primask t = primask s" "mutexes t = mutexes s"
    "current_task t = current_task s" "g_current_task_index t = g_current_task_index s"
    "\<And>i. i < task_count s \<Longrightarrow> i \<noteq> timer_service_task_index s \<or> \<not> timer_service_waiting s \<Longrightarrow>
       erased (tasks t i) = erased (task_ticked (g_kernel_ticks s + 1) (tasks s i))"
    "\<And>i. i < task_count s \<Longrightarrow> \<exists>u \<in> {tasks s i, awake 1 (tasks s i)}.
       erased (tasks t i) = erased (task_ticked (g_kernel_ticks s + 1) u)"
proof -
  obtain v where v: "kernel_timer_tick (tick_start s) = Some v" "kernel_wf v"
    "task_count v = task_count s" "g_kernel_ticks v = g_kernel_ticks s + 1" "mutexes v = mutexes s"
    "current_task v = current_task s" "g_current_task_index v = g_current_task_index s"
    "tasks v = tasks s \<or> timer_service_waiting s
       \<and> tasks v = (tasks s)(timer_service_task_index s := awake 1 (tasks s (timer_service_task_index s)))"
    by (rule timer_tick_wf [OF wf])
  let ?w = "for_upto (task_count v) tick_task v"
  have w: "kernel_wf ?w" by (rule tick_loop_wf [OF v(2)])
  then have "kernel_check_invariants_locked ?w = Some (Inr ?w)"
    using timer_inv_wf by (intro kernel_check_pass) (simp_all add: kernel_wf_def)
  from tick_tasks_eq [OF v(1) this] have t: "tick_tasks s = Some (Inr (arch_critical_exit (primask s) ?w))" .
  note l = tick_loop [of v, unfolded v(3,4)]
  have f: "task_count ?w = task_count s" "g_kernel_ticks ?w = g_kernel_ticks s + 1" "mutexes ?w = mutexes s"
    "current_task ?w = current_task s" "g_current_task_index ?w = g_current_task_index s"
    using tick_loop(1) [of v] v by (simp_all add: tick_frame_def)
  show thesis
  proof (rule that [OF t])
    fix i assume i: "i < task_count s"
    show "erased (tasks (arch_critical_exit (primask s) ?w) i) = erased (task_ticked (g_kernel_ticks s + 1) (tasks s i))"
      if "i \<noteq> timer_service_task_index s \<or> \<not> timer_service_waiting s"
      using tick_loop(2) [of v i] v i that by auto
    show "\<exists>u \<in> {tasks s i, awake 1 (tasks s i)}.
        erased (tasks (arch_critical_exit (primask s) ?w) i) = erased (task_ticked (g_kernel_ticks s + 1) u)"
      using tick_loop(2) [of v i] v i by auto
  qed (use w f in simp_all)
qed

section \<open>Properties of the tick\<close>

text \<open>C22: a tick never halts a well-formed kernel and keeps it well formed: every loop ends, the
  invariant check passes, the tick count advances by one, interrupts are restored, priorities stay
  exact through any number of mutex timeouts in the same tick, and the timer invariant holds.\<close>

theorem tick_keeps_kernel_wf:
  assumes "kernel_wf s"
  shows "\<exists>t. tick_tasks s = Some (Inr t) \<and> kernel_wf t
    \<and> g_kernel_ticks t = g_kernel_ticks s + 1 \<and> primask t = primask s \<and> mutexes t = mutexes s"
  by (rule tick_tasks_wf [OF assms]) blast

text \<open>A well-formed state: task 2 waits with a timeout for the mutex of task 0, task 1 sleeps.\<close>

definition tick_state :: kstate where
  "tick_state = (reset_state default_config)\<lparr>task_count := 4, timer_service_task_index := 3,
     mutexes := (\<lambda>_. \<lparr>m_locked = 0, m_owner = UINT32_MAX, m_recursion = 0, m_next = 0\<rparr>)
       (0x100 := \<lparr>m_locked = 1, m_owner = 0, m_recursion = 1, m_next = 0\<rparr>),
     mutex_list := 0x100,
     tasks := (\<lambda>_. zero_task)
       (0 := zero_task\<lparr>t_state := JRT_TASK_STATE_RUNNING, t_priority := 5, t_base_priority := 2\<rparr>,
        1 := zero_task\<lparr>t_state := JRT_TASK_STATE_SLEEPING, t_sleep_ticks := 1\<rparr>,
        2 := (blocked_on 0x100 TASK_WAIT_MUTEX (make_deadline 0 1) zero_task)\<lparr>t_priority := 5, t_base_priority := 5\<rparr>)\<rparr>"

lemma tick_state_simps:
  "task_count tick_state = 4" "mutex_list tick_state = 0x100" "timer_list tick_state = 0" "g_kernel_ticks tick_state = 0"
  "mutexes tick_state = (\<lambda>_. \<lparr>m_locked = 0, m_owner = UINT32_MAX, m_recursion = 0, m_next = 0\<rparr>)
       (0x100 := \<lparr>m_locked = 1, m_owner = 0, m_recursion = 1, m_next = 0\<rparr>)"
  "tasks tick_state = (\<lambda>_. zero_task)
       (0 := zero_task\<lparr>t_state := JRT_TASK_STATE_RUNNING, t_priority := 5, t_base_priority := 2\<rparr>,
        1 := zero_task\<lparr>t_state := JRT_TASK_STATE_SLEEPING, t_sleep_ticks := 1\<rparr>,
        2 := (blocked_on 0x100 TASK_WAIT_MUTEX (make_deadline 0 1) zero_task)\<lparr>t_priority := 5, t_base_priority := 5\<rparr>)"
  "timers tick_state = (\<lambda>_. zero_timer)" "timer_service_task_index tick_state = 3"
  by (simp_all add: tick_state_def reset_state_def)

lemma tick_state_wf: "kernel_wf tick_state"
proof -
  have "tasks_wf tick_state"
    by (auto simp: tasks_wf_def task_invariant_def tick_state_simps zero_task_def less_task_wait_kind_t_def)
  moreover have "mutexes_wf tick_state"
    unfolding mutexes_wf_def by (rule exI [of _ "[0x100]"]) (simp add: linked_mutexes_def tick_state_simps mutex_fault_def)
  moreover have "timer_inv tick_state"
    by (rule timer_invI [of _ "[]"])
      (simp_all add: linked_timers_list tick_state_simps timers_ok_def timer_fault_def zero_timer_def)
  moreover have "exact_priorities tick_state"
  proof -
    have "indices 4 = [0, 1, 2, 3]" by (simp add: indices_def upt_conv_Cons)
    then show ?thesis
      by (auto simp: exact_priorities_def exact_def effective_priority_def for_upto_def below_four tick_state_simps
          zero_task_def waits_for_def blocked_on_mutex_def)
  qed
  then have "mutex_inv tick_state"
    by (auto simp: mutex_inv_def kernel_waiters_def waiters_def waits_on_def tick_state_simps zero_task_def split: if_splits)
  ultimately show ?thesis by (simp add: kernel_wf_def)
qed

theorem tick_keeps_kernel_wf_witness:
  "kernel_wf tick_state \<and> (\<exists>t. tick_tasks tick_state = Some (Inr t) \<and> kernel_wf t)"
  using tick_keeps_kernel_wf [OF tick_state_wf] tick_state_wf by blast



section \<open>Sleeping for a number of ticks\<close>

fun kernel_ticks :: "nat \<Rightarrow> kstate \<Rightarrow> kstate option" where
  "kernel_ticks 0 s = Some s"
| "kernel_ticks (Suc n) s =
    (case kernel_ticks n s of
       None \<Rightarrow> None
     | Some s \<Rightarrow> (case tick_tasks s of Some (Inr s) \<Rightarrow> Some s | _ \<Rightarrow> None))"

lemma kernel_ticks_sleeping:
  assumes wf: "kernel_wf s" and i: "i < task_count s"
    and sleep: "t_state (tasks s i) = JRT_TASK_STATE_SLEEPING" "unat (t_sleep_ticks (tasks s i)) = k" "0 < k"
  shows "\<exists>t. kernel_ticks n s = Some t \<and> kernel_wf t \<and> task_count t = task_count s
    \<and> g_kernel_ticks t = g_kernel_ticks s + word_of_nat n
    \<and> (if n < k then t_state (tasks t i) = JRT_TASK_STATE_SLEEPING \<and> unat (t_sleep_ticks (tasks t i)) = k - n
       else t_state (tasks t i) = JRT_TASK_STATE_READY)"
proof (induction n)
  case 0
  then show ?case using assms by simp
next
  case (Suc n)
  then obtain u where u: "kernel_ticks n s = Some u" "kernel_wf u" "task_count u = task_count s"
    "g_kernel_ticks u = g_kernel_ticks s + word_of_nat n"
    "if n < k then t_state (tasks u i) = JRT_TASK_STATE_SLEEPING \<and> unat (t_sleep_ticks (tasks u i)) = k - n
     else t_state (tasks u i) = JRT_TASK_STATE_READY" by blast
  have "\<not> timer_service_waiting u \<or> i \<noteq> timer_service_task_index u"
    using u(5) by (auto simp: timer_service_waiting_def Let_def split: if_splits)
  then obtain t where t: "tick_tasks u = Some (Inr t)" "kernel_wf t" "task_count t = task_count u"
    "g_kernel_ticks t = g_kernel_ticks u + 1"
    "erased (tasks t i) = erased (task_ticked (g_kernel_ticks u + 1) (tasks u i))"
    using tick_tasks_wf [OF u(2)] i u(3) by metis
  have st: "t_state (tasks t i) = t_state (task_ticked (g_kernel_ticks u + 1) (tasks u i))"
    "t_sleep_ticks (tasks t i) = t_sleep_ticks (task_ticked (g_kernel_ticks u + 1) (tasks u i))"
    by (rule erased_fields [OF t(5)])+
  have "if Suc n < k then t_state (tasks t i) = JRT_TASK_STATE_SLEEPING \<and> unat (t_sleep_ticks (tasks t i)) = k - Suc n
     else t_state (tasks t i) = JRT_TASK_STATE_READY"
  proof (cases "n < k")
    case True
    let ?z = "t_sleep_ticks (tasks u i)"
    have z: "t_state (tasks u i) = JRT_TASK_STATE_SLEEPING" "unat ?z = k - n" "0 < unat ?z" using u(5) True by auto
    then have pos: "?z > 0" by (simp add: word_less_unat)
    have "?z = 1 \<longleftrightarrow> Suc n = k" using z(2) True by (auto simp: word_eq_unat)
    moreover have "unat (?z - 1) = unat ?z - 1" using pos by (simp add: unat_minus_one word_neq_0_unat z(3))
    ultimately show ?thesis using z pos True by (auto simp: st task_ticked_def)
  next
    case False
    then show ?thesis using u(5) by (simp add: st task_ticked_def)
  qed
  with u t show ?case by (intro exI [of _ t]) simp
qed

text \<open>Changing a task that is neither blocked before nor after.\<close>

lemma kernel_wf_state_change:
  assumes wf: "kernel_wf s" and t: "tasks t = (tasks s)(i := u)" "task_count t = task_count s" "mutexes t = mutexes s"
      "mutex_list t = mutex_list s" "timers t = timers s" "timer_list t = timer_list s" "cfg t = cfg s"
      "timer_service_task_index t = timer_service_task_index s"
    and nb: "t_state (tasks s i) \<noteq> JRT_TASK_STATE_BLOCKED" "t_state u \<noteq> JRT_TASK_STATE_BLOCKED"
    and u: "task_invariant (tasks s i) = None \<Longrightarrow> task_invariant u = None"
    and p: "t_priority u = t_priority (tasks s i)" "t_base_priority u = t_base_priority (tasks s i)"
  shows "kernel_wf t"
proof -
  have "tasks_wf t" using wf u by (auto simp: kernel_wf_def tasks_wf_def t)
  moreover have "mutexes_wf t" using wf mutexes_wf_cong [OF t(3,4,2)] by (simp add: kernel_wf_def)
  moreover have "timer_inv t"
  proof (rule timer_inv_cong [OF t(5,6)])
    show "timer_service_waiting s" if "timer_service_waiting t"
      using that nb(2) by (auto simp: timer_service_waiting_def Let_def t split: if_splits)
  qed (use wf in \<open>simp add: kernel_wf_def\<close>)
  moreover have "exact_priorities t"
    using wf nb p exact_state_change [of "task_count s" "mutexes s" "tasks s" i u]
    by (simp add: exact_priorities_def kernel_wf_def mutex_inv_def t blocked_on_mutex_def)
  then have "mutex_inv t"
    using wf nb(2) by (intro mutex_inv_mono [of s t]) (auto simp: kernel_wf_def t waits_on_def split: if_splits)
  ultimately show ?thesis by (simp add: kernel_wf_def)
qed

text \<open>C24: a periodic task keeps time: \<open>JRT_TaskDelayUntil\<close> always moves the wake time by exactly one
  period, however late the call is; when that time is still ahead it puts the caller to sleep, and
  the caller becomes READY in the very tick whose count is the wake time, and not before, across
  the wrap-around of the tick count.\<close>

theorem delay_until_on_time:
  assumes wf: "kernel_wf s" and c: "current_task s < task_count s" "t_state (tasks s (current_task s)) = JRT_TASK_STATE_RUNNING"
    and p: "p \<noteq> NULL" and r: "JRT_TaskDelayUntil p prev period s = (wake, delay, s')"
  shows "wake = Some (prev + period)
    \<and> (delay = None \<longleftrightarrow> 0 \<le> int32 (g_kernel_ticks s - (prev + period)))
    \<and> (\<forall>d n. delay = Some d \<longrightarrow> (\<exists>t. kernel_ticks n s' = Some t
         \<and> g_kernel_ticks t = g_kernel_ticks s + word_of_nat n \<and> g_kernel_ticks s + d = prev + period
         \<and> t_state (tasks t (current_task s)) = (if n < unat d then JRT_TASK_STATE_SLEEPING else JRT_TASK_STATE_READY)))"
proof -
  let ?w = "prev + period" and ?c = "current_task s"
  let ?x = "arch_critical_exit (primask s) (cs_enter s)"
  note eq = r [unfolded delay_until_eq [OF p]]
  have "\<exists>t. kernel_ticks n s' = Some t \<and> g_kernel_ticks t = g_kernel_ticks s + word_of_nat n \<and> g_kernel_ticks s + d = ?w
         \<and> t_state (tasks t ?c) = (if n < unat d then JRT_TASK_STATE_SLEEPING else JRT_TASK_STATE_READY)"
    if "delay = Some d" for d n
  proof -
    have d: "d = ?w - g_kernel_ticks s" "s' = JRT_TaskDelay d ?x" "int32 (g_kernel_ticks s - ?w) < 0"
      using eq that by (auto split: if_splits)
    have "d \<noteq> 0" using d(1,3) due_now [of ?w] by (auto simp: int32_def)
    have ts: "tasks s' = (tasks s)(?c := (tasks s ?c)\<lparr>t_sleep_ticks := d, t_state := JRT_TASK_STATE_SLEEPING\<rparr>)"
      "task_count s' = task_count s" "g_kernel_ticks s' = g_kernel_ticks s"
      using \<open>d \<noteq> 0\<close> by (simp_all add: d(2) delay_fields)
    have "kernel_wf s'"
    proof (rule kernel_wf_state_change [OF wf ts(1,2)])
      show "mutexes s' = mutexes s" "mutex_list s' = mutex_list s" "timers s' = timers s" "timer_list s' = timer_list s"
        "cfg s' = cfg s" "timer_service_task_index s' = timer_service_task_index s"
        by (simp_all add: d(2) JRT_TaskDelay_def request_switch_def sleep_current_def arch_critical_enter_eq Let_def
            set_task_def complete_frame)
    qed (use c(2) in \<open>auto simp: task_invariant_def split: if_splits\<close>)
    moreover have "0 < unat d" using \<open>d \<noteq> 0\<close> by (simp add: word_neq_0_unat)
    ultimately obtain t where "kernel_ticks n s' = Some t" "g_kernel_ticks t = g_kernel_ticks s' + word_of_nat n"
      "if n < unat d then t_state (tasks t ?c) = JRT_TASK_STATE_SLEEPING \<and> unat (t_sleep_ticks (tasks t ?c)) = unat d - n
       else t_state (tasks t ?c) = JRT_TASK_STATE_READY"
      using kernel_ticks_sleeping [of s' ?c "unat d" n] c(1) ts by auto
    with ts(3) d(1) show ?thesis by (intro exI [of _ t]) (auto split: if_splits)
  qed
  with eq show ?thesis by (auto split: if_splits)
qed

theorem delay_until_witness:
  "\<exists>t. kernel_ticks 3 (snd (snd (JRT_TaskDelayUntil 0x400 0xFFFFFFFF 4 tick_state))) = Some t
     \<and> g_kernel_ticks t = 3 \<and> t_state (tasks t 0) = JRT_TASK_STATE_READY"
proof -
  obtain w d s' where r: "JRT_TaskDelayUntil 0x400 0xFFFFFFFF 4 tick_state = (w, d, s')" by (metis prod_cases3)
  have c: "current_task tick_state = 0" by (simp add: tick_state_def reset_state_def)
  have "d = Some 3" using r [unfolded delay_until_eq [of "0x400", simplified]] by (auto simp: tick_state_simps int32_def)
  with delay_until_on_time [OF tick_state_wf _ _ _ r] r c show ?thesis
    by (auto simp: tick_state_simps dest!: spec [of _ 3])
qed

end
