(* ===== verification/JRT_Svc.thy ===== *)
theory JRT_Svc
  imports JRT_Scheduler JRT_Tick
begin

text \<open>
  The exception handlers of the Cortex-M port (\<open>arch/cortex_m/port_cm7.c\<close>, \<open>svc_cm7.s\<close>): the
  dispatch of supervisor calls, the SysTick handler and the PendSV handler with the register
  transfers of its inline assembly. The instruction memory is read through \<open>mem8\<close>, the stacks
  through \<open>mem32\<close>.
\<close>

section \<open>Supervisor calls\<close>

text \<open>\<open>board_led_toggle\<close> of the S32K312 board: the output bit of pin PTB18 in \<open>SIUL2_PGPDO3\<close>.\<close>

definition board_led_toggle :: "kstate \<Rightarrow> kstate" where
  "board_led_toggle s = write_reg 0x40291704 (mmio s 0x40291704 XOR 0x2000) s"

abbreviation (input) SVC_SERVICE_YIELD :: u8 where "SVC_SERVICE_YIELD \<equiv> 1"
abbreviation (input) SVC_SERVICE_SLEEP :: u8 where "SVC_SERVICE_SLEEP \<equiv> 2"
abbreviation (input) SVC_SERVICE_LED_TOGGLE :: u8 where "SVC_SERVICE_LED_TOGGLE \<equiv> 3"
abbreviation (input) SVC_SERVICE_TASK_SUSPEND :: u8 where "SVC_SERVICE_TASK_SUSPEND \<equiv> 4"
abbreviation (input) SVC_SERVICE_TASK_RESUME :: u8 where "SVC_SERVICE_TASK_RESUME \<equiv> 5"

text \<open>The immediate of the \<open>svc\<close> instruction, two bytes before the stacked return address.\<close>

definition svc_number :: "addr \<Rightarrow> kstate \<Rightarrow> u8" where
  "svc_number stacked_frame s = mem8 s (mem32 s (stacked_frame + 24) - 2)"

definition set_r0 :: "addr \<Rightarrow> u32 \<Rightarrow> kstate \<Rightarrow> kstate" where
  "set_r0 stacked_frame v s = s\<lparr>mem32 := (mem32 s)(stacked_frame := v)\<rparr>"

definition svc_dispatch :: "addr \<Rightarrow> u32 \<Rightarrow> kstate \<Rightarrow> kstate" where
  "svc_dispatch stacked_frame exc_return s =
    (let number = svc_number stacked_frame s;
         r0 = mem32 s stacked_frame
     in if exc_return AND push_bit 3 1 = 0 \<or> exc_return AND push_bit 2 1 = 0
        then set_r0 stacked_frame (status_code JRT_STATUS_INVALID_CONTEXT)
               (s\<lparr>g_svc_invalid_context := g_svc_invalid_context s + 1\<rparr>)
        else if number = SVC_SERVICE_YIELD then request_switch s
        else if number = SVC_SERVICE_SLEEP then request_switch (sleep_current r0 s)
        else if number = SVC_SERVICE_LED_TOGGLE then request_switch (board_led_toggle s)
        else if number = SVC_SERVICE_TASK_SUSPEND
        then let (status, s) = kernel_task_suspend r0 s
             in request_switch (set_r0 stacked_frame (status_code status) s)
        else if number = SVC_SERVICE_TASK_RESUME
        then let (status, s) = kernel_task_resume r0 s
             in request_switch (set_r0 stacked_frame (status_code status) s)
        else s\<lparr>g_svc_invalid_service := g_svc_invalid_service s + 1\<rparr>)"

section \<open>SysTick\<close>

text \<open>The test hook is application code behind the pointer \<open>hook\<close>: a parameter.\<close>

definition SysTick_Handler :: "(addr \<Rightarrow> kstate \<Rightarrow> kstate) \<Rightarrow> kstate \<Rightarrow> kstate halting option" where
  "SysTick_Handler run_hook s =
    (let hooks = JRT_ENABLE_TEST_HOOKS (cfg s) \<noteq> 0;
         hook = tick_hook s
     in case tick_tasks s of
          None \<Rightarrow> None
        | Some (Inl s) \<Rightarrow> Some (Inl s)
        | Some (Inr s) \<Rightarrow>
            (let s = (if hooks \<and> hook \<noteq> NULL then run_hook hook s else s)
             in Some (Inr (request_switch s))))"

section \<open>The register context\<close>

text \<open>
  What a switch saves in software: the process stack pointer after the hardware frame, r4 to r11,
  \<open>EXC_RETURN\<close> and, for a task that has used the FPU, s16 to s31.
\<close>

record context_regs =
  x_psp :: addr
  x_lr :: u32
  x_r4_r11 :: "u32 list"
  x_s16_s31 :: "u32 list"

fun store_words :: "addr \<Rightarrow> u32 list \<Rightarrow> (addr \<Rightarrow> u32) \<Rightarrow> addr \<Rightarrow> u32" where
  "store_words a [] m = m"
| "store_words a (w # ws) m = store_words (a + 4) ws (m(a := w))"

fun load_words :: "addr \<Rightarrow> nat \<Rightarrow> (addr \<Rightarrow> u32) \<Rightarrow> u32 list" where
  "load_words a 0 m = []"
| "load_words a (Suc n) m = m a # load_words (a + 4) n m"

text \<open>A frame with floating-point state has bit 4 of \<open>EXC_RETURN\<close> clear.\<close>

definition fp_frame :: "jrt_config \<Rightarrow> u32 \<Rightarrow> bool" where
  "fp_frame c lr \<longleftrightarrow> JRT_ARCH_FPU_CONTEXT c \<noteq> 0 \<and> lr AND 0x10 = 0"

definition save_context :: "jrt_config \<Rightarrow> context_regs \<Rightarrow> (addr \<Rightarrow> u32) \<Rightarrow> addr \<times> (addr \<Rightarrow> u32)" where
  "save_context c regs m =
    (let r0 = x_psp regs;
         (r0, m) = (if fp_frame c (x_lr regs) then (r0 - 64, store_words (r0 - 64) (x_s16_s31 regs) m) else (r0, m));
         (r0, m) = (r0 - 32, store_words (r0 - 32) (x_r4_r11 regs) m)
     in (r0 - 4, m(r0 - 4 := x_lr regs)))"

text \<open>\<open>arch_restore_task_context\<close>\<close>

definition restore_context :: "jrt_config \<Rightarrow> addr \<Rightarrow> (addr \<Rightarrow> u32) \<Rightarrow> context_regs \<Rightarrow> context_regs" where
  "restore_context c sp m regs =
    (let r2 = m sp;
         r0 = sp + 4;
         regs = regs\<lparr>x_lr := r2, x_r4_r11 := load_words r0 8 m\<rparr>;
         r0 = r0 + 32;
         (r0, regs) = (if fp_frame c r2 then (r0 + 64, regs\<lparr>x_s16_s31 := load_words r0 16 m\<rparr>) else (r0, regs))
     in regs\<lparr>x_psp := r0\<rparr>)"

section \<open>PendSV\<close>

text \<open>
  The result is the registers the handler returns with, the value written to CONTROL and the state.
  Taking the exception clears its pending bit.
\<close>

definition PendSV_Handler :: "context_regs \<Rightarrow> kstate \<Rightarrow> (context_regs \<times> u32 \<times> kstate) halting" where
  "PendSV_Handler regs s =
    (let s = s\<lparr>pendsv_pending := False\<rparr>;
         (r0, m) = save_context (cfg s) regs (mem32 s);
         s = s\<lparr>mem32 := m\<rparr>
     in case pendsv_switch r0 s of
          Inl s \<Rightarrow> Inl s
        | Inr (r4, s) \<Rightarrow>
            (let r1 = task_current_control s;
                 regs = restore_context (cfg s) r4 (mem32 s) regs;
                 r1 = (if fp_frame (cfg s) (x_lr regs) then r1 OR 4 else r1)
             in Inr (regs, r1, s)))"

text \<open>The first task is started by SVC 0 from the main stack (\<open>SVC_Handler\<close>).\<close>

definition start_first_task :: "context_regs \<Rightarrow> kstate \<Rightarrow> context_regs \<times> u32 \<times> kstate" where
  "start_first_task regs s =
    (let s = arch_tick_start s;
         r4 = task_current_sp s;
         r1 = task_current_control s;
         regs = restore_context (cfg s) r4 (mem32 s) regs;
         r1 = (if fp_frame (cfg s) (x_lr regs) then r1 OR 4 else r1)
     in (regs, r1, s))"

section \<open>What a switch leaves alone\<close>

definition still where
  "still s = (cfg s, (mem32 s, mem8 s), (mutexes s, mutex_list s, semaphores s, queues s, event_groups s, timers s, timer_list s, pools s),
     timer_service_task_index s, g_kernel_ticks s, application_task_count s, kernel_initialized s, kernel_started s)"

lemma still_account: "pendsv_account sp s = Inr t \<Longrightarrow> still t = still s"
  by (auto simp: pendsv_account_def update_stack_usage_def set_task_def kernel_fatal_def still_def Let_def
      split: if_splits sum.splits)

lemma still_count: "still (pendsv_count b sel s) = still s"
  by (simp add: pendsv_count_def still_def Let_def split: option.splits prod.splits)

lemma still_private_data: "arch_set_task_private_data b n s = Inr t \<Longrightarrow> still t = still s"
  by (auto simp: arch_set_task_private_data_def program_private_region_def write_region_def still_def
      split: sum.splits if_splits option.splits)

lemma still_stack_guard: "still (arch_set_task_stack_guard g s) = still s"
  by (simp add: arch_set_task_stack_guard_def write_region_def still_def Let_def)

lemma still_dispatch: "pendsv_dispatch s = Inr t \<Longrightarrow> still t = still s"
proof -
  let ?i = "g_current_task_index s"
  let ?u = "task_benchmark_start_locked ?i (set_task ?i ((tasks s ?i)\<lparr>t_state := JRT_TASK_STATE_RUNNING\<rparr>) (s\<lparr>current_task := ?i\<rparr>))"
  assume "pendsv_dispatch s = Inr t"
  then obtain v where v: "arch_set_task_private_data (t_private_data_base (tasks ?u ?i)) (t_private_data_size (tasks ?u ?i)) ?u = Inr v"
    "t = arch_set_task_stack_guard (task_stack_guard (tasks v ?i)) v"
    by (auto simp: pendsv_dispatch_def Let_def set_task_def split: sum.splits)
  have "still ?u = still s" by (simp add: start_frame set_task_def still_def)
  with v show ?thesis using still_private_data [OF v(1)] still_stack_guard by simp
qed

lemma pendsv_switch_still:
  assumes "pendsv_switch sp s = Inr (r, t)" shows "still t = still s"
proof -
  obtain u v where uv: "pendsv_account sp (cs_enter s) = Inr u"
    "pendsv_dispatch (pendsv_count (g_current_task_index s) (pendsv_select (task_count u) (g_current_task_index s) (tasks u)) u) = Inr v"
    "t = arch_critical_exit (primask s) v"
    using assms by (auto simp: pendsv_switch_def arch_critical_enter_eq Let_def split: sum.splits)
  have "still (cs_enter s) = still s" by (simp add: cs_enter_def still_def)
  moreover have "still t = still v" by (simp add: uv(3) arch_critical_exit_eq still_def)
  ultimately show ?thesis using still_account [OF uv(1)] still_dispatch [OF uv(2)] still_count by simp
qed

section \<open>Saved contexts\<close>

lemma load_store_other:
  assumes "\<And>i. i < length ws \<Longrightarrow> b \<noteq> a + 4 * word_of_nat i"
  shows "store_words a ws m b = m b"
  using assms
proof (induction ws arbitrary: a m)
  case (Cons w ws)
  have "b \<noteq> a + 4 + 4 * word_of_nat i" if "i < length ws" for i
    using Cons.prems [of "Suc i"] that by (simp add: algebra_simps)
  moreover have "b \<noteq> a" using Cons.prems [of 0] by simp
  ultimately show ?case using Cons.IH [of "a + 4"] by simp
qed simp

lemma word_step: "i < 1000000 \<Longrightarrow> (4 + 4 * word_of_nat i :: u32) \<noteq> 0"
proof -
  assume "i < 1000000"
  then have "unat (word_of_nat (4 + 4 * i) :: u32) = 4 + 4 * i" by (intro unat_of_nat32) simp
  then show ?thesis by (auto simp: word_eq_unat)
qed

lemma load_store: "length ws \<le> 1000000 \<Longrightarrow> load_words a (length ws) (store_words a ws m) = ws"
proof (induction ws arbitrary: a m)
  case (Cons w ws)
  have "a \<noteq> a + 4 + 4 * word_of_nat i" if "i < length ws" for i
    using word_step [of i] that Cons.prems by (simp add: add.assoc)
  then have "store_words (a + 4) ws (m(a := w)) a = w" using load_store_other [of ws a "a + 4" "m(a := w)"] by simp
  with Cons show ?case by simp
qed simp

lemma load_cong:
  assumes "\<And>i. i < n \<Longrightarrow> m' (a + 4 * word_of_nat i) = m (a + 4 * word_of_nat i)"
  shows "load_words a n m' = load_words a n m"
  using assms
proof (induction n arbitrary: a)
  case (Suc n)
  have "m' (a + 4 + 4 * word_of_nat i) = m (a + 4 + 4 * word_of_nat i)" if "i < n" for i
    using Suc.prems [of "Suc i"] that by (simp add: algebra_simps)
  moreover have "m' a = m a" using Suc.prems [of 0] by simp
  ultimately show ?case using Suc.IH [of "a + 4"] by simp
qed simp

text \<open>The words a saved context occupies above its stack pointer: 9, or 25 with the FPU registers.\<close>

definition context_words :: "jrt_config \<Rightarrow> context_regs \<Rightarrow> nat" where
  "context_words c regs = (if fp_frame c (x_lr regs) then 25 else 9)"

definition context_regs_ok :: "context_regs \<Rightarrow> bool" where
  "context_regs_ok regs \<longleftrightarrow> length (x_r4_r11 regs) = 8 \<and> length (x_s16_s31 regs) = 16"

lemma save_context_sp:
  "fst (save_context c regs m) = x_psp regs - 4 * word_of_nat (context_words c regs)"
  by (simp add: save_context_def context_words_def Let_def)

lemma restore_saved:
  assumes ok: "context_regs_ok regs" and save: "save_context c regs m = (sp, m1)"
    and same: "\<And>i. i < context_words c regs \<Longrightarrow> m2 (sp + 4 * word_of_nat i) = m1 (sp + 4 * word_of_nat i)"
  shows "restore_context c sp m2 other = (if fp_frame c (x_lr regs) then regs else regs\<lparr>x_s16_s31 := x_s16_s31 other\<rparr>)"
proof -
  let ?p = "x_psp regs" and ?fp = "fp_frame c (x_lr regs)"
  have len: "length (x_r4_r11 regs) = 8" "length (x_s16_s31 regs) = 16" using ok by (simp_all add: context_regs_ok_def)
  have lr: "m2 sp = m1 sp" using same [of 0] by (simp add: context_words_def split: if_splits)
  have r: "load_words (sp + 4) 8 m2 = load_words (sp + 4) 8 m1"
  proof (rule load_cong)
    fix i :: nat assume "i < 8"
    then show "m2 (sp + 4 + 4 * word_of_nat i) = m1 (sp + 4 + 4 * word_of_nat i)"
      using same [of "Suc i"] by (simp add: context_words_def algebra_simps split: if_splits)
  qed
  show ?thesis
  proof (cases ?fp)
    case False
    then have eq: "sp = ?p - 36" "m1 = (store_words (?p - 32) (x_r4_r11 regs) m)(?p - 36 := x_lr regs)"
      using save by (auto simp: save_context_def Let_def)
    have off: "?p - 32 + 4 * word_of_nat i \<noteq> ?p - 36" if "i < 8" for i :: nat
      using word_step [of i] that by (auto simp: algebra_simps)
    have "load_words (?p - 32) 8 m1 = load_words (?p - 32) 8 (store_words (?p - 32) (x_r4_r11 regs) m)"
      by (rule load_cong) (use off in \<open>simp add: eq(2)\<close>)
    also have "\<dots> = x_r4_r11 regs" using load_store [of "x_r4_r11 regs"] len by simp
    finally have "load_words (sp + 4) 8 m2 = x_r4_r11 regs" using r by (simp add: eq(1))
    moreover have "m2 sp = x_lr regs" using lr by (simp add: eq)
    ultimately show ?thesis using False by (simp add: restore_context_def Let_def eq(1))
  next
    case True
    define m0 where "m0 = store_words (?p - 64) (x_s16_s31 regs) m"
    have eq: "sp = ?p - 100" "m1 = (store_words (?p - 96) (x_r4_r11 regs) m0)(?p - 100 := x_lr regs)"
      using save True by (auto simp: save_context_def m0_def Let_def)
    have far: "?p - 96 + 4 * word_of_nat i \<noteq> ?p - 100" if "i < 24" for i :: nat
      using word_step [of i] that by (auto simp: algebra_simps)
    have fp: "load_words (sp + 36) 16 m2 = load_words (sp + 36) 16 m1"
    proof (rule load_cong)
      fix i :: nat assume "i < 16"
      then show "m2 (sp + 36 + 4 * word_of_nat i) = m1 (sp + 36 + 4 * word_of_nat i)"
        using same [of "9 + i"] True by (simp add: context_words_def algebra_simps)
    qed
    have "load_words (?p - 96) 8 m1 = load_words (?p - 96) 8 (store_words (?p - 96) (x_r4_r11 regs) m0)"
      by (rule load_cong) (use far in \<open>simp add: eq(2)\<close>)
    also have "\<dots> = x_r4_r11 regs" using load_store [of "x_r4_r11 regs"] len by simp
    finally have regs: "load_words (sp + 4) 8 m2 = x_r4_r11 regs" using r by (simp add: eq(1))
    have above: "m1 (?p - 64 + 4 * word_of_nat i) = m0 (?p - 64 + 4 * word_of_nat i)" if i: "i < 16" for i :: nat
    proof -
      have "?p - 64 + 4 * word_of_nat i \<noteq> ?p - 100" using far [of "8 + i"] i by (simp add: algebra_simps)
      moreover have "?p - 64 + 4 * word_of_nat i \<noteq> ?p - 96 + 4 * word_of_nat j" if "j < length (x_r4_r11 regs)" for j
      proof -
        have "unat (word_of_nat (32 + 4 * i - 4 * j) :: u32) = 32 + 4 * i - 4 * j" using i by (intro unat_of_nat32) simp
        then have "(word_of_nat (32 + 4 * i - 4 * j) :: u32) \<noteq> 0" using that len i by (auto simp: word_eq_unat)
        then show ?thesis using that len i by (auto simp: algebra_simps of_nat_diff)
      qed
      ultimately show ?thesis using load_store_other [of "x_r4_r11 regs"] by (simp add: eq(2))
    qed
    have "load_words (?p - 64) 16 m1 = load_words (?p - 64) 16 m0" by (rule load_cong) (rule above)
    also have "\<dots> = x_s16_s31 regs" using load_store [of "x_s16_s31 regs"] len by (simp add: m0_def)
    finally have "load_words (sp + 36) 16 m2 = x_s16_s31 regs" using fp by (simp add: eq(1))
    moreover have "m2 sp = x_lr regs" using lr by (simp add: eq)
    ultimately show ?thesis using True regs by (simp add: restore_context_def Let_def eq(1))
  qed
qed

text \<open>C13: no register is lost by a switch: the PendSV handler saves the context of the outgoing task in
  exactly the words above its new stack pointer, so that restoring from there, at any later time at
  which those words are unchanged, gives back the same r4 to r11, \<open>EXC_RETURN\<close> and process stack pointer,
  and s16 to s31 if the task has used the FPU; it returns with the context found at the incoming
  task's stack pointer and with that task's privilege, and a task that continues keeps its registers.\<close>

theorem context_switch_roundtrip:
  assumes "scheduler_inv s" and "candidates s \<noteq> {}" and "context_regs_ok regs"
    and "stack_pointer_ok (tasks s (current_task s)) (x_psp regs - 4 * word_of_nat (context_words (cfg s) regs))"
  shows "\<exists>regs' control t. PendSV_Handler regs s = Inr (regs', control, t)
    \<and> regs' = restore_context (cfg s) (t_sp (tasks t (current_task t))) (mem32 t) regs
    \<and> (control AND 1 \<noteq> 0 \<longleftrightarrow> t_flags (tasks t (current_task t)) AND JRT_TASK_FLAG_UNPRIVILEGED \<noteq> 0)
    \<and> (\<forall>m other. (\<forall>i < context_words (cfg s) regs. m (t_sp (tasks t (current_task s)) + 4 * word_of_nat i)
              = mem32 t (t_sp (tasks t (current_task s)) + 4 * word_of_nat i))
        \<longrightarrow> restore_context (cfg s) (t_sp (tasks t (current_task s))) m other =
             (if fp_frame (cfg s) (x_lr regs) then regs else regs\<lparr>x_s16_s31 := x_s16_s31 other\<rparr>))
    \<and> (current_task t = current_task s \<longrightarrow> regs' = regs)"
proof -
  obtain sp m where save: "save_context (cfg s) regs (mem32 s) = (sp, m)" by fastforce
  have sp: "sp = x_psp regs - 4 * word_of_nat (context_words (cfg s) regs)"
    using save_context_sp [of "cfg s" regs "mem32 s"] save by simp
  let ?u = "s\<lparr>pendsv_pending := False, mem32 := m\<rparr>"
  have "scheduler_inv ?u" "candidates ?u \<noteq> {}" "stack_pointer_ok (tasks ?u (current_task ?u)) sp"
    using assms by (simp_all add: scheduler_inv_def candidates_def sp)
  from pendsv_switch_steps [OF this] obtain t mn h i ts where
    t: "pendsv_switch sp ?u = Inr (t_sp (ts i), t)" "ts = (tasks s)(current_task s := switched_out sp mn h (tasks s (current_task s)))"
      "tasks t = ts(i := running (ts i))" "current_task t = i" by auto
  have "still t = still ?u" by (rule pendsv_switch_still [OF t(1)])
  then have same: "cfg t = cfg s" "mem32 t = m" by (simp_all add: still_def)
  have tsp: "t_sp (tasks t (current_task s)) = sp" "t_sp (tasks t i) = t_sp (ts i)"
    by (auto simp: t(2,3) switched_out_def)
  let ?regs' = "restore_context (cfg s) (t_sp (ts i)) m regs"
  let ?control = "if fp_frame (cfg s) (x_lr ?regs') then task_current_control t OR 4 else task_current_control t"
  have handler: "PendSV_Handler regs s = Inr (?regs', ?control, t)"
    using save t(1) by (simp add: PendSV_Handler_def Let_def same)
  have control: "?control AND 1 \<noteq> 0 \<longleftrightarrow> t_flags (tasks t (current_task t)) AND JRT_TASK_FLAG_UNPRIVILEGED \<noteq> 0"
    by (simp add: task_current_control_def)
  have saved: "restore_context (cfg s) sp m' other = (if fp_frame (cfg s) (x_lr regs) then regs else regs\<lparr>x_s16_s31 := x_s16_s31 other\<rparr>)"
    if "\<forall>k < context_words (cfg s) regs. m' (sp + 4 * word_of_nat k) = m (sp + 4 * word_of_nat k)" for m' other
    using restore_saved [OF assms(3) save, of m'] that by blast
  have "?regs' = regs" if "i = current_task s"
    using saved [of m regs] tsp that by (simp add: t(2) switched_out_def)
  with handler control saved show ?thesis by (intro exI [of _ ?regs'] exI [of _ ?control] exI [of _ t]) (simp add: tsp t(4) same)
qed

definition some_regs :: context_regs where
  "some_regs = \<lparr>x_psp = 36, x_lr = 0xFFFFFFFD, x_r4_r11 = [4, 5, 6, 7, 8, 9, 10, 11], x_s16_s31 = replicate 16 0\<rparr>"

theorem context_switch_witness:
  "\<exists>regs' control t. PendSV_Handler some_regs running_state = Inr (regs', control, t)
    \<and> restore_context default_config (t_sp (tasks t 0)) (mem32 t) some_regs = some_regs"
proof -
  have c: "cfg running_state = default_config" "current_task running_state = 0" by (simp_all add: running_state_def reset_state_def)
  have w: "context_words default_config some_regs = 9" "\<not> fp_frame default_config (x_lr some_regs)"
    by (simp_all add: context_words_def fp_frame_def default_config_def)
  have "context_regs_ok some_regs" by (simp add: context_regs_ok_def some_regs_def)
  moreover have "stack_pointer_ok (tasks running_state 0) (x_psp some_regs - 4 * word_of_nat 9)"
    using running_state_stack by (simp add: some_regs_def c)
  ultimately show ?thesis
    using context_switch_roundtrip [of running_state some_regs, unfolded c w(1)] running_state_inv running_state_candidates w
    by auto
qed

section \<open>The supervisor-call gate\<close>

lemma suspend_frame:
  "mem32 (snd (kernel_task_suspend req s)) = mem32 s" "pendsv_pending (snd (kernel_task_suspend req s)) = pendsv_pending s"
  "primask (snd (kernel_task_suspend req s)) = primask s"
  by (simp_all add: suspend_eq Let_def set_task_def complete_frame arch_critical_exit_eq cs_enter_def)

lemma resume_frame:
  "mem32 (snd (kernel_task_resume req s)) = mem32 s" "pendsv_pending (snd (kernel_task_resume req s)) = pendsv_pending s"
  "primask (snd (kernel_task_resume req s)) = primask s"
  by (simp_all add: resume_eq Let_def set_task_def release_frame arch_critical_exit_eq cs_enter_def)


text \<open>Service 2 is \<open>JRT_TaskDelay\<close>: both put the caller to sleep and request a switch.\<close>

lemma svc_sleep_is_delay:
  assumes "exc_return AND 8 \<noteq> 0" and "exc_return AND 4 \<noteq> 0" and "svc_number frame s = SVC_SERVICE_SLEEP"
  shows "svc_dispatch frame exc_return s = JRT_TaskDelay (mem32 s frame) s"
  using assms by (simp add: svc_dispatch_def JRT_TaskDelay_def)

text \<open>A frame at \<open>0x1000\<close> whose return address follows the instruction \<open>svc 4\<close>, called on task 1 of a
  started kernel.\<close>

definition svc_state :: kstate where
  "svc_state = running_state\<lparr>kernel_initialized := 1, kernel_started := 1, application_task_count := 2,
     mem32 := (\<lambda>_. 0)(0x1000 := 1, 0x1018 := 0x8002), mem8 := (\<lambda>_. 0)(0x8000 := 4)\<rparr>"


end
