(* ===== verification/JRT_Quiet.thy ===== *)
theory JRT_Quiet
  imports JRT_Queue JRT_Mempool JRT_Tick JRT_Svc
begin

text \<open>
  What an operation may do to the rest of the kernel. A step is quiet when it leaves the scheduler's
  indices, the mutexes, the timers and all priorities alone, keeps every task record well-formed,
  makes nobody RUNNING and adds waiters only of the kinds \<open>K\<close>; only the tasks in \<open>B\<close> may stop being
  runnable or get a new wait result and only those in \<open>R\<close> may leave the suspended state. A task that
  waits for a queue is woken only by an operation whose \<open>K\<close> has the kind, a blocked task excepted
  whose time is over, and only the running task can block. The lemmas establish the relation for
  every operation on semaphores, queues, event groups, notifications, pools and task states.
\<close>

section \<open>Quiet steps\<close>

definition basis where
  "basis s = (cfg s, (task_count s, application_task_count s, current_task s, g_current_task_index s,
     timer_service_task_index s), (mutexes s, mutex_list s), (timers s, timer_list s))"

definition runnable :: "task_t \<Rightarrow> bool" where
  "runnable t \<longleftrightarrow> t_state t = JRT_TASK_STATE_READY \<or> t_state t = JRT_TASK_STATE_RUNNING"

text \<open>The record \<open>u\<close> waits for no more than the record \<open>t\<close>, kinds in \<open>K\<close> aside.\<close>

definition waits_less :: "task_wait_kind_t set \<Rightarrow> task_t \<Rightarrow> task_t \<Rightarrow> bool" where
  "waits_less K t u \<longleftrightarrow> (\<forall>ob k. k \<notin> K \<longrightarrow> waits_on ob k u \<longrightarrow> waits_on ob k t
     \<and> t_event_wait_bits u = t_event_wait_bits t \<and> t_event_wait_all u = t_event_wait_all t
     \<and> (k = TASK_WAIT_NOTIFICATION \<longrightarrow> t_notification_value u = t_notification_value t))"

text \<open>What a task that is not blocked has: it stays so, with the result of its last wait.\<close>

definition undisturbed :: "task_t \<Rightarrow> task_t \<Rightarrow> bool" where
  "undisturbed t u \<longleftrightarrow> (t_state t \<noteq> JRT_TASK_STATE_BLOCKED \<longrightarrow>
     t_state u \<noteq> JRT_TASK_STATE_BLOCKED \<and> t_wait_result u = t_wait_result t)"

definition queue_kinds :: "task_wait_kind_t set" where
  "queue_kinds = {TASK_WAIT_QUEUE_SEND, TASK_WAIT_QUEUE_RECEIVE}"

definition keeps_wait :: "task_wait_kind_t set \<Rightarrow> task_t \<Rightarrow> task_t \<Rightarrow> bool" where
  "keeps_wait K t u \<longleftrightarrow> (t_state t = JRT_TASK_STATE_RUNNING \<or> undisturbed t u)
     \<and> (\<forall>ob. \<forall>k \<in> queue_kinds - K. waits_on ob k t \<longrightarrow>
          waits_on ob k u \<or> t_state u \<noteq> JRT_TASK_STATE_BLOCKED \<and> t_wait_result u = 0)"

definition quiet_task :: "task_wait_kind_t set \<Rightarrow> task_t \<Rightarrow> task_t \<Rightarrow> bool" where
  "quiet_task K t u \<longleftrightarrow> t_priority u = t_priority t \<and> t_base_priority u = t_base_priority t
     \<and> t_private_data_size u = t_private_data_size t
     \<and> (task_invariant t = None \<longrightarrow> task_invariant u = None)
     \<and> (t_state u = JRT_TASK_STATE_RUNNING \<longrightarrow> t_state t = JRT_TASK_STATE_RUNNING)
     \<and> (\<forall>ob. waits_on ob TASK_WAIT_MUTEX t = waits_on ob TASK_WAIT_MUTEX u) \<and> waits_less K t u
     \<and> keeps_wait K t u"

definition quiet :: "task_wait_kind_t set \<Rightarrow> u32 set \<Rightarrow> u32 set \<Rightarrow> kstate \<Rightarrow> kstate \<Rightarrow> bool" where
  "quiet K B R s t \<longleftrightarrow> basis t = basis s \<and> (\<forall>i. quiet_task K (tasks s i) (tasks t i)
     \<and> (i \<notin> B \<longrightarrow> runnable (tasks s i) \<longrightarrow> runnable (tasks t i)) \<and> (i \<notin> B \<longrightarrow> undisturbed (tasks s i) (tasks t i))
     \<and> (i \<notin> R \<longrightarrow> t_state (tasks s i) = JRT_TASK_STATE_SUSPENDED \<longrightarrow> t_state (tasks t i) = JRT_TASK_STATE_SUSPENDED))"

lemma waits_less_refl [simp]: "waits_less K t t"
  by (simp add: waits_less_def)

lemma waits_less_trans: "waits_less K t u \<Longrightarrow> waits_less K u v \<Longrightarrow> waits_less K t v"
  unfolding waits_less_def by metis

lemma undisturbed_refl [simp]: "undisturbed t t"
  by (simp add: undisturbed_def)

lemma undisturbed_trans: "undisturbed t u \<Longrightarrow> undisturbed u v \<Longrightarrow> undisturbed t v"
  by (simp add: undisturbed_def)

lemma keeps_wait_refl [simp]: "keeps_wait K t t"
  by (simp add: keeps_wait_def)

lemma keeps_wait_trans:
  assumes "keeps_wait K t u" and "keeps_wait K u v" and "t_state u = JRT_TASK_STATE_RUNNING \<longrightarrow> t_state t = JRT_TASK_STATE_RUNNING"
  shows "keeps_wait K t v"
proof -
  have "waits_on ob k v \<or> t_state v \<noteq> JRT_TASK_STATE_BLOCKED \<and> t_wait_result v = 0"
    if w: "k \<in> queue_kinds - K" "waits_on ob k t" for ob k
  proof (cases "waits_on ob k u")
    case True
    then show ?thesis using assms(2) w by (simp add: keeps_wait_def)
  next
    case False
    then have "t_state u \<noteq> JRT_TASK_STATE_BLOCKED" "t_wait_result u = 0" using assms(1) w by (auto simp: keeps_wait_def)
    moreover have "t_state u \<noteq> JRT_TASK_STATE_RUNNING" using assms(3) w(2) by (auto simp: waits_on_def)
    ultimately show ?thesis using assms(2) by (simp add: keeps_wait_def undisturbed_def)
  qed
  then show ?thesis using assms undisturbed_trans [of t u v] by (auto simp: keeps_wait_def)
qed

lemma keeps_wait_mono: "keeps_wait K t u \<Longrightarrow> K \<subseteq> K' \<Longrightarrow> keeps_wait K' t u"
  by (auto simp: keeps_wait_def)

lemma quiet_task_refl [simp]: "quiet_task K t t"
  by (simp add: quiet_task_def)

lemma quiet_task_trans:
  assumes "quiet_task K t u" and "quiet_task K u v" shows "quiet_task K t v"
proof -
  have "waits_less K t v" "keeps_wait K t v"
    using assms unfolding quiet_task_def by (blast intro: waits_less_trans, blast intro: keeps_wait_trans)
  then show ?thesis using assms by (simp add: quiet_task_def)
qed

lemma quiet_refl [simp]: "quiet K B R s s"
  by (simp add: quiet_def)

lemma quiet_trans [trans]: "quiet K B R s t \<Longrightarrow> quiet K B R t u \<Longrightarrow> quiet K B R s u"
  unfolding quiet_def by (auto intro: quiet_task_trans undisturbed_trans)

lemma quiet_same: "basis t = basis s \<Longrightarrow> tasks t = tasks s \<Longrightarrow> quiet K B R s t"
  by (simp add: quiet_def)

text \<open>Changes of bookkeeping do not count.\<close>

lemma quiet_cong:
  "basis s' = basis s \<Longrightarrow> tasks s' = tasks s \<Longrightarrow> basis t' = basis t \<Longrightarrow> tasks t' = tasks t \<Longrightarrow>
     quiet K B R s' t' = quiet K B R s t"
  by (simp add: quiet_def)

lemma quiet_update:
  assumes "basis t = basis s" and "tasks t = (tasks s)(i := u)" and "quiet_task K (tasks s i) u"
    and "i \<notin> B \<Longrightarrow> runnable (tasks s i) \<Longrightarrow> runnable u" and "i \<notin> B \<Longrightarrow> undisturbed (tasks s i) u"
    and "i \<notin> R \<Longrightarrow> t_state (tasks s i) = JRT_TASK_STATE_SUSPENDED \<Longrightarrow> t_state u = JRT_TASK_STATE_SUSPENDED"
  shows "quiet K B R s t"
  using assms by (simp add: quiet_def)

section \<open>Waking and blocking\<close>

lemma awake_private [simp]: "t_private_data_size (awake r t) = t_private_data_size t"
  by (simp add: awake_def)

lemma blocked_private [simp]: "t_private_data_size (blocked_on ob k d t) = t_private_data_size t"
  by (simp add: blocked_on_def)

lemma quiet_task_awake:
  "t_state t = JRT_TASK_STATE_BLOCKED \<Longrightarrow> t_wait_kind t \<noteq> TASK_WAIT_MUTEX \<Longrightarrow> t_wait_kind t \<notin> queue_kinds - K \<Longrightarrow>
     quiet_task K t (awake r t)"
  by (auto simp: quiet_task_def waits_less_def waits_on_def task_invariant_awake keeps_wait_def undisturbed_def)

lemma quiet_woken:
  assumes "basis t = basis s" and "tasks t = woken_tasks ob k s" and "k \<noteq> TASK_WAIT_MUTEX"
    and "k \<notin> queue_kinds - K"
  shows "quiet K B R s t"
proof (cases "kernel_waiters ob k s = {}")
  case True
  with assms show ?thesis by (simp add: quiet_same woken_tasks_def)
next
  case False
  let ?i = "best_waiter ob k s"
  have w: "t_state (tasks s ?i) = JRT_TASK_STATE_BLOCKED" "t_wait_kind (tasks s ?i) = k"
    using best_waiter_in [OF False] by (simp_all add: kernel_waiters_def waiters_def waits_on_def)
  show ?thesis
  proof (rule quiet_update [OF assms(1)])
    show "tasks t = (tasks s)(?i := awake 1 (tasks s ?i))" using False assms(2) by (simp add: woken_tasks_def)
    show "quiet_task K (tasks s ?i) (awake 1 (tasks s ?i))" using w assms(3,4) by (simp add: quiet_task_awake)
  qed (use w in \<open>simp_all add: runnable_def undisturbed_def\<close>)
qed

lemma quiet_task_blocked:
  assumes "t_state t = JRT_TASK_STATE_RUNNING" and "ob \<noteq> NULL" and "k \<in> K" "k \<noteq> TASK_WAIT_NONE" "k \<noteq> TASK_WAIT_MUTEX"
    and "t_priority u = t_priority t" "t_base_priority u = t_base_priority t"
      "t_private_data_size u = t_private_data_size t"
  shows "quiet_task K t (blocked_on ob k d u)"
  using assms wait_kind_max [of k]
  by (auto simp: quiet_task_def waits_less_def waits_on_def task_invariant_def blocked_on_def keeps_wait_def not_less)

lemma quiet_blocked:
  assumes "basis t = basis s" and "tasks t = (tasks s)(i := blocked_on ob k d (f (tasks s i)))"
    and "t_state (tasks s i) = JRT_TASK_STATE_RUNNING" and "ob \<noteq> NULL" and "k \<in> K" "k \<noteq> TASK_WAIT_NONE" "k \<noteq> TASK_WAIT_MUTEX"
    and "t_priority (f (tasks s i)) = t_priority (tasks s i)" "t_base_priority (f (tasks s i)) = t_base_priority (tasks s i)"
      "t_private_data_size (f (tasks s i)) = t_private_data_size (tasks s i)" and "i \<in> B"
  shows "quiet K B R s t"
  by (rule quiet_update [OF assms(1,2) quiet_task_blocked]) (use assms in simp_all)

section \<open>The building blocks\<close>

lemma basis_simps [simp]:
  "basis (cs_enter s) = basis s" "basis (arch_critical_exit p s) = basis s" "basis (arch_request_switch s) = basis s"
  "basis (request_switch s) = basis s" "basis (arch_yield s) = basis s" "basis (cs_done s) = basis s"
  "basis (set_semaphore sem v s) = basis s" "basis (set_queue queue q s) = basis s"
  "basis (set_event_bits g b s) = basis s" "basis (set_task i task s) = basis s"
  "basis (task_benchmark_release_locked i c s) = basis s" "basis (task_benchmark_complete_locked i s) = basis s"
  "basis (task_benchmark_coalesced_locked i s) = basis s"
  "basis (task_wait_begin_until i ob k d s) = basis s" "basis (task_wait_begin i ob k n s) = basis s"
  "basis (task_wait_end i r c s) = basis s"
  by (simp_all add: basis_def request_switch_def arch_request_switch_def arch_yield_def set_semaphore_def set_queue_def
      set_event_bits_def set_task_def release_frame complete_frame coalesced_frame task_wait_begin_until_eq
      task_wait_begin_eq task_wait_end_eq arch_critical_exit_eq cs_enter_def cs_done_def)

lemma basis_wake [simp]:
  "basis (snd (task_wake_get_id ob k s)) = basis s" "basis (snd (task_wake ob k s)) = basis s"
  "basis (wake_receiver queue s) = basis s" "basis (wake_sender queue s) = basis s" "basis (give_token sem s) = basis s"
  "basis (queue_copy_in queue item r s) = basis s" "basis (queue_copy_out queue item r s) = basis s"
proof -
  show id: "basis (snd (task_wake_get_id ob k s)) = basis s" for ob k s
    by (simp add: task_wake_get_id_eq Let_def basis_def)
  show w: "basis (snd (task_wake ob k s)) = basis s" for ob k s
    by (simp add: task_wake_def case_prod_beta id)
  show "basis (wake_receiver queue s) = basis s" "basis (wake_sender queue s) = basis s"
    by (simp_all add: wake_receiver_def wake_sender_def case_prod_beta w)
  show "basis (give_token sem s) = basis s"
    by (simp add: give_token_def arch_critical_enter_eq case_prod_beta w)
  show "basis (queue_copy_in queue item r s) = basis s" "basis (queue_copy_out queue item r s) = basis s"
    by (simp_all add: queue_copy_in_def queue_copy_out_def Let_def basis_def set_queue_def)
qed

lemma tasks_same [simp]:
  "tasks (set_semaphore sem v s) = tasks s" "tasks (set_queue queue q s) = tasks s"
  "tasks (queue_copy_in queue item r s) = tasks s" "tasks (queue_copy_out queue item r s) = tasks s"
  "tasks (request_switch s) = tasks s" "tasks (arch_yield s) = tasks s"
  by (simp_all add: set_semaphore_def set_queue_def queue_copy_in_def queue_copy_out_def Let_def request_switch_def arch_yield_def)

lemma basis_updates [simp]:
  "basis (s\<lparr>g_isr_queue_send_attempted := x\<rparr>) = basis s" "basis (s\<lparr>g_isr_queue_send_accepted := x\<rparr>) = basis s"
  "basis (s\<lparr>g_isr_queue_send_dropped := x\<rparr>) = basis s" "basis (s\<lparr>g_isr_queue_count_high_water := x\<rparr>) = basis s"
  "basis (s\<lparr>pools := ps\<rparr>) = basis s" "basis (s\<lparr>mem32 := m32\<rparr>) = basis s" "basis (s\<lparr>mem8 := m8\<rparr>) = basis s"
  "basis (s\<lparr>benchmark_records := rs\<rparr>) = basis s" "basis (s\<lparr>ipsr := x\<rparr>) = basis s" "basis (s\<lparr>queues := qs\<rparr>) = basis s"
  "basis (s\<lparr>kernel_started := x\<rparr>) = basis s" "basis (s\<lparr>tasks := ts\<rparr>) = basis s"
  "basis (s\<lparr>g_sync_misuse_semaphore_take := x\<rparr>) = basis s"
  "basis (s\<lparr>g_sync_misuse_semaphore_give := x\<rparr>) = basis s"
  "basis (s\<lparr>g_sync_misuse_semaphore_give_from_isr := x\<rparr>) = basis s"
  "basis (s\<lparr>g_sync_misuse_mutex_lock := x\<rparr>) = basis s"
  "basis (s\<lparr>g_sync_misuse_mutex_unlock := x\<rparr>) = basis s"
  "basis (s\<lparr>g_sync_misuse_queue_send := x\<rparr>) = basis s"
  "basis (s\<lparr>g_sync_misuse_queue_receive := x\<rparr>) = basis s"
  "basis (s\<lparr>g_sync_misuse_queue_send_from_isr := x\<rparr>) = basis s"
  by (simp_all add: basis_def)

lemma quiet_simps [simp]:
  "quiet K B R s (arch_critical_exit p t) = quiet K B R s t" "quiet K B R s (arch_request_switch t) = quiet K B R s t"
  "quiet K B R s (request_switch t) = quiet K B R s t" "quiet K B R s (arch_yield t) = quiet K B R s t"
  "quiet K B R s (set_semaphore sem v t) = quiet K B R s t" "quiet K B R s (set_queue queue q t) = quiet K B R s t"
  "quiet K B R s (set_event_bits g b t) = quiet K B R s t" "quiet K B R s (cs_done t) = quiet K B R s t"
  "quiet K B R s (cs_enter t) = quiet K B R s t"
  "quiet K B R (cs_enter s) t = quiet K B R s t" "quiet K B R (cs_done s) t = quiet K B R s t"
  "quiet K B R s (queue_copy_in queue item r t) = quiet K B R s t"
  "quiet K B R s (queue_copy_out queue item r t) = quiet K B R s t"
  by (simp_all add: quiet_def)

lemma quiet_mono:
  assumes "quiet K B R s t" and "K \<subseteq> K'" and "B \<subseteq> B'" and "R \<subseteq> R'"
  shows "quiet K' B' R' s t"
proof -
  have "waits_less K x y \<Longrightarrow> waits_less K' x y" for x y using assms(2) by (auto simp: waits_less_def)
  then have "quiet_task K x y \<Longrightarrow> quiet_task K' x y" for x y
    using keeps_wait_mono [OF _ assms(2)] by (auto simp: quiet_task_def)
  then show ?thesis using assms unfolding quiet_def by blast
qed

lemma quiet_wakes:
  "quiet queue_kinds {} {} s (wake_receiver queue s)" "quiet queue_kinds {} {} s (wake_sender queue s)"
  "quiet {} {} {} s (give_token sem s)"
  by (rule quiet_woken [where ob = queue and k = TASK_WAIT_QUEUE_RECEIVE], simp_all add: wake_receiver_fields)
    (rule quiet_woken [where ob = queue and k = TASK_WAIT_QUEUE_SEND], simp_all add: wake_sender_fields,
     rule quiet_woken [where ob = sem and k = TASK_WAIT_SEMAPHORE], simp_all add: give_token_fields queue_kinds_def)

text \<open>A blocking call of a running task.\<close>

lemma running_thread: "thread_context s \<Longrightarrow> t_state (tasks s (current_task s)) = JRT_TASK_STATE_RUNNING"
  unfolding thread_context_def by blast

lemma thread_not_isr: "thread_context s \<Longrightarrow> arch_in_isr s = 0"
  by (simp add: thread_context_def arch_in_isr_def)

lemma quiet_block_until:
  assumes "thread_context s" and "ob \<noteq> NULL" and "k \<in> K" "k \<noteq> TASK_WAIT_NONE" "k \<noteq> TASK_WAIT_MUTEX"
  shows "quiet K {current_task s} R s (snd (task_block_until_locked ob k d p (cs_enter s)))"
proof (cases "deadline_passed (g_kernel_ticks s) (dl_start d) (dl_tick d) (dl_forever d)")
  case True
  then show ?thesis by (simp add: task_block_until_locked_def)
next
  case False
  show ?thesis
  proof (rule quiet_blocked [where f = "\<lambda>t. t" and i = "current_task s", OF _ _ running_thread [OF assms(1)] assms(2-5)])
    show "basis (snd (task_block_until_locked ob k d p (cs_enter s))) = basis s"
      using False by (simp add: task_block_until_locked_def Let_def)
  qed (use False in \<open>simp_all add: task_block_until_locked_fields\<close>)
qed

section \<open>Semaphores and queues\<close>

lemma quiet_semaphore_create: "quiet {} {} {} s (JRT_SemaphoreCreateBinaryStatic sem v s)"
  by (simp add: JRT_SemaphoreCreateBinaryStatic_def arch_critical_enter_eq Let_def)

lemma quiet_misuse: "basis (bump s) = basis s \<Longrightarrow> tasks (bump s) = tasks s \<Longrightarrow> quiet K B R s (count_context_misuse bump s)"
  by (rule quiet_same) (simp_all add: count_context_misuse_def Let_def basis_def)

lemma quiet_semaphore_give:
  "quiet {} {} {} s (JRT_SemaphoreGive sem s)" "quiet {} {} {} s (JRT_SemaphoreGiveFromISR sem s)"
  by (simp_all add: JRT_SemaphoreGive_def JRT_SemaphoreGiveFromISR_def quiet_wakes quiet_misuse)

lemma quiet_semaphore_take:
  assumes "thread_context s" and "sem \<noteq> NULL"
  shows "quiet {TASK_WAIT_SEMAPHORE} {current_task s} {} s (snd (semaphore_take_from sem timeout d s))"
  using quiet_block_until [OF assms, of TASK_WAIT_SEMAPHORE]
  by (simp add: semaphore_take_from_def thread_not_isr [OF assms(1)] arch_critical_enter_eq)

lemma quiet_queue_create: "quiet {} {} {} s (JRT_QueueCreateStatic queue storage capacity item_size s)"
  by (rule quiet_same) (simp_all add: JRT_QueueCreateStatic_def arch_critical_enter_eq Let_def basis_def cs_enter_def arch_critical_exit_eq)

lemma quiet_queue_pass:
  assumes "thread_context s" and "queue \<noteq> NULL"
  shows "quiet queue_kinds {current_task s} {} s (snd (queue_send_pass queue item timeout d r s))"
    and "quiet queue_kinds {current_task s} {} s (snd (queue_receive_pass queue item timeout d r s))"
proof -
  have w: "quiet queue_kinds B {} s (wake_receiver queue (queue_copy_in queue item r (cs_enter s)))"
    "quiet queue_kinds B {} s (wake_sender queue (queue_copy_out queue item r (cs_enter s)))" for B
    by (rule quiet_trans [OF _ quiet_mono [OF quiet_wakes(1)]], simp_all)
      (rule quiet_trans [OF _ quiet_mono [OF quiet_wakes(2)]], simp_all)
  show "quiet queue_kinds {current_task s} {} s (snd (queue_send_pass queue item timeout d r s))"
    using quiet_block_until [OF assms, of TASK_WAIT_QUEUE_SEND] w
    by (simp add: queue_send_pass_def arch_critical_enter_eq queue_kinds_def)
  show "quiet queue_kinds {current_task s} {} s (snd (queue_receive_pass queue item timeout d r s))"
    using quiet_block_until [OF assms, of TASK_WAIT_QUEUE_RECEIVE] w
    by (simp add: queue_receive_pass_def arch_critical_enter_eq queue_kinds_def)
qed

lemma quiet_send_from_isr: "quiet queue_kinds {} {} s (snd (JRT_QueueSendFromISR queue item s))"
proof -
  have w: "quiet queue_kinds {} {} s (wake_receiver queue v)" if "basis v = basis s" "tasks v = tasks s" for v
    using quiet_trans [OF quiet_same [OF that] quiet_wakes(1)] .
  show ?thesis
    by (simp add: JRT_QueueSendFromISR_def arch_critical_enter_eq Let_def quiet_misuse w quiet_same)
qed

section \<open>Event groups and notifications\<close>

lemma quiet_event_create: "quiet {} {} {} s (JRT_EventGroupCreateStatic g s)"
  by (simp add: JRT_EventGroupCreateStatic_def)

lemma quiet_event_step: "quiet {} {} {} s (event_wake_step g i s)"
proof (cases "event_waiter g (eg_bits (event_groups s g)) (tasks s i)")
  case True
  then have w: "t_state (tasks s i) = JRT_TASK_STATE_BLOCKED" "t_wait_kind (tasks s i) = TASK_WAIT_EVENT_GROUP"
    by (simp_all add: event_waiter_def waits_on_def)
  show ?thesis
  proof (rule quiet_update)
    show "tasks (event_wake_step g i s) = (tasks s)(i := awake 1 (tasks s i))" using True by (simp add: event_wake_step_fields)
    show "quiet_task {} (tasks s i) (awake 1 (tasks s i))" using w by (simp add: quiet_task_awake queue_kinds_def)
  qed (use w in \<open>simp_all add: runnable_def undisturbed_def event_wake_step_def\<close>)
next
  case False
  then have "event_wake_step g i s = s" unfolding event_wake_step_def event_waiter_def by (rule if_not_P)
  then show ?thesis by simp
qed

lemma quiet_set_bits_common: "quiet {} {} {} s (snd (event_group_set_bits_common g b isr s))"
proof -
  let ?u = "set_event_bits g (eg_bits (event_groups (cs_enter s) g) OR b) (cs_enter s)"
  have "quiet {} {} {} ?u (for_upto n (event_wake_step g) ?u)" for n
    by (rule for_upto_invariant) (auto intro: quiet_trans quiet_event_step)
  then have "quiet {} {} {} s (for_upto n (event_wake_step g) ?u)" for n by (simp add: quiet_def)
  then show ?thesis
    by (simp add: event_group_set_bits_common_def arch_critical_enter_eq Let_def)
qed

lemma quiet_wait_bits:
  assumes "thread_context s"
  shows "quiet {TASK_WAIT_EVENT_GROUP} {current_task s} {} s (snd (JRT_EventGroupWaitBits g bits w c timeout s))"
proof (cases "g = NULL \<or> bits = 0 \<or> event_condition (eg_bits (event_groups s g)) bits (if w \<noteq> 0 then 1 else 0) \<or> timeout = 0")
  case True
  then show ?thesis by (auto simp: JRT_EventGroupWaitBits_def arch_critical_enter_eq Let_def)
next
  case False
  let ?f = "\<lambda>t. t\<lparr>t_event_wait_bits := bits, t_event_wait_all := (if w \<noteq> 0 then 1 else 0),
    t_event_clear_on_exit := (if c \<noteq> 0 then 1 else 0)\<rparr>"
  let ?d = "make_deadline (g_kernel_ticks s) timeout"
  obtain r t where rt: "JRT_EventGroupWaitBits g bits w c timeout s = (r, t)" by fastforce
  have ts: "tasks t = (tasks s)(current_task s := blocked_on g TASK_WAIT_EVENT_GROUP ?d (?f (tasks s (current_task s))))"
    using wait_bits_fields [OF rt] False assms by (simp add: thread_context_def)
  have b: "basis t = basis s"
    using rt False thread_not_isr [OF assms] by (auto simp: JRT_EventGroupWaitBits_def arch_critical_enter_eq Let_def)
  show ?thesis unfolding rt snd_conv
    by (rule quiet_blocked [where f = ?f, OF b ts running_thread [OF assms]]) (use False in simp_all)
qed

lemma quiet_wait_resume: "quiet {} {} {} s (snd (event_group_wait_resume g bits s))"
  by (simp add: event_group_wait_resume_def arch_critical_enter_eq Let_def)

lemma quiet_task_notified: "quiet_task {} t (notified v t)"
proof (cases "waits_notification t")
  case True
  then show ?thesis
    by (auto simp: notified_def waits_notification_def quiet_task_def waits_less_def waits_on_def task_invariant_awake
        keeps_wait_def undisturbed_def queue_kinds_def)
next
  case False
  then show ?thesis
    by (auto simp: notified_def waits_notification_def quiet_task_def waits_less_def waits_on_def task_invariant_def
        keeps_wait_def undisturbed_def)
qed

lemma quiet_notify: "quiet {} {} {} s (snd (task_notify_common i v isr s))"
proof (cases "allowed_context isr s \<and> i < task_count s")
  case True
  show ?thesis
  proof (rule quiet_update [OF _ notify_fields(2) quiet_task_notified])
    show "basis (snd (task_notify_common i v isr s)) = basis s"
      by (simp add: task_notify_common_def arch_critical_enter_eq Let_def)
  qed (use True in \<open>simp_all add: notified_def waits_notification_def runnable_def undisturbed_def Let_def\<close>)
next
  case False
  then show ?thesis by (simp add: notify_rejected)
qed

text \<open>Updates of the running task that keep it running.\<close>

lemma quiet_running_update:
  assumes "thread_context s" and "basis t = basis s" and "tasks t = (tasks s)(current_task s := u)"
    and "t_state u = JRT_TASK_STATE_RUNNING" and "t_priority u = t_priority (tasks s (current_task s))"
      "t_base_priority u = t_base_priority (tasks s (current_task s))"
      "t_private_data_size u = t_private_data_size (tasks s (current_task s))"
      "t_wait_result u = t_wait_result (tasks s (current_task s))"
      "task_invariant (tasks s (current_task s)) = None \<longrightarrow> task_invariant u = None"
  shows "quiet {} {} {} s t"
  by (rule quiet_update [OF assms(2,3)])
    (use assms running_thread [OF assms(1)] in \<open>simp_all add: quiet_task_def waits_less_def waits_on_def runnable_def
      keeps_wait_def undisturbed_def\<close>)

lemma task_invariant_notification [simp]: "task_invariant (t\<lparr>t_notification_value := v\<rparr>) = task_invariant t"
  by (simp add: task_invariant_def)

lemma quiet_notify_take:
  assumes "thread_context s" and "task_address (cfg s) (current_task s) \<noteq> NULL"
  shows "quiet {TASK_WAIT_NOTIFICATION} {current_task s} {} s (snd (JRT_TaskNotifyTake p timeout s))"
proof (cases "p = NULL \<or> t_notification_value (tasks s (current_task s)) = 0 \<and> timeout = 0")
  case True
  then show ?thesis by (auto simp: JRT_TaskNotifyTake_def arch_critical_enter_eq Let_def)
next
  case False
  obtain r t where rt: "JRT_TaskNotifyTake p timeout s = (r, t)" by fastforce
  have f: "if t_notification_value (tasks s (current_task s)) \<noteq> 0
    then tasks t = (tasks s)(current_task s := (tasks s (current_task s))\<lparr>t_notification_value := 0\<rparr>)
    else tasks t = (tasks s)(current_task s := blocked_on (task_address (cfg s) (current_task s))
       TASK_WAIT_NOTIFICATION (make_deadline (g_kernel_ticks s) timeout) (tasks s (current_task s)))"
    using take_fields [OF rt] False assms(1) by (auto simp: thread_context_def)
  have b: "basis t = basis s"
    using rt False thread_not_isr [OF assms(1)]
    by (auto simp: JRT_TaskNotifyTake_def arch_critical_enter_eq Let_def split: if_splits)
  show ?thesis
  proof (cases "t_notification_value (tasks s (current_task s)) = 0")
    case True
    with f have "tasks t = (tasks s)(current_task s := blocked_on (task_address (cfg s) (current_task s))
       TASK_WAIT_NOTIFICATION (make_deadline (g_kernel_ticks s) timeout) (tasks s (current_task s)))" by simp
    then show ?thesis unfolding rt snd_conv
      by (rule quiet_blocked [where f = "\<lambda>t. t", OF b _ running_thread [OF assms(1)] assms(2)]) simp_all
  next
    case nz: False
    then have "tasks t = (tasks s)(current_task s := (tasks s (current_task s))\<lparr>t_notification_value := 0\<rparr>)" using f by simp
    then have "quiet {} {} {} s t"
      by (rule quiet_running_update [OF assms(1) b]) (use running_thread [OF assms(1)] in simp_all)
    then show ?thesis unfolding rt snd_conv by (rule quiet_mono) simp_all
  qed
qed

lemma quiet_notify_resume:
  assumes "thread_context s"
  shows "quiet {} {} {} s (snd (task_notify_resume s))"
proof (rule quiet_running_update [OF assms _ notify_resume_fields(2)])
  show "basis (snd (task_notify_resume s)) = basis s" by (simp add: task_notify_resume_def arch_critical_enter_eq Let_def)
qed (use running_thread [OF assms] in \<open>simp_all\<close>)

section \<open>Task services, pools and measurements\<close>

lemma quiet_delay:
  assumes "thread_context s"
  shows "quiet {} {current_task s} {} s (JRT_TaskDelay n s)"
proof (rule quiet_update [OF _ delay_fields(1)])
  show "basis (JRT_TaskDelay n s) = basis s"
    by (simp add: JRT_TaskDelay_def sleep_current_def arch_critical_enter_eq Let_def)
qed (use running_thread [OF assms] in \<open>auto simp: quiet_task_def waits_less_def waits_on_def task_invariant_def keeps_wait_def\<close>)

lemma quiet_suspend:
  fixes req :: u32 and s :: kstate
  defines "i \<equiv> (if req = JRT_TASK_ID_SELF then g_current_task_index s else req)"
  shows "quiet {} {j. j = i \<and> j < application_task_count s} {} s (snd (kernel_task_suspend req s))"
proof -
  have "quiet {} {j. j = i \<and> j < application_task_count s} {} s (set_task i ((tasks s i)\<lparr>t_state := JRT_TASK_STATE_SUSPENDED\<rparr>) u)"
    if "runnable (tasks s i)" "i < application_task_count s" "basis u = basis s" "tasks u = tasks s" for u
    by (rule quiet_update [where i = i and u = "(tasks s i)\<lparr>t_state := JRT_TASK_STATE_SUSPENDED\<rparr>"])
      (use that in \<open>auto simp: set_task_def quiet_task_def waits_less_def waits_on_def task_invariant_def runnable_def
        keeps_wait_def undisturbed_def\<close>)
  then show ?thesis
    by (auto simp: suspend_eq i_def [symmetric] Let_def runnable_def not_le complete_frame)
qed

lemma quiet_resume: "quiet {} {} {req} s (snd (kernel_task_resume req s))"
proof -
  have "quiet {} {} {req} s (set_task req ((tasks s req)\<lparr>t_state := JRT_TASK_STATE_READY\<rparr>) u)"
    if "t_state (tasks s req) = JRT_TASK_STATE_SUSPENDED" "basis u = basis s" "tasks u = tasks s" for u
    by (rule quiet_update [where i = req and u = "(tasks s req)\<lparr>t_state := JRT_TASK_STATE_READY\<rparr>"])
      (use that in \<open>auto simp: set_task_def quiet_task_def waits_less_def waits_on_def task_invariant_def runnable_def
        keeps_wait_def undisturbed_def\<close>)
  then show ?thesis
    by (simp add: resume_eq release_frame)
qed

lemma quiet_pools:
  "quiet {} {} {} s (JRT_MemoryPoolCreateStatic pool storage block_size block_count bitmap s)"
  "quiet {} {} {} s (snd (JRT_MemoryPoolAllocate pool s))"
  "quiet {} {} {} s (snd (JRT_MemoryPoolFree pool block s))"
proof -
  have m: "quiet {} {} {} s (t\<lparr>mem32 := m\<rparr>) = quiet {} {} {} s t" "quiet {} {} {} s (t\<lparr>pools := ps\<rparr>) = quiet {} {} {} s t"
    for t :: kstate and m ps by (simp_all add: quiet_def)
  show "quiet {} {} {} s (JRT_MemoryPoolCreateStatic pool storage block_size block_count bitmap s)"
    by (simp add: JRT_MemoryPoolCreateStatic_def m)
  show "quiet {} {} {} s (snd (JRT_MemoryPoolAllocate pool s))"
    by (simp add: JRT_MemoryPoolAllocate_def arch_critical_enter_eq Let_def m split: option.splits)
  show "quiet {} {} {} s (snd (JRT_MemoryPoolFree pool block s))"
    by (simp add: JRT_MemoryPoolFree_def arch_critical_enter_eq Let_def m)
qed

lemma quiet_benchmark_reset: "quiet {} {} {} s (snd (JRT_BenchmarkReset s))"
proof -
  have r: "quiet {} {} {} s (set_record i r t) = quiet {} {} {} s t" for i r t by (simp add: set_record_def quiet_def)
  have "quiet {} {} {} s (for_upto n (\<lambda>i s. set_record i (f s i) s) (cs_enter s))" for n f
    by (rule for_upto_invariant [where P = "quiet {} {} {} s"]) (simp_all add: r)
  then show ?thesis by (simp add: JRT_BenchmarkReset_def arch_critical_enter_eq Let_def)
qed

lemma quiet_environment: "quiet {} {} {} s (s\<lparr>ipsr := e\<rparr>)" "quiet {} {} {} s (s\<lparr>mem32 := m32, mem8 := m8\<rparr>)"
  by (simp_all add: quiet_def)

end
