(* ===== verification/JRT_Init.thy ===== *)
theory JRT_Init
  imports JRT_Scheduler JRT_Tick
begin

text \<open>
  Kernel initialisation (\<open>kernel/task.c\<close>): the validation of the application's configuration, the
  preparation of the task table and of the stacks, \<open>JRT_KernelInit\<close> and \<open>JRT_KernelStart\<close>. The
  configuration is accepted exactly when it satisfies a declarative specification, an accepted one
  keeps every stack and every private region apart, and the kernel it leads to satisfies the
  invariants of the scheduler and of the tick.
\<close>

section \<open>Validation\<close>

definition stack_start :: "JRT_TaskDefinition_t \<Rightarrow> addr" where
  "stack_start d = d_stack_guard d"

definition stack_end :: "JRT_TaskDefinition_t \<Rightarrow> addr" where
  "stack_end d = d_stack_buffer d + d_stack_words d * 4"

text \<open>The test of the loop over the previous tasks.\<close>

definition stack_conflict :: "JRT_TaskDefinition_t \<Rightarrow> JRT_TaskDefinition_t \<Rightarrow> bool" where
  "stack_conflict d other \<longleftrightarrow> stack_start d < stack_end other \<and> stack_start other < stack_end d"

definition validate_task_stack :: "jrt_config \<Rightarrow> JRT_KernelConfig_t \<Rightarrow> u32 \<Rightarrow> JRT_Status_t" where
  "validate_task_stack c config index =
    (let d = k_tasks config index;
         guard = d_stack_guard d;
         stack = d_stack_buffer d
     in if stack = NULL \<or> guard = NULL
          \<or> d_stack_words d < JRT_MINIMUM_TASK_STACK_WORDS c
          \<or> d_stack_words d AND 1 \<noteq> 0
          \<or> stack AND 7 \<noteq> 0 \<or> guard AND 0x1F \<noteq> 0
          \<or> guard + JRT_TASK_GUARD_WORDS * 4 \<noteq> stack
          \<or> d_stack_words d > UINT32_MAX div 4
        then JRT_STATUS_INVALID_STACK
        else if stack_end d < stack then JRT_STATUS_INVALID_STACK
        else if list_ex (\<lambda>previous. stack_conflict d (k_tasks config previous)) (indices index)
        then JRT_STATUS_INVALID_STACK
        else JRT_STATUS_OK)"

definition ranges_overlap :: "addr \<Rightarrow> addr \<Rightarrow> addr \<Rightarrow> addr \<Rightarrow> int" where
  "ranges_overlap first_start first_end second_start second_end =
    (if first_start < second_end \<and> second_start < first_end then 1 else 0)"

definition private_end :: "JRT_TaskDefinition_t \<Rightarrow> addr" where
  "private_end d = d_private_data_base d + d_private_data_size d"

text \<open>The body of the loop over the other tasks: the region meets a stack, or an earlier region.\<close>

definition private_conflict :: "JRT_KernelConfig_t \<Rightarrow> u32 \<Rightarrow> u32 \<Rightarrow> bool" where
  "private_conflict config index other_index =
    (let d = k_tasks config index;
         other = k_tasks config other_index
     in if ranges_overlap (d_private_data_base d) (private_end d) (stack_start other) (stack_end other) \<noteq> 0
        then True
        else other_index < index \<and> d_private_data_base other \<noteq> NULL
          \<and> ranges_overlap (d_private_data_base d) (private_end d)
              (d_private_data_base other) (private_end other) \<noteq> 0)"

definition internal_stack :: "addr \<Rightarrow> addr" where
  "internal_stack storage = storage + 4 * JRT_TASK_GUARD_WORDS"

definition validate_private_region :: "jrt_config \<Rightarrow> JRT_KernelConfig_t \<Rightarrow> u32 \<Rightarrow> JRT_Status_t" where
  "validate_private_region c config index =
    (let d = k_tasks config index;
         base = d_private_data_base d;
         bytes = d_private_data_size d;
         end_addr = base + bytes
     in if base = 0 \<and> bytes = 0 then JRT_STATUS_OK
        else if base = 0 \<or> bytes < 32 \<or> bytes AND (bytes - 1) \<noteq> 0 \<or> base AND (bytes - 1) \<noteq> 0
            \<or> d_flags d AND JRT_TASK_FLAG_UNPRIVILEGED = 0
        then JRT_STATUS_INVALID_MEMORY_REGION
        else if end_addr < base \<or> base < ld_task_private_data_start c
            \<or> end_addr > ld_task_private_data_end c
        then JRT_STATUS_INVALID_MEMORY_REGION
        else if list_ex (private_conflict config index) (indices (k_task_count config))
        then JRT_STATUS_INVALID_MEMORY_REGION
        else if ranges_overlap base end_addr (ld_timer_service_task_storage c)
               (internal_stack (ld_timer_service_task_storage c) + 4 * JRT_TIMER_SERVICE_STACK_WORDS c) \<noteq> 0
            \<or> ranges_overlap base end_addr (ld_idle_task_storage c)
               (internal_stack (ld_idle_task_storage c) + 4 * JRT_IDLE_STACK_WORDS c) \<noteq> 0
        then JRT_STATUS_INVALID_MEMORY_REGION
        else JRT_STATUS_OK)"

text \<open>The two validation loops of \<open>JRT_KernelInit\<close>.\<close>

fun validate_tasks :: "jrt_config \<Rightarrow> JRT_KernelConfig_t \<Rightarrow> u32 list \<Rightarrow> JRT_Status_t" where
  "validate_tasks c config [] = JRT_STATUS_OK"
| "validate_tasks c config (index # rest) =
    (let d = k_tasks config index
     in if d_entry d = NULL then JRT_STATUS_INVALID_ENTRY
        else if d_priority d > JRT_MAX_TASK_PRIORITY c then JRT_STATUS_INVALID_PRIORITY
        else if validate_task_stack c config index \<noteq> JRT_STATUS_OK then JRT_STATUS_INVALID_STACK
        else validate_tasks c config rest)"

fun validate_regions :: "jrt_config \<Rightarrow> JRT_KernelConfig_t \<Rightarrow> u32 list \<Rightarrow> JRT_Status_t" where
  "validate_regions c config [] = JRT_STATUS_OK"
| "validate_regions c config (index # rest) =
    (if validate_private_region c config index \<noteq> JRT_STATUS_OK then JRT_STATUS_INVALID_MEMORY_REGION
     else validate_regions c config rest)"

section \<open>Preparing the tasks\<close>

definition prepare_task :: "u32 \<Rightarrow> JRT_TaskDefinition_t \<Rightarrow> kstate \<Rightarrow> kstate" where
  "prepare_task index d s =
    (let stack_bottom = d_stack_buffer d;
         stack_top = stack_bottom + 4 * d_stack_words d;
         s = fill_stack stack_bottom stack_top s;
         s = set_task index ((tasks s index)\<lparr>t_stack_bottom := stack_bottom, t_stack_top := stack_top\<rparr>) s;
         (sp, s) = arch_build_initial_stack stack_top (d_entry d) (d_argument d) s;
         s = set_task index ((tasks s index)\<lparr>t_sp := sp, t_state := JRT_TASK_STATE_READY,
               t_minimum_sp := sp, t_high_water_words := JRT_INITIAL_STACK_USED_WORDS,
               t_entry := d_entry d, t_argument := d_argument d,
               t_priority := d_priority d, t_base_priority := d_priority d, t_name := d_name d,
               t_flags := d_flags d, t_private_data_base := d_private_data_base d,
               t_private_data_size := d_private_data_size d\<rparr>) s
     in task_wait_reset index s)"

definition prepare_idle_task :: "kstate \<Rightarrow> kstate" where
  "prepare_idle_task s =
    (let idle_index = task_count s - 1;
         stack_bottom = internal_stack (ld_idle_task_storage (cfg s));
         stack_top = stack_bottom + 4 * JRT_IDLE_STACK_WORDS (cfg s);
         s = fill_stack stack_bottom stack_top s;
         s = set_task idle_index ((tasks s idle_index)\<lparr>t_stack_bottom := stack_bottom, t_stack_top := stack_top\<rparr>) s;
         (sp, s) = arch_build_initial_stack (t_stack_top (tasks s idle_index)) (ld_idle_body (cfg s)) 0 s;
         s = set_task idle_index ((tasks s idle_index)\<lparr>t_sp := sp, t_state := JRT_TASK_STATE_READY,
               t_minimum_sp := sp, t_high_water_words := JRT_INITIAL_STACK_USED_WORDS,
               t_entry := ld_idle_body (cfg s), t_argument := 0,
               t_priority := 0, t_base_priority := 0, t_name := ''idle'',
               t_flags := 0, t_private_data_base := 0, t_private_data_size := 0\<rparr>) s
     in task_wait_reset idle_index s)"

definition prepare_timer_service_task :: "u32 \<Rightarrow> kstate \<Rightarrow> kstate" where
  "prepare_timer_service_task index s =
    (let s = s\<lparr>timer_service_task_index := index\<rparr>;
         stack_bottom = internal_stack (ld_timer_service_task_storage (cfg s));
         stack_top = stack_bottom + 4 * JRT_TIMER_SERVICE_STACK_WORDS (cfg s);
         s = fill_stack stack_bottom stack_top s;
         s = set_task index ((tasks s index)\<lparr>t_stack_bottom := stack_bottom, t_stack_top := stack_top\<rparr>) s;
         (sp, s) = arch_build_initial_stack (t_stack_top (tasks s index)) (ld_timer_service_body (cfg s)) 0 s;
         s = set_task index ((tasks s index)\<lparr>t_sp := sp,
               t_minimum_sp := sp, t_high_water_words := JRT_INITIAL_STACK_USED_WORDS,
               t_entry := ld_timer_service_body (cfg s), t_argument := 0,
               t_priority := JRT_TIMER_SERVICE_PRIORITY (cfg s),
               t_base_priority := JRT_TIMER_SERVICE_PRIORITY (cfg s), t_name := ''timer-service'',
               t_flags := 0, t_private_data_base := 0, t_private_data_size := 0\<rparr>) s;
         s = task_wait_reset index s
     in task_wait_begin index (ld_timer_service_wait_object (cfg s)) TASK_WAIT_TIMER_SERVICE JRT_WAIT_FOREVER s)"

section \<open>JRT\_KernelInit and JRT\_KernelStart\<close>

definition clear_kernel_counters :: "kstate \<Rightarrow> kstate" where
  "clear_kernel_counters s = s\<lparr>current_task := 0, g_current_task_index := 0, g_context_switches := 0,
     g_ready_scan_depth_max := 0, g_sched_pass1_iters_total := 0, g_sched_pass2_iters_total := 0,
     g_sched_pass2_iters_max := 0, g_wait_timeout_semaphore := 0, g_wait_timeout_queue_send := 0,
     g_wait_timeout_queue_receive := 0, g_wait_timeout_mutex := 0, g_stack_high_water_words := 0,
     g_stack_high_water_task := 0, g_kernel_invariant_active := 0,
     g_kernel_invariant_code := JRT_INVARIANT_NONE, g_kernel_invariant_task := 0,
     g_kernel_invariant_object := 0, g_kernel_invariant_aux := 0, g_kernel_invariant_tick := 0,
     kernel_started := 0\<rparr>"

text \<open>The task table, once the configuration is valid.\<close>

definition prepare_tasks :: "JRT_KernelConfig_t \<Rightarrow> kstate \<Rightarrow> kstate" where
  "prepare_tasks config s =
    (let s = s\<lparr>application_task_count := k_task_count config\<rparr>;
         s = s\<lparr>task_count := k_task_count config + JRT_INTERNAL_TASK_COUNT\<rparr>;
         s = task_benchmark_init (task_count s) (k_tasks config) (k_task_count config) s;
         s = for_upto (k_task_count config) (\<lambda>index. prepare_task index (k_tasks config index)) s;
         s = prepare_timer_service_task (k_task_count config) s
     in prepare_idle_task s)"

text \<open>The part of \<open>JRT_KernelInit\<close> after the validation. \<open>Inl\<close>: the MPU setup halts.\<close>

definition init_commit :: "JRT_KernelConfig_t \<Rightarrow> kstate \<Rightarrow> (JRT_Status_t \<times> kstate) halting" where
  "init_commit config s =
    (let s = clear_kernel_counters (prepare_tasks config s)
     in case arch_configure_mpu (task_stack_guard (tasks s (current_task s)))
          (t_private_data_base (tasks s (current_task s)))
          (t_private_data_size (tasks s (current_task s))) s of
          Inl s \<Rightarrow> Inl s
        | Inr s \<Rightarrow>
            (let s = set_task (current_task s)
                   ((tasks s (current_task s))\<lparr>t_state := JRT_TASK_STATE_RUNNING\<rparr>) s;
                 s = s\<lparr>kernel_initialized := 1\<rparr>
             in Inr (JRT_STATUS_OK, s)))"

text \<open>
  \<open>config_ptr\<close> is the pointer and \<open>config\<close> what it points to.
\<close>

definition JRT_KernelInit :: "addr \<Rightarrow> JRT_KernelConfig_t \<Rightarrow> kstate \<Rightarrow> (JRT_Status_t \<times> kstate) halting" where
  "JRT_KernelInit config_ptr config s =
    (let c = cfg s;
         n = k_task_count config;
         configured_total_task_count = n + JRT_INTERNAL_TASK_COUNT
     in if config_ptr = NULL \<or> k_tasks_ptr config = NULL \<or> n = 0 then Inr (JRT_STATUS_INVALID_CONFIG, s)
        else if n > JRT_MAX_APPLICATION_TASKS c then Inr (JRT_STATUS_TOO_MANY_TASKS, s)
        else if configured_total_task_count > JRT_MAX_SCHEDULER_TASKS c then Inr (JRT_STATUS_TOO_MANY_TASKS, s)
        else if validate_tasks c config (indices n) \<noteq> JRT_STATUS_OK
        then Inr (validate_tasks c config (indices n), s)
        else if validate_regions c config (indices n) \<noteq> JRT_STATUS_OK
        then Inr (validate_regions c config (indices n), s)
        else init_commit config s)"

text \<open>\<open>Inl\<close>: the endless loop of a kernel that is not initialised; \<open>Inr\<close>: at \<open>arch_start_first_task\<close>.\<close>

definition JRT_KernelStart :: "kstate \<Rightarrow> kstate halting" where
  "JRT_KernelStart s =
    (if kernel_initialized s = 0 then Inl s
     else
       let s = arch_tick_init s
       in Inr (s\<lparr>kernel_started := 1\<rparr>))"

section \<open>Alignment and address ranges\<close>

lemma and_low_mask: "(x :: u32) AND (2 ^ k - 1) = 0 \<longleftrightarrow> 2 ^ k dvd unat x" if "k < 32"
proof -
  have m: "x AND (2 ^ k - 1) = take_bit k x" by (simp add: take_bit_eq_mask mask_eq_exp_minus_1)
  have "unat (take_bit k x) = unat x mod 2 ^ k"
    by (simp only: unsigned_take_bit_eq) (simp only: take_bit_eq_mod)
  then have "unat (take_bit k x) = 0 \<longleftrightarrow> 2 ^ k dvd unat x" by (simp add: dvd_eq_mod_eq_0)
  then show ?thesis unfolding m by (simp only: unat_eq_0)
qed

lemma odd_part: "0 < (n :: nat) \<Longrightarrow> \<exists>k m. n = 2 ^ k * (2 * m + 1)"
proof (induction n rule: less_induct)
  case (less n)
  show ?case
  proof (cases "even n")
    case True
    with less.prems obtain h where h: "n = 2 * h" "0 < h" "h < n" by (auto elim!: evenE)
    from less.IH [OF h(3,2)] obtain k m where "h = 2 ^ k * (2 * m + 1)" by blast
    then show ?thesis by (intro exI [of _ "Suc k"] exI [of _ m]) (simp add: h(1))
  next
    case False
    then show ?thesis by (intro exI [of _ 0] exI [of _ "n div 2"]) simp
  qed
qed

lemma power_of_two_iff: "x AND (x - 1) = 0 \<longleftrightarrow> (\<exists>k. unat x = 2 ^ k)" if "(x :: u32) \<noteq> 0"
proof -
  have pos: "0 < unat x" using that by (simp add: word_neq_0_unat)
  have u: "unat (x AND (x - 1)) = unat x AND (unat x - 1)"
    using that by (simp add: unsigned_and_eq unat_minus_one)
  obtain k m where km: "unat x = 2 ^ k * (2 * m + 1)" using odd_part [OF pos] by blast
  have top: "drop_bit (Suc k) (unat x) = m" "drop_bit (Suc k) (unat x - 1) = m"
  proof -
    have "unat x = 2 ^ Suc k * m + 2 ^ k" by (simp add: km algebra_simps)
    then show "drop_bit (Suc k) (unat x) = m" by (simp add: drop_bit_eq_div)
    have eq: "unat x - 1 = m * 2 ^ Suc k + (2 ^ k - 1)" by (simp add: km algebra_simps)
    have "(m * 2 ^ Suc k + (2 ^ k - 1)) div 2 ^ Suc k = (m :: nat)" by (rule div_mult_self3 [THEN trans]) (simp_all add: less_imp_diff_less)
    then show "drop_bit (Suc k) (unat x - 1) = m" by (simp only: eq drop_bit_eq_div)
  qed
  show ?thesis
  proof
    assume "x AND (x - 1) = 0"
    then have "unat x AND (unat x - 1) = 0" using u by simp
    then have "drop_bit (Suc k) (unat x AND (unat x - 1)) = 0" by simp
    then have "m AND m = 0" by (simp only: drop_bit_and top)
    then have "m = 0" by simp
    with km show "\<exists>k. unat x = 2 ^ k" by auto
  next
    assume "\<exists>k. unat x = 2 ^ k"
    then obtain j where j: "unat x = 2 ^ j" by blast
    have "unat x AND (unat x - 1) = take_bit j (2 ^ j :: nat)" by (simp add: j take_bit_eq_mask mask_eq_exp_minus_1)
    then show "x AND (x - 1) = 0" using u by (simp add: unat_eq_0)
  qed
qed

definition byte_range :: "addr \<Rightarrow> addr \<Rightarrow> addr set" where
  "byte_range a b = {p. a \<le> p \<and> p < b}"

lemma ranges_meet:
  assumes "a < b" and "c < d"
  shows "byte_range a b \<inter> byte_range c d = {} \<longleftrightarrow> \<not> (a < d \<and> c < b)"
proof
  assume e: "byte_range a b \<inter> byte_range c d = {}"
  show "\<not> (a < d \<and> c < b)"
  proof
    assume "a < d \<and> c < b"
    with assms have "max a c \<in> byte_range a b \<inter> byte_range c d" by (auto simp: byte_range_def max_def)
    with e show False by simp
  qed
qed (auto simp: byte_range_def)

section \<open>What an accepted configuration is\<close>

definition stack_bytes :: "JRT_TaskDefinition_t \<Rightarrow> addr set" where
  "stack_bytes d = byte_range (stack_start d) (stack_end d)"

definition private_bytes :: "JRT_TaskDefinition_t \<Rightarrow> addr set" where
  "private_bytes d = byte_range (d_private_data_base d) (private_end d)"

text \<open>The kernel's own stacks with their guards: the idle task's and the timer service's.\<close>

definition internal_end :: "addr \<Rightarrow> u32 \<Rightarrow> addr" where
  "internal_end storage words = internal_stack storage + 4 * words"

definition internal_bytes :: "jrt_config \<Rightarrow> addr set" where
  "internal_bytes c =
     byte_range (ld_timer_service_task_storage c)
       (internal_end (ld_timer_service_task_storage c) (JRT_TIMER_SERVICE_STACK_WORDS c))
   \<union> byte_range (ld_idle_task_storage c) (internal_end (ld_idle_task_storage c) (JRT_IDLE_STACK_WORDS c))"

text \<open>The linker places the two objects, which are aligned to 32 bytes, inside the address space.\<close>

definition placed :: "addr \<Rightarrow> u32 \<Rightarrow> bool" where
  "placed storage words \<longleftrightarrow> 32 dvd unat storage \<and> unat storage + 32 + 4 * unat words < 2 ^ 32"

definition linked_storage :: "jrt_config \<Rightarrow> bool" where
  "linked_storage c \<longleftrightarrow> placed (ld_timer_service_task_storage c) (JRT_TIMER_SERVICE_STACK_WORDS c)
     \<and> placed (ld_idle_task_storage c) (JRT_IDLE_STACK_WORDS c)"

lemma placed_nat:
  assumes "placed storage words"
  shows "unat (internal_stack storage) = unat storage + 32"
    and "unat (internal_end storage words) = unat storage + 32 + 4 * unat words"
    and "storage < internal_end storage words"
proof -
  have a: "unat storage + 32 + 4 * unat words < 4294967296" using assms by (simp add: placed_def)
  then show b: "unat (internal_stack storage) = unat storage + 32"
    using unat_add_small [of storage 32] by (simp add: internal_stack_def)
  have "unat (4 * words) = 4 * unat words" using a unat_mult_small [of 4 words] by simp
  then show c: "unat (internal_end storage words) = unat storage + 32 + 4 * unat words"
    using a b unat_add_small [of "internal_stack storage" "4 * words"] by (simp add: internal_end_def)
  then show "storage < internal_end storage words" by (simp add: word_less_unat)
qed

definition stack_fits :: "jrt_config \<Rightarrow> JRT_TaskDefinition_t \<Rightarrow> bool" where
  "stack_fits c d \<longleftrightarrow> d_stack_guard d \<noteq> NULL \<and> 32 dvd unat (d_stack_guard d)
     \<and> unat (d_stack_buffer d) = unat (d_stack_guard d) + 32
     \<and> even (unat (d_stack_words d)) \<and> JRT_MINIMUM_TASK_STACK_WORDS c \<le> d_stack_words d
     \<and> unat (d_stack_buffer d) + 4 * unat (d_stack_words d) < 2 ^ 32"

definition private_fits :: "jrt_config \<Rightarrow> JRT_TaskDefinition_t \<Rightarrow> bool" where
  "private_fits c d \<longleftrightarrow> d_private_data_base d \<noteq> NULL
     \<and> 32 \<le> unat (d_private_data_size d) \<and> (\<exists>k. unat (d_private_data_size d) = 2 ^ k)
     \<and> unat (d_private_data_size d) dvd unat (d_private_data_base d)
     \<and> d_flags d AND JRT_TASK_FLAG_UNPRIVILEGED \<noteq> 0
     \<and> ld_task_private_data_start c \<le> d_private_data_base d
     \<and> unat (d_private_data_base d) + unat (d_private_data_size d) \<le> unat (ld_task_private_data_end c)"

definition no_private :: "JRT_TaskDefinition_t \<Rightarrow> bool" where
  "no_private d \<longleftrightarrow> d_private_data_base d = NULL \<and> d_private_data_size d = 0"

lemma add_wraps:
  assumes "\<not> unat (b :: u32) + unat n < 4294967296" shows "unat (b + n) < unat b"
proof -
  let ?z = "unat b + unat n - 4294967296"
  have z: "?z < unat b" using assms unat_lt32 [of n] unat_lt32 [of b] by linarith
  then have "?z < 4294967296" using unat_lt32 [of b] by linarith
  then have "(unat b + unat n) mod 4294967296 = ?z" using assms by (simp add: le_mod_geq)
  with z show ?thesis by (simp add: unat_word_ariths)
qed

lemma stack_end_nat:
  assumes "stack_fits c d"
  shows "unat (stack_end d) = unat (d_stack_buffer d) + 4 * unat (d_stack_words d)"
    and "d_stack_buffer d = d_stack_guard d + 32" and "stack_start d < d_stack_buffer d" and "d_stack_buffer d \<le> stack_end d"
proof -
  have a: "unat (d_stack_buffer d) + 4 * unat (d_stack_words d) < 2 ^ 32" "unat (d_stack_buffer d) = unat (d_stack_guard d) + 32"
    using assms by (simp_all add: stack_fits_def)
  then have m: "unat (d_stack_words d * 4) = unat (d_stack_words d) * 4" by (intro unat_mult_small [of _ 4, simplified]) simp
  show e: "unat (stack_end d) = unat (d_stack_buffer d) + 4 * unat (d_stack_words d)"
    using a m unat_add_small [of "d_stack_buffer d" "d_stack_words d * 4"] by (simp add: stack_end_def)
  show "d_stack_buffer d = d_stack_guard d + 32"
    using a unat_add_small [of "d_stack_guard d" 32] unat_lt32 [of "d_stack_buffer d"] by (simp add: word_eq_unat)
  show "stack_start d < d_stack_buffer d" "d_stack_buffer d \<le> stack_end d"
    using a e by (simp_all add: word_less_unat word_le_unat stack_start_def)
qed

lemma stack_conflict_bytes:
  assumes "stack_fits c d" and "stack_fits c other"
  shows "stack_conflict d other \<longleftrightarrow> stack_bytes d \<inter> stack_bytes other \<noteq> {}"
proof -
  have "stack_start d < stack_end d" "stack_start other < stack_end other"
    using stack_end_nat(3,4) [OF assms(1)] stack_end_nat(3,4) [OF assms(2)] by auto
  from ranges_meet [OF this] show ?thesis by (simp add: stack_conflict_def stack_bytes_def)
qed

lemma low_bit_even: "(x :: u32) AND 1 = 0 \<longleftrightarrow> even (unat x)"
  using and_low_mask [of 1 x] by simp

lemma stack_checks:
  "\<not> (d_stack_buffer d = NULL \<or> d_stack_guard d = NULL
      \<or> d_stack_words d < JRT_MINIMUM_TASK_STACK_WORDS c
      \<or> d_stack_words d AND 1 \<noteq> 0
      \<or> d_stack_buffer d AND 7 \<noteq> 0 \<or> d_stack_guard d AND 0x1F \<noteq> 0
      \<or> d_stack_guard d + JRT_TASK_GUARD_WORDS * 4 \<noteq> d_stack_buffer d
      \<or> d_stack_words d > UINT32_MAX div 4) \<and> \<not> stack_end d < d_stack_buffer d
   \<longleftrightarrow> stack_fits c d" (is "?code \<longleftrightarrow> _")
proof
  assume code: ?code
  let ?g = "d_stack_guard d" and ?b = "d_stack_buffer d" and ?w = "d_stack_words d"
  have g: "32 dvd unat ?g" using code and_low_mask [of 5 ?g] by simp
  have "unat ?g + 32 < 4294967296"
  proof (rule ccontr)
    assume "\<not> ?thesis"
    moreover have "unat ?g < 4294967296" by (rule unat_lt32)
    moreover from g obtain q where "unat ?g = 32 * q" by (auto elim: dvdE)
    ultimately have "unat ?g = 4294967264" by presburger
    then have "?g = 4294967264" by (simp add: word_eq_unat)
    with code show False by simp
  qed
  then have b: "unat ?b = unat ?g + 32" using code unat_add_small [of ?g 32] by auto
  have w: "unat ?w * 4 < 4294967296"
  proof -
    have "\<not> ?w > UINT32_MAX div 4" using code by blast
    then have "unat ?w \<le> unat (UINT32_MAX div 4 :: u32)" by (simp only: word_less_unat not_less)
    also have "unat (UINT32_MAX div 4 :: u32) = 1073741823" by (simp only: unat_div32) simp
    finally show ?thesis by simp
  qed
  then have m: "unat (?w * 4) = unat ?w * 4" using unat_mult_small [of ?w 4] by simp
  have "unat ?b + unat ?w * 4 < 4294967296"
  proof (rule ccontr)
    assume n: "\<not> ?thesis"
    then have "unat (?b + ?w * 4) < unat ?b" by (intro add_wraps) (simp add: m)
    then show False using code by (simp add: stack_end_def word_less_unat)
  qed
  with code g b show "stack_fits c d" by (auto simp: stack_fits_def low_bit_even not_less mult.commute)
next
  assume fits: "stack_fits c d"
  let ?g = "d_stack_guard d" and ?b = "d_stack_buffer d" and ?w = "d_stack_words d"
  note e = stack_end_nat [OF fits]
  have "32 dvd unat ?b" using fits by (simp add: stack_fits_def)
  then have "8 dvd unat ?b" by (rule dvd_trans [rotated]) simp
  then have "?b AND 7 = 0" using and_low_mask [of 3 ?b] by simp
  moreover have "?g AND 0x1F = 0" using fits and_low_mask [of 5 ?g] by (simp add: stack_fits_def)
  moreover have "?b \<noteq> NULL" using fits by (auto simp: stack_fits_def word_eq_unat)
  moreover have "\<not> ?w > UINT32_MAX div 4"
  proof -
    have "unat ?w \<le> 1073741823" using fits by (simp add: stack_fits_def)
    also have "1073741823 = unat (UINT32_MAX div 4 :: u32)" by (simp only: unat_div32) simp
    finally show ?thesis by (simp only: word_less_unat not_less)
  qed
  ultimately show ?code using fits e by (simp add: stack_fits_def low_bit_even not_less)
qed

lemma validate_task_stack_ok:
  "validate_task_stack c config i = JRT_STATUS_OK \<longleftrightarrow>
     stack_fits c (k_tasks config i) \<and> (\<forall>j<i. \<not> stack_conflict (k_tasks config i) (k_tasks config j))"
  unfolding stack_checks [symmetric]
  by (auto simp: validate_task_stack_def Let_def list_ex_iff)

lemma validate_tasks_ok:
  "validate_tasks c config is = JRT_STATUS_OK \<longleftrightarrow> (\<forall>i\<in>set is. d_entry (k_tasks config i) \<noteq> NULL
     \<and> d_priority (k_tasks config i) \<le> JRT_MAX_TASK_PRIORITY c \<and> validate_task_stack c config i = JRT_STATUS_OK)"
  by (induction "is") (auto simp: Let_def)

lemma validate_regions_ok:
  "validate_regions c config is = JRT_STATUS_OK \<longleftrightarrow> (\<forall>i\<in>set is. validate_private_region c config i = JRT_STATUS_OK)"
  by (induction "is") auto

lemma private_checks:
  "\<not> (b = 0 \<or> n < 32 \<or> n AND (n - 1) \<noteq> 0 \<or> b AND (n - 1) \<noteq> 0) \<and> \<not> (b + n < b) \<and> \<not> b + n > (e :: u32)
   \<longleftrightarrow> b \<noteq> 0 \<and> 32 \<le> unat n \<and> (\<exists>k. unat n = 2 ^ k) \<and> unat n dvd unat b \<and> unat b + unat n \<le> unat e"
proof (cases "n < 32 \<or> b = 0")
  case True
  then show ?thesis by (auto simp: word_less_unat)
next
  case False
  then have n: "n \<noteq> 0" "32 \<le> unat n" "b \<noteq> 0" by (auto simp: word_less_unat)
  have sum: "\<not> b + n < b \<and> \<not> b + n > e \<longleftrightarrow> unat b + unat n \<le> unat e"
  proof (cases "unat b + unat n < 4294967296")
    case True
    then show ?thesis by (simp add: word_less_unat unat_add_small not_less)
  next
    case False
    then have "unat (b + n) < unat b" by (rule add_wraps)
    then show ?thesis using False unat_lt32 [of e] by (simp add: word_less_unat)
  qed
  have al: "b AND (n - 1) = 0 \<longleftrightarrow> unat n dvd unat b" if "unat n = 2 ^ k" for k
  proof -
    have "2 ^ k < (2 :: nat) ^ 32" using unat_lt32 [of n] that by simp
    then have k: "k < 32" by (simp only: power_strict_increasing_iff)
    have "n = word_of_nat (unat n)" by simp
    then have "n = 2 ^ k" by (simp only: that of_nat_power of_nat_numeral)
    with that show ?thesis using and_low_mask [OF k, of b] by simp
  qed
  show ?thesis using False n sum al power_of_two_iff [OF n(1)] by (auto simp: not_less)
qed

section \<open>Validation decides acceptance\<close>

definition private_shape :: "jrt_config \<Rightarrow> JRT_TaskDefinition_t \<Rightarrow> bool" where
  "private_shape c d \<longleftrightarrow> no_private d \<or> private_fits c d"

lemma no_private_bytes: "no_private d \<Longrightarrow> private_bytes d = {}"
  by (auto simp: no_private_def private_bytes_def private_end_def byte_range_def)

lemma private_fits_range:
  assumes "private_fits c d" shows "d_private_data_base d < private_end d"
proof -
  have "unat (d_private_data_base d) + unat (d_private_data_size d) < 4294967296"
    using assms unat_lt32 [of "ld_task_private_data_end c"] by (simp add: private_fits_def)
  then have "unat (private_end d) = unat (d_private_data_base d) + unat (d_private_data_size d)"
    unfolding private_end_def by (rule unat_add_small)
  with assms show ?thesis by (simp add: private_fits_def word_less_unat)
qed

lemma stack_fits_range: "stack_fits c d \<Longrightarrow> stack_start d < stack_end d"
  using stack_end_nat(3,4) [of c d] by auto

lemma overlap_bytes:
  assumes "a < b" and "c < d"
  shows "ranges_overlap a b c d \<noteq> 0 \<longleftrightarrow> byte_range a b \<inter> byte_range c d \<noteq> {}"
  using ranges_meet [OF assms] by (auto simp: ranges_overlap_def)

lemma private_conflict_bytes:
  assumes "private_fits c (k_tasks k i)" and "stack_fits c (k_tasks k j)" and "private_shape c (k_tasks k j)"
  shows "private_conflict k i j \<longleftrightarrow> private_bytes (k_tasks k i) \<inter> stack_bytes (k_tasks k j) \<noteq> {}
    \<or> j < i \<and> private_bytes (k_tasks k i) \<inter> private_bytes (k_tasks k j) \<noteq> {}"
proof -
  note r = private_fits_range [OF assms(1)] stack_fits_range [OF assms(2)]
  show ?thesis
  proof (cases "no_private (k_tasks k j)")
    case True
    then show ?thesis
      using overlap_bytes [OF r] no_private_bytes [OF True]
      by (simp add: private_conflict_def Let_def private_bytes_def stack_bytes_def no_private_def)
  next
    case False
    then have "private_fits c (k_tasks k j)" using assms(3) by (simp add: private_shape_def)
    then have "d_private_data_base (k_tasks k j) \<noteq> 0" "d_private_data_base (k_tasks k j) < private_end (k_tasks k j)"
      using private_fits_range by (auto simp: private_fits_def)
    then show ?thesis
      using overlap_bytes [OF r] overlap_bytes [OF r(1), of "d_private_data_base (k_tasks k j)" "private_end (k_tasks k j)"]
      by (simp add: private_conflict_def Let_def private_bytes_def stack_bytes_def)
  qed
qed

text \<open>The private region of task \<open>i\<close> meets no stack, no earlier region and no kernel stack.\<close>

definition private_apart :: "jrt_config \<Rightarrow> JRT_KernelConfig_t \<Rightarrow> u32 \<Rightarrow> bool" where
  "private_apart c k i \<longleftrightarrow>
     (\<forall>j < k_task_count k. private_bytes (k_tasks k i) \<inter> stack_bytes (k_tasks k j) = {})
   \<and> (\<forall>j < k_task_count k. j < i \<longrightarrow> private_bytes (k_tasks k i) \<inter> private_bytes (k_tasks k j) = {})
   \<and> private_bytes (k_tasks k i) \<inter> internal_bytes c = {}"

lemma validate_private_shape:
  "validate_private_region c k i = JRT_STATUS_OK \<Longrightarrow> private_shape c (k_tasks k i)"
  using private_checks [of "d_private_data_base (k_tasks k i)" "d_private_data_size (k_tasks k i)" "ld_task_private_data_end c"]
  by (auto simp: validate_private_region_def Let_def private_shape_def no_private_def private_fits_def not_less split: if_splits)

lemma validate_private_region_ok:
  assumes "\<forall>j < k_task_count k. stack_fits c (k_tasks k j) \<and> private_shape c (k_tasks k j)" and "linked_storage c"
    and "private_shape c (k_tasks k i)"
  shows "validate_private_region c k i = JRT_STATUS_OK \<longleftrightarrow> private_apart c k i"
proof (cases "no_private (k_tasks k i)")
  case True
  then have "validate_private_region c k i = JRT_STATUS_OK" by (simp add: validate_private_region_def no_private_def)
  with no_private_bytes [OF True] show ?thesis by (simp add: private_apart_def)
next
  case False
  let ?d = "k_tasks k i"
  have fits: "private_fits c ?d" using False assms(3) by (simp add: private_shape_def)
  let ?b = "d_private_data_base ?d" and ?n = "d_private_data_size ?d"
  have checks: "\<not> (?b = 0 \<or> ?n < 32 \<or> ?n AND (?n - 1) \<noteq> 0 \<or> ?b AND (?n - 1) \<noteq> 0)"
    "\<not> ?b + ?n < ?b" "\<not> ?b + ?n > ld_task_private_data_end c"
    using fits private_checks [of ?b ?n "ld_task_private_data_end c"] by (simp_all add: private_fits_def)
  have others: "\<not> list_ex (private_conflict k i) (indices (k_task_count k)) \<longleftrightarrow>
      (\<forall>j < k_task_count k. private_bytes ?d \<inter> stack_bytes (k_tasks k j) = {})
    \<and> (\<forall>j < k_task_count k. j < i \<longrightarrow> private_bytes ?d \<inter> private_bytes (k_tasks k j) = {})"
    using private_conflict_bytes [OF fits] assms(1) by (auto simp: list_ex_iff)
  note r = private_fits_range [OF fits, unfolded private_end_def]
  have internal: "ranges_overlap ?b (?b + ?n) (ld_timer_service_task_storage c)
        (internal_stack (ld_timer_service_task_storage c) + 4 * JRT_TIMER_SERVICE_STACK_WORDS c) = 0
    \<and> ranges_overlap ?b (?b + ?n) (ld_idle_task_storage c)
        (internal_stack (ld_idle_task_storage c) + 4 * JRT_IDLE_STACK_WORDS c) = 0
    \<longleftrightarrow> private_bytes ?d \<inter> internal_bytes c = {}"
    using assms(2) overlap_bytes [OF r] placed_nat(3)
    by (auto simp: linked_storage_def internal_end_def internal_bytes_def private_bytes_def private_end_def)
  show ?thesis
    using fits checks others internal
    by (auto simp: validate_private_region_def Let_def private_fits_def private_apart_def)
qed

text \<open>
  What the documentation asks of a configuration: task count, entries and priorities in range,
  aligned guarded stacks of a sufficient size, private regions as the MPU can express them and
  inside their linker section, and all these ranges of addresses apart.
\<close>

definition accepts :: "jrt_config \<Rightarrow> JRT_KernelConfig_t \<Rightarrow> bool" where
  "accepts c k \<longleftrightarrow> k_tasks_ptr k \<noteq> NULL \<and> 0 < k_task_count k \<and> k_task_count k \<le> JRT_MAX_APPLICATION_TASKS c
     \<and> (\<forall>i < k_task_count k. d_entry (k_tasks k i) \<noteq> NULL \<and> d_priority (k_tasks k i) \<le> JRT_MAX_TASK_PRIORITY c
          \<and> stack_fits c (k_tasks k i) \<and> (no_private (k_tasks k i) \<or> private_fits c (k_tasks k i))
          \<and> private_bytes (k_tasks k i) \<inter> internal_bytes c = {})
     \<and> (\<forall>i < k_task_count k. \<forall>j < k_task_count k.
          private_bytes (k_tasks k i) \<inter> stack_bytes (k_tasks k j) = {}
          \<and> (i \<noteq> j \<longrightarrow> stack_bytes (k_tasks k i) \<inter> stack_bytes (k_tasks k j) = {}
                \<and> private_bytes (k_tasks k i) \<inter> private_bytes (k_tasks k j) = {}))"

lemma earlier_apart: "(\<forall>i < (n :: u32). \<forall>j < i. P i \<inter> P j = {}) \<longleftrightarrow> (\<forall>i < n. \<forall>j < n. i \<noteq> j \<longrightarrow> P i \<inter> P j = {})"
proof
  assume a: "\<forall>i < n. \<forall>j < i. P i \<inter> P j = {}"
  show "\<forall>i < n. \<forall>j < n. i \<noteq> j \<longrightarrow> P i \<inter> P j = {}"
  proof (intro allI impI)
    fix i j assume "i < n" "j < n" "i \<noteq> j"
    then show "P i \<inter> P j = {}" using a Int_commute [of "P i" "P j"] by (cases i j rule: linorder_cases) auto
  qed
next
  assume a: "\<forall>i < n. \<forall>j < n. i \<noteq> j \<longrightarrow> P i \<inter> P j = {}"
  show "\<forall>i < n. \<forall>j < i. P i \<inter> P j = {}"
  proof (intro allI impI)
    fix i j assume "i < n" "j < i"
    then show "P i \<inter> P j = {}" using a less_trans [of j i n] by auto
  qed
qed

lemma accepts_validation:
  assumes "linked_storage c"
  shows "accepts c k \<longleftrightarrow> k_tasks_ptr k \<noteq> NULL \<and> k_task_count k \<noteq> 0 \<and> \<not> k_task_count k > JRT_MAX_APPLICATION_TASKS c
     \<and> validate_tasks c k (indices (k_task_count k)) = JRT_STATUS_OK
     \<and> validate_regions c k (indices (k_task_count k)) = JRT_STATUS_OK"
proof -
  let ?n = "k_task_count k" and ?d = "k_tasks k"
  have tasks: "validate_tasks c k (indices ?n) = JRT_STATUS_OK \<longleftrightarrow>
      (\<forall>i<?n. d_entry (?d i) \<noteq> NULL \<and> d_priority (?d i) \<le> JRT_MAX_TASK_PRIORITY c \<and> stack_fits c (?d i))
    \<and> (\<forall>i<?n. \<forall>j<?n. i \<noteq> j \<longrightarrow> stack_bytes (?d i) \<inter> stack_bytes (?d j) = {})"
    (is "_ \<longleftrightarrow> ?fits \<and> _")
  proof -
    have conflict: "stack_conflict (?d i) (?d j) \<longleftrightarrow> stack_bytes (?d i) \<inter> stack_bytes (?d j) \<noteq> {}"
      if ?fits "i < ?n" "j < i" for i j
      using that less_trans [OF that(3,2)] by (intro stack_conflict_bytes [of c]) simp_all
    have "validate_tasks c k (indices ?n) = JRT_STATUS_OK \<longleftrightarrow> ?fits \<and> (\<forall>i<?n. \<forall>j<i. \<not> stack_conflict (?d i) (?d j))"
      by (auto simp: validate_tasks_ok validate_task_stack_ok)
    also have "\<dots> \<longleftrightarrow> ?fits \<and> (\<forall>i<?n. \<forall>j<i. stack_bytes (?d i) \<inter> stack_bytes (?d j) = {})"
      by (rule conj_cong [OF refl]) (simp add: conflict)
    finally show ?thesis unfolding earlier_apart [symmetric] .
  qed
  have regions: "validate_regions c k (indices ?n) = JRT_STATUS_OK \<longleftrightarrow>
      (\<forall>i<?n. private_shape c (?d i)) \<and> (\<forall>i<?n. private_apart c k i)"
    if "\<forall>i<?n. d_entry (?d i) \<noteq> NULL \<and> d_priority (?d i) \<le> JRT_MAX_TASK_PRIORITY c \<and> stack_fits c (?d i)"
  proof -
    have "(\<forall>i<?n. validate_private_region c k i = JRT_STATUS_OK) \<longleftrightarrow>
      (\<forall>i<?n. private_shape c (?d i)) \<and> (\<forall>i<?n. private_apart c k i)"
      using that validate_private_shape validate_private_region_ok [OF _ assms] by blast
    then show ?thesis by (simp add: validate_regions_ok)
  qed
  have apart: "(\<forall>i<?n. private_apart c k i) \<longleftrightarrow>
      (\<forall>i<?n. \<forall>j<?n. private_bytes (?d i) \<inter> stack_bytes (?d j) = {})
    \<and> (\<forall>i<?n. \<forall>j<?n. i \<noteq> j \<longrightarrow> private_bytes (?d i) \<inter> private_bytes (?d j) = {})
    \<and> (\<forall>i<?n. private_bytes (?d i) \<inter> internal_bytes c = {})"
  proof -
    have "private_apart c k i \<longleftrightarrow> (\<forall>j<?n. private_bytes (?d i) \<inter> stack_bytes (?d j) = {})
        \<and> (\<forall>j<i. private_bytes (?d i) \<inter> private_bytes (?d j) = {}) \<and> private_bytes (?d i) \<inter> internal_bytes c = {}"
      if "i < ?n" for i
      using less_trans [OF _ that] unfolding private_apart_def by meson
    then show ?thesis unfolding earlier_apart [symmetric] by meson
  qed
  show ?thesis
  proof (cases "\<forall>i<?n. d_entry (?d i) \<noteq> NULL \<and> d_priority (?d i) \<le> JRT_MAX_TASK_PRIORITY c \<and> stack_fits c (?d i)")
    case True
    have pos: "0 < ?n \<longleftrightarrow> ?n \<noteq> 0" by (simp add: word_neq_0_conv)
    show ?thesis
      unfolding accepts_def tasks regions [OF True] apart private_shape_def pos not_less
      by (simp only: imp_conjR all_conj_distrib conj_ac)
  next
    case False
    then show ?thesis unfolding accepts_def tasks by blast
  qed
qed

section \<open>What the preparation does\<close>

text \<open>A control block as the three preparations leave it, and the stack they leave it with.\<close>

definition prepared ::
  "addr \<Rightarrow> addr \<Rightarrow> addr \<Rightarrow> addr \<Rightarrow> u32 \<Rightarrow> string \<Rightarrow> u32 \<Rightarrow> addr \<Rightarrow> u32 \<Rightarrow> task_t \<Rightarrow> task_t" where
  "prepared bottom stack_top entry argument priority name flags base bytes t = t\<lparr>
     t_stack_bottom := bottom, t_stack_top := stack_top, t_sp := stack_top - 68, t_state := JRT_TASK_STATE_READY,
     t_minimum_sp := stack_top - 68, t_high_water_words := JRT_INITIAL_STACK_USED_WORDS,
     t_entry := entry, t_argument := argument, t_priority := priority, t_base_priority := priority,
     t_name := name, t_flags := flags, t_private_data_base := base, t_private_data_size := bytes,
     t_wait_object := NULL, t_wait_kind := TASK_WAIT_NONE, t_wait_start := 0,
     t_wait_deadline := 0, t_wait_forever := 0, t_wait_result := 0,
     t_notification_value := 0, t_event_wait_bits := 0, t_event_wait_all := 0,
     t_event_clear_on_exit := 0\<rparr>"

lemma prepared_simps [simp]:
  "t_stack_bottom (prepared b t e a p n f pb ps task) = b" "t_stack_top (prepared b t e a p n f pb ps task) = t"
  "t_sp (prepared b t e a p n f pb ps task) = t - 68" "t_state (prepared b t e a p n f pb ps task) = JRT_TASK_STATE_READY"
  "t_entry (prepared b t e a p n f pb ps task) = e" "t_argument (prepared b t e a p n f pb ps task) = a"
  "t_priority (prepared b t e a p n f pb ps task) = p" "t_base_priority (prepared b t e a p n f pb ps task) = p"
  "t_private_data_base (prepared b t e a p n f pb ps task) = pb" "t_private_data_size (prepared b t e a p n f pb ps task) = ps"
  "t_wait_object (prepared b t e a p n f pb ps task) = NULL" "t_wait_kind (prepared b t e a p n f pb ps task) = TASK_WAIT_NONE"
  "t_wait_start (prepared b t e a p n f pb ps task) = 0" "t_wait_deadline (prepared b t e a p n f pb ps task) = 0"
  "t_wait_forever (prepared b t e a p n f pb ps task) = 0"
  by (simp_all add: prepared_def)

definition frame_words :: "addr \<Rightarrow> addr \<Rightarrow> addr \<Rightarrow> u32 list" where
  "frame_words exit_trap entry argument =
     [0x01000000, entry AND NOT 1, exit_trap OR 1, 0, 0, 0, 0, argument] @ replicate 8 0 @ [ARCH_INITIAL_EXC_RETURN]"

lemma length_frame_words [simp]: "length (frame_words x e a) = 17"
  by (simp add: frame_words_def)

definition stack_image :: "addr \<Rightarrow> addr \<Rightarrow> addr \<Rightarrow> addr \<Rightarrow> addr \<Rightarrow> (addr \<Rightarrow> u32) \<Rightarrow> addr \<Rightarrow> u32" where
  "stack_image exit_trap bottom stack_top entry argument m =
     snd (fold push_word (frame_words exit_trap entry argument)
       (stack_top, for_upto (stack_words_of bottom stack_top) (\<lambda>i m. m(bottom + 4 * i := JRT_TASK_STACK_FILL)) m))"

lemma push_sp: "fst (fold push_word vs (p, m)) = p - word_of_nat (4 * length vs)"
proof (induction vs arbitrary: p m)
  case (Cons v vs)
  then show ?case using Cons [of "p - 4" "m(p - 4 := v)"] by (simp add: push_word_def algebra_simps)
qed simp

lemma push_snd_fst: "fold push_word vs (p, m) = (p - word_of_nat (4 * length vs), snd (fold push_word vs (p, m)))"
  using push_sp [of vs p m] by (metis prod.collapse)

lemma build_initial_stack_eq:
  "arch_build_initial_stack stack_top entry argument s =
     (stack_top - 68, s\<lparr>mem32 := snd (fold push_word (frame_words (ld_task_exit_trap (cfg s)) entry argument) (stack_top, mem32 s))\<rparr>)"
  unfolding arch_build_initial_stack_def frame_words_def [symmetric]
  by (subst push_snd_fst) (simp add: Let_def)

lemma prepare_task_eq:
  "prepare_task i d s = s\<lparr>
     tasks := (tasks s)(i := prepared (d_stack_buffer d) (d_stack_buffer d + 4 * d_stack_words d) (d_entry d) (d_argument d)
       (d_priority d) (d_name d) (d_flags d) (d_private_data_base d) (d_private_data_size d) (tasks s i)),
     mem32 := stack_image (ld_task_exit_trap (cfg s)) (d_stack_buffer d) (d_stack_buffer d + 4 * d_stack_words d)
       (d_entry d) (d_argument d) (mem32 s)\<rparr>"
  by (simp add: prepare_task_def Let_def build_initial_stack_eq fill_stack_def set_task_def task_wait_reset_def
      stack_image_def prepared_def)

definition idle_task :: "jrt_config \<Rightarrow> task_t \<Rightarrow> task_t" where
  "idle_task c = prepared (internal_stack (ld_idle_task_storage c)) (internal_end (ld_idle_task_storage c) (JRT_IDLE_STACK_WORDS c))
     (ld_idle_body c) 0 0 ''idle'' 0 0 0"

lemma prepare_idle_task_eq:
  "prepare_idle_task s = s\<lparr>
     tasks := (tasks s)(task_count s - 1 := idle_task (cfg s) (tasks s (task_count s - 1))),
     mem32 := stack_image (ld_task_exit_trap (cfg s)) (internal_stack (ld_idle_task_storage (cfg s)))
       (internal_end (ld_idle_task_storage (cfg s)) (JRT_IDLE_STACK_WORDS (cfg s))) (ld_idle_body (cfg s)) 0 (mem32 s)\<rparr>"
  by (simp add: prepare_idle_task_def Let_def build_initial_stack_eq fill_stack_def set_task_def task_wait_reset_def
      stack_image_def prepared_def idle_task_def internal_end_def)

definition service_task :: "jrt_config \<Rightarrow> u32 \<Rightarrow> task_t \<Rightarrow> task_t" where
  "service_task c now t = blocked_on (ld_timer_service_wait_object c) TASK_WAIT_TIMER_SERVICE (make_deadline now JRT_WAIT_FOREVER)
     (prepared (internal_stack (ld_timer_service_task_storage c))
       (internal_end (ld_timer_service_task_storage c) (JRT_TIMER_SERVICE_STACK_WORDS c))
       (ld_timer_service_body c) 0 (JRT_TIMER_SERVICE_PRIORITY c) ''timer-service'' 0 0 0 t)"

lemma prepare_timer_service_task_eq:
  "\<exists>rec. prepare_timer_service_task i s = s\<lparr>timer_service_task_index := i, benchmark_records := rec,
     tasks := (tasks s)(i := service_task (cfg s) (g_kernel_ticks s) (tasks s i)),
     mem32 := stack_image (ld_task_exit_trap (cfg s)) (internal_stack (ld_timer_service_task_storage (cfg s)))
       (internal_end (ld_timer_service_task_storage (cfg s)) (JRT_TIMER_SERVICE_STACK_WORDS (cfg s)))
       (ld_timer_service_body (cfg s)) 0 (mem32 s)\<rparr>"
proof -
  let ?c = "cfg s" and ?t = "tasks s i"
  let ?b = "internal_stack (ld_timer_service_task_storage ?c)" and ?e = "internal_end (ld_timer_service_task_storage ?c) (JRT_TIMER_SERVICE_STACK_WORDS ?c)"
  let ?p = "prepared ?b ?e (ld_timer_service_body ?c) 0 (JRT_TIMER_SERVICE_PRIORITY ?c) ''timer-service'' 0 0 0 ?t"
  define u where "u = s\<lparr>timer_service_task_index := i,
     mem32 := stack_image (ld_task_exit_trap ?c) ?b ?e (ld_timer_service_body ?c) 0 (mem32 s),
     tasks := (tasks s)(i := ?p\<lparr>t_state := t_state ?t\<rparr>)\<rparr>"
  have "prepare_timer_service_task i s = task_wait_begin i (ld_timer_service_wait_object ?c) TASK_WAIT_TIMER_SERVICE JRT_WAIT_FOREVER u"
    by (simp add: prepare_timer_service_task_def Let_def build_initial_stack_eq fill_stack_def set_task_def task_wait_reset_def
        stack_image_def prepared_def internal_end_def u_def)
  also have "\<dots> = u\<lparr>benchmark_records := complete_records i u, tasks := (tasks s)(i := service_task ?c (g_kernel_ticks s) ?t)\<rparr>"
    unfolding task_wait_begin_eq task_wait_begin_until_eq by (simp add: u_def service_task_def blocked_on_def prepared_def)
  finally show ?thesis unfolding u_def by (intro exI [of _ "complete_records i u"]) (simp add: u_def)
qed

section \<open>The initial frames in memory\<close>

lemma push_mem:
  assumes "4 * length vs < 4294967296"
  shows "snd (fold push_word vs (p, m)) a =
    (let off = unat (p - a) in if 0 < off \<and> off \<le> 4 * length vs \<and> 4 dvd off then vs ! (off div 4 - 1) else m a)"
  using assms
proof (induction vs arbitrary: m rule: rev_induct)
  case Nil
  then show ?case by (auto simp: Let_def)
next
  case (snoc v vs)
  let ?q = "p - word_of_nat (4 * length vs)" and ?n = "length vs"
  have "fold push_word (vs @ [v]) (p, m) = push_word v (?q, snd (fold push_word vs (p, m)))"
    using push_snd_fst [of vs p m] by simp
  then have eq: "snd (fold push_word (vs @ [v]) (p, m)) = (snd (fold push_word vs (p, m)))(?q - 4 := v)"
    by (simp add: push_word_def)
  have u: "unat (word_of_nat (4 * ?n + 4) :: u32) = 4 * ?n + 4" using snoc.prems by (intro unat_of_nat32) simp
  have hit: "a = ?q - 4 \<longleftrightarrow> unat (p - a) = 4 * ?n + 4"
  proof -
    have "a = ?q - 4 \<longleftrightarrow> p - a = word_of_nat (4 * ?n + 4)" by (auto simp: algebra_simps)
    then show ?thesis by (simp only: word_eq_unat u)
  qed
  have IH: "snd (fold push_word vs (p, m)) a = (let off = unat (p - a) in
      if 0 < off \<and> off \<le> 4 * ?n \<and> 4 dvd off then vs ! (off div 4 - 1) else m a)"
    using snoc by simp
  show ?case
  proof (cases "a = ?q - 4")
    case True
    then show ?thesis unfolding eq using hit u by simp
  next
    case False
    have "off \<le> 4 * ?n" if "off \<le> 4 * ?n + 4" "4 dvd off" "off \<noteq> 4 * ?n + 4" for off
    proof -
      from that(2) obtain q where "off = 4 * q" by (elim dvdE)
      with that show ?thesis by simp
    qed
    with False hit IH show ?thesis unfolding eq by (auto simp: Let_def nth_append)
  qed
qed

lemma fill_outside:
  assumes "unat b + 4 * unat w < 4294967296" and "t = b + 4 * w" and "a \<notin> byte_range b t"
  shows "for_upto (stack_words_of b t) (\<lambda>i m. m(b + 4 * i := JRT_TASK_STACK_FILL)) m a = m a"
proof -
  have w: "stack_words_of b t = w"
  proof -
    have "unat (4 * w) = 4 * unat w" using assms(1) unat_mult_small [of 4 w] by simp
    then show ?thesis by (simp add: stack_words_of_def assms(2) word_eq_unat unat_div32)
  qed
  show ?thesis
    unfolding w
  proof (rule for_upto_invariant [where P = "\<lambda>m'. m' a = m a"])
    fix i m' assume i: "i < w" and P: "m' a = m a"
    have 4: "unat (4 * i) = 4 * unat i" "unat (4 * w) = 4 * unat w"
      using assms(1) i unat_mult_small [of 4 i] unat_mult_small [of 4 w] by (simp_all add: word_less_unat)
    then have "unat (b + 4 * i) = unat b + 4 * unat i" "unat t = unat b + 4 * unat w"
      using assms(1) i unat_add_small [of b "4 * i"] unat_add_small [of b "4 * w"] by (simp_all add: word_less_unat assms(2))
    with i have "b + 4 * i \<in> byte_range b t" by (simp add: byte_range_def word_le_unat word_less_unat)
    with assms(3) P show "(m'(b + 4 * i := JRT_TASK_STACK_FILL)) a = m a" by auto
  qed simp
qed

lemma stack_image_outside:
  assumes "unat b + 4 * unat w < 4294967296" and "t = b + 4 * w" and "17 \<le> unat w" and "a \<notin> byte_range b t"
  shows "stack_image x b t e arg m a = m a"
proof -
  have t: "unat t = unat b + 4 * unat w"
    using assms(1) unat_mult_small [of 4 w] unat_add_small [of b "4 * w"] by (simp add: assms(2))
  have "\<not> (0 < unat (t - a) \<and> unat (t - a) \<le> 68)"
  proof
    assume off: "0 < unat (t - a) \<and> unat (t - a) \<le> 68"
    have "t - (t - a) = a" by simp
    moreover have "t - a \<le> t" using off t assms(3) by (simp add: word_le_unat)
    ultimately have "unat a = unat t - unat (t - a)" by (metis unat_sub32)
    with off t assms(3) have "unat b \<le> unat a" "unat a < unat t" by linarith+
    with assms(4) show False by (simp add: byte_range_def word_le_unat word_less_unat)
  qed
  then show ?thesis
    using fill_outside [OF assms(1,2,4)] push_mem [of "frame_words x e arg"]
    by (auto simp: stack_image_def Let_def)
qed

lemma stack_image_frame:
  assumes "j < 17"
  shows "stack_image x b t e arg m (t - 68 + 4 * word_of_nat j) = rev (frame_words x e arg) ! j"
proof -
  define a where "a = t - 68 + 4 * word_of_nat j"
  have "t - a = word_of_nat (68 - 4 * j)" using assms by (simp add: a_def of_nat_diff)
  then have off: "unat (t - a) = 68 - 4 * j"
    by (simp only:) (rule unat_of_nat32, simp)
  have d: "4 dvd 68 - 4 * j" by (rule dvd_diff_nat) simp_all
  have "(68 - 4 * j) div 4 - 1 = 16 - j" by simp
  then have "snd (fold push_word (frame_words x e arg) (t, m')) a = frame_words x e arg ! (16 - j)" for m'
    using assms d by (subst push_mem) (simp_all add: Let_def off)
  then show ?thesis using assms by (simp add: stack_image_def rev_nth a_def)
qed

text \<open>The frame from which the first switch to a task starts it.\<close>

definition frame_ok :: "addr \<Rightarrow> task_t \<Rightarrow> (addr \<Rightarrow> u32) \<Rightarrow> bool" where
  "frame_ok exit_trap task m \<longleftrightarrow>
     (\<forall>j<17. m (t_sp task + 4 * word_of_nat j) = rev (frame_words exit_trap (t_entry task) (t_argument task)) ! j)"

definition good_stack :: "addr \<Rightarrow> u32 \<Rightarrow> bool" where
  "good_stack b w \<longleftrightarrow> unat b + 4 * unat w < 4294967296 \<and> 17 \<le> unat w \<and> 4 dvd unat b"

lemma good_stack_top: "good_stack b w \<Longrightarrow> unat (b + 4 * w) = unat b + 4 * unat w"
  using unat_mult_small [of 4 w] unat_add_small [of b "4 * w"] by (simp add: good_stack_def)

lemma frame_slot:
  assumes "good_stack b w" and "j < 17"
  shows "b + 4 * w - 68 + 4 * word_of_nat j \<in> byte_range b (b + 4 * w)"
proof -
  let ?t = "b + 4 * w" and ?d = "word_of_nat (68 - 4 * j) :: u32"
  note t = good_stack_top [OF assms(1)]
  have d: "unat ?d = 68 - 4 * j" by (rule unat_of_nat32) simp
  have "68 - 4 * j \<le> unat ?t" using assms(1) unfolding good_stack_def t by linarith
  then have "?d \<le> ?t" by (simp only: word_le_unat d)
  then have "unat (?t - ?d) = unat ?t - (68 - 4 * j)" by (simp add: unat_sub32 d)
  moreover have "?t - ?d = ?t - 68 + 4 * word_of_nat j" using assms(2) by (simp add: of_nat_diff)
  ultimately have "unat (?t - 68 + 4 * word_of_nat j) = unat b + 4 * unat w - (68 - 4 * j)" by (simp only: t)
  with assms show ?thesis unfolding byte_range_def mem_Collect_eq word_le_unat word_less_unat t good_stack_def by linarith
qed

lemma frame_ok_cong:
  assumes "good_stack b w" and "\<And>a. a \<in> byte_range b (b + 4 * w) \<Longrightarrow> m' a = m a" and "t_sp task = b + 4 * w - 68"
  shows "frame_ok x task m' = frame_ok x task m"
  using assms(2) [OF frame_slot [OF assms(1)]] by (simp add: frame_ok_def assms(3))

lemma frame_ok_image:
  assumes "t_sp task = t - 68" shows "frame_ok x task (stack_image x b t (t_entry task) (t_argument task) m)"
  using assms by (simp add: frame_ok_def stack_image_frame)

text \<open>Building a disjoint stack keeps a frame.\<close>

lemma frame_ok_other:
  assumes "good_stack b w" and "good_stack b' w'" and "byte_range b (b + 4 * w) \<inter> byte_range b' (b' + 4 * w') = {}"
    and "t_sp task = b + 4 * w - 68"
  shows "frame_ok x task (stack_image x b' (b' + 4 * w') e arg m) = frame_ok x task m"
proof (rule frame_ok_cong [OF assms(1) _ assms(4)])
  fix a assume "a \<in> byte_range b (b + 4 * w)"
  then have "a \<notin> byte_range b' (b' + 4 * w')" using assms(3) by blast
  with assms(2) show "stack_image x b' (b' + 4 * w') e arg m a = m a"
    by (intro stack_image_outside [of b' w']) (simp_all add: good_stack_def)
qed

section \<open>The state after the preparation\<close>

text \<open>What the benchmark and the MPU setup leave alone.\<close>

definition init_part where
  "init_part s = (cfg s, tasks s, mem32 s, task_count s, application_task_count s, mutexes s, mutex_list s,
     timers s, timer_list s, g_kernel_ticks s, timer_service_task_index s, current_task s, g_current_task_index s)"

lemma init_part_benchmark: "init_part (task_benchmark_init n ds m s) = init_part s"
proof -
  have set: "init_part (set_record i r u) = init_part u" for i r u by (simp add: init_part_def set_record_def)
  have loop: "init_part (for_upto k (\<lambda>i s. set_record i (F i s) s) u) = init_part u" for k F u
    by (rule for_upto_frame) (rule set)
  have "init_part (arch_cycle_counter_init s) = init_part s"
    by (simp add: init_part_def arch_cycle_counter_init_def write_reg_def Let_def)
  moreover have "init_part (u\<lparr>benchmark_initialized := x\<rparr>) = init_part u" "init_part (u\<lparr>benchmark_task_count := y\<rparr>) = init_part u"
    "init_part (u\<lparr>benchmark_cycle_frequency_hz := y\<rparr>) = init_part u" "init_part (u\<lparr>benchmark_cycle_counter_available := y\<rparr>) = init_part u"
    for u :: kstate and x y by (simp_all add: init_part_def)
  ultimately show ?thesis by (simp add: task_benchmark_init_def Let_def loop)
qed

lemma configure_regions_part: "configure_regions rs s = Inr t \<Longrightarrow> init_part t = init_part s"
proof (induction rs s rule: configure_regions.induct)
  case (2 region start end_addr attributes rs s)
  have "init_part u = init_part s" if "configure_region_range region start end_addr attributes s = Inr u" for u
    using that by (auto simp: configure_region_range_def disable_region_def write_region_def init_part_def
        split: if_splits option.splits)
  with 2 show ?case by (auto split: sum.splits)
qed simp

lemma install_regions_part: "install_task_regions g b n s = Inr t \<Longrightarrow> init_part t = init_part s"
  by (auto simp: install_task_regions_def arch_set_task_private_data_def program_private_region_def
      arch_set_task_stack_guard_def write_region_def init_part_def Let_def split: sum.splits if_splits option.splits)

lemma init_part_arch [simp]:
  "init_part (write_reg r v s) = init_part s" "init_part (reset_mpu_diagnostics s) = init_part s"
  "init_part (disable_region i s) = init_part s"
  by (simp_all add: init_part_def write_reg_def reset_mpu_diagnostics_def disable_region_def)

lemma configure_mpu_part: "arch_configure_mpu g b n s = Inr t \<Longrightarrow> init_part t = init_part s"
proof (cases "JRT_ARCH_HAS_MPU (cfg s) \<noteq> 0")
  case True
  define u where "u = for_upto 16 disable_region (write_reg SCB_SHCSR (mmio (write_reg MPU_CTRL 0 s) SCB_SHCSR OR push_bit 16 1) (write_reg MPU_CTRL 0 s))"
  have u: "init_part u = init_part s" unfolding u_def by (subst for_upto_frame [of init_part]) simp_all
  assume "arch_configure_mpu g b n s = Inr t"
  then have "(case configure_memory_regions u of Inl s \<Rightarrow> Inl s
      | Inr s \<Rightarrow> (case install_task_regions g b n (reset_mpu_diagnostics s) of Inl s \<Rightarrow> Inl s
         | Inr s \<Rightarrow> Inr (write_reg MPU_CTRL (1 OR 4) s))) = (Inr t :: kstate halting)"
    using True unfolding arch_configure_mpu_def u_def Let_def by simp
  then obtain v w where "configure_memory_regions u = Inr v" "install_task_regions g b n (reset_mpu_diagnostics v) = Inr w"
    "t = write_reg MPU_CTRL (1 OR 4) w" by (auto split: sum.splits)
  then show ?thesis
    using u configure_regions_part [of _ u v] install_regions_part [of g b n _ w]
    unfolding configure_memory_regions_def Let_def by (metis init_part_arch(1,2))
next
  case False
  moreover assume "arch_configure_mpu g b n s = Inr t"
  ultimately show ?thesis using install_regions_part [of g b n _ t] by (simp add: arch_configure_mpu_def)
qed

definition app_task :: "JRT_TaskDefinition_t \<Rightarrow> task_t \<Rightarrow> task_t" where
  "app_task d = prepared (d_stack_buffer d) (d_stack_buffer d + 4 * d_stack_words d) (d_entry d) (d_argument d)
     (d_priority d) (d_name d) (d_flags d) (d_private_data_base d) (d_private_data_size d)"

definition app_image :: "addr \<Rightarrow> JRT_TaskDefinition_t \<Rightarrow> (addr \<Rightarrow> u32) \<Rightarrow> addr \<Rightarrow> u32" where
  "app_image x d = stack_image x (d_stack_buffer d) (d_stack_buffer d + 4 * d_stack_words d) (d_entry d) (d_argument d)"

definition internal_image :: "addr \<Rightarrow> addr \<Rightarrow> u32 \<Rightarrow> addr \<Rightarrow> (addr \<Rightarrow> u32) \<Rightarrow> addr \<Rightarrow> u32" where
  "internal_image x storage words entry = stack_image x (internal_stack storage) (internal_end storage words) entry 0"

lemma prepare_loop:
  "for_upto n (\<lambda>i. prepare_task i (ds i)) s = s\<lparr>
     tasks := (\<lambda>i. if i < n then app_task (ds i) (tasks s i) else tasks s i),
     mem32 := for_upto n (\<lambda>i. app_image (ld_task_exit_trap (cfg s)) (ds i)) (mem32 s)\<rparr>"
proof -
  have "fold (\<lambda>i. prepare_task i (ds i)) xs s = s\<lparr>
      tasks := fold (\<lambda>i h. h(i := app_task (ds i) (h i))) xs (tasks s),
      mem32 := fold (\<lambda>i. app_image (ld_task_exit_trap (cfg s)) (ds i)) xs (mem32 s)\<rparr>" for xs
    by (induction xs arbitrary: s) (simp_all add: prepare_task_eq app_task_def app_image_def)
  then show ?thesis
    using for_upto_fun_upd [of n "\<lambda>i. app_task (ds i)" "tasks s"] by (simp add: for_upto_def)
qed

lemma prepare_tasks_fields:
  fixes s :: kstate and k :: JRT_KernelConfig_t
  defines "t \<equiv> prepare_tasks k s" and "n \<equiv> k_task_count k" and "c \<equiv> cfg s"
  assumes few: "unat (k_task_count k) + 2 < 4294967296"
  shows "tasks t = (\<lambda>i. if i < n then app_task (k_tasks k i) (tasks s i) else tasks s i)
      (n := service_task c (g_kernel_ticks s) (tasks s n), n + 1 := idle_task c (tasks s (n + 1)))"
    and "mem32 t = internal_image (ld_task_exit_trap c) (ld_idle_task_storage c) (JRT_IDLE_STACK_WORDS c) (ld_idle_body c)
      (internal_image (ld_task_exit_trap c) (ld_timer_service_task_storage c) (JRT_TIMER_SERVICE_STACK_WORDS c) (ld_timer_service_body c)
        (for_upto n (\<lambda>i. app_image (ld_task_exit_trap c) (k_tasks k i)) (mem32 s)))"
    and "task_count t = n + 2" and "application_task_count t = n" and "timer_service_task_index t = n" and "cfg t = c"
    and "mutexes t = mutexes s" and "mutex_list t = mutex_list s" and "timers t = timers s" and "timer_list t = timer_list s"
proof -
  define u where "u = task_benchmark_init (n + 2) (k_tasks k) n (s\<lparr>application_task_count := n, task_count := n + 2\<rparr>)"
  have "init_part u = init_part (s\<lparr>application_task_count := n, task_count := n + 2\<rparr>)"
    unfolding u_def by (rule init_part_benchmark)
  then have u: "cfg u = c" "tasks u = tasks s" "mem32 u = mem32 s" "task_count u = n + 2" "application_task_count u = n"
    "mutexes u = mutexes s" "mutex_list u = mutex_list s" "timers u = timers s" "timer_list u = timer_list s"
    "g_kernel_ticks u = g_kernel_ticks s"
    by (simp_all add: init_part_def c_def)
  have u1: "unat (n + 1) = Suc (unat n)" using few unat_suc_small [of n] by (simp add: n_def)
  have ne: "n + 1 \<noteq> n" "\<not> n + 1 < n" by (simp_all only: word_less_unat word_eq_unat u1)
  have "n + 2 - 1 = n + 1" by simp
  note ne = ne this
  define v where "v = for_upto n (\<lambda>i. prepare_task i (k_tasks k i)) u"
  have v: "cfg v = c" "tasks v = (\<lambda>i. if i < n then app_task (k_tasks k i) (tasks s i) else tasks s i)"
    "mem32 v = for_upto n (\<lambda>i. app_image (ld_task_exit_trap c) (k_tasks k i)) (mem32 s)" "task_count v = n + 2"
    "application_task_count v = n" "mutexes v = mutexes s" "mutex_list v = mutex_list s" "timers v = timers s"
    "timer_list v = timer_list s" "g_kernel_ticks v = g_kernel_ticks s"
    by (simp_all add: v_def prepare_loop u cong: if_cong)
  obtain rec where r: "prepare_timer_service_task n v = v\<lparr>timer_service_task_index := n, benchmark_records := rec,
     tasks := (tasks v)(n := service_task (cfg v) (g_kernel_ticks v) (tasks v n)),
     mem32 := stack_image (ld_task_exit_trap (cfg v)) (internal_stack (ld_timer_service_task_storage (cfg v)))
       (internal_end (ld_timer_service_task_storage (cfg v)) (JRT_TIMER_SERVICE_STACK_WORDS (cfg v)))
       (ld_timer_service_body (cfg v)) 0 (mem32 v)\<rparr>"
    using prepare_timer_service_task_eq by blast
  have t: "t = prepare_idle_task (prepare_timer_service_task n v)"
    by (simp add: t_def prepare_tasks_def Let_def u_def v_def n_def)
  show "task_count t = n + 2" "application_task_count t = n" "timer_service_task_index t = n" "cfg t = c"
    "mutexes t = mutexes s" "mutex_list t = mutex_list s" "timers t = timers s" "timer_list t = timer_list s"
    unfolding t r prepare_idle_task_eq by (simp_all add: v)
  show "mem32 t = internal_image (ld_task_exit_trap c) (ld_idle_task_storage c) (JRT_IDLE_STACK_WORDS c) (ld_idle_body c)
      (internal_image (ld_task_exit_trap c) (ld_timer_service_task_storage c) (JRT_TIMER_SERVICE_STACK_WORDS c) (ld_timer_service_body c)
        (for_upto n (\<lambda>i. app_image (ld_task_exit_trap c) (k_tasks k i)) (mem32 s)))"
    unfolding t r prepare_idle_task_eq by (simp add: v internal_image_def)
  show "tasks t = (\<lambda>i. if i < n then app_task (k_tasks k i) (tasks s i) else tasks s i)
      (n := service_task c (g_kernel_ticks s) (tasks s n), n + 1 := idle_task c (tasks s (n + 1)))"
    unfolding t r prepare_idle_task_eq using ne(1,2) by (simp add: v add.commute [of n 1])
qed

section \<open>Properties of the initialisation\<close>

lemma task_total_small:
  assumes "config_checks c" and "n \<le> JRT_MAX_APPLICATION_TASKS c"
  shows "unat n + 3 < 4294967296" and "\<not> n + JRT_INTERNAL_TASK_COUNT > JRT_MAX_SCHEDULER_TASKS c"
proof -
  have "\<not> JRT_MAX_APPLICATION_TASKS c > UINT32_MAX - 3" using assms(1) by (simp add: config_checks_def)
  then have "unat (JRT_MAX_APPLICATION_TASKS c) \<le> 4294967292" by (simp add: word_less_unat)
  then show n: "unat n + 3 < 4294967296" using assms(2) by (simp add: word_le_unat)
  have "unat (n + 2) = unat n + 2" using n unat_add_small [of n 2] by simp
  moreover have "unat (JRT_MAX_SCHEDULER_TASKS c) = unat (JRT_MAX_APPLICATION_TASKS c) + 3"
    using \<open>unat (JRT_MAX_APPLICATION_TASKS c) \<le> 4294967292\<close> unat_add_small [of "JRT_MAX_APPLICATION_TASKS c" 3]
    by (simp add: JRT_MAX_SCHEDULER_TASKS_def)
  ultimately show "\<not> n + JRT_INTERNAL_TASK_COUNT > JRT_MAX_SCHEDULER_TASKS c"
    using assms(2) by (simp add: word_less_unat word_le_unat)
qed

lemma init_commit_status: "init_commit k s = Inr (st, t) \<Longrightarrow> st = JRT_STATUS_OK \<and> kernel_initialized t = 1"
  by (auto simp: init_commit_def Let_def split: sum.splits)

lemma init_commit_without_mpu:
  assumes "JRT_ARCH_HAS_MPU (cfg s) = 0" and "unat (k_task_count k) + 2 < 4294967296"
  shows "\<exists>t. init_commit k s = Inr (JRT_STATUS_OK, t)"
  using assms prepare_tasks_fields(6) [of k s]
  by (simp add: init_commit_def Let_def arch_configure_mpu_def clear_kernel_counters_def install_task_regions_def
      arch_set_task_private_data_def program_private_region_def reset_mpu_diagnostics_def)

lemma kernel_init_cases:
  assumes "config_checks (cfg s)" and "linked_storage (cfg s)" and "p \<noteq> NULL"
  shows "if accepts (cfg s) k then JRT_KernelInit p k s = init_commit k s
    else \<exists>st. st \<noteq> JRT_STATUS_OK \<and> JRT_KernelInit p k s = Inr (st, s)"
proof (cases "accepts (cfg s) k")
  case True
  then have "\<not> k_task_count k + JRT_INTERNAL_TASK_COUNT > JRT_MAX_SCHEDULER_TASKS (cfg s)"
    using task_total_small [OF assms(1)] by (simp add: accepts_def)
  with True show ?thesis
    unfolding accepts_validation [OF assms(2)]
    by (simp add: JRT_KernelInit_def Let_def assms(3))
next
  case False
  then show ?thesis
    unfolding accepts_validation [OF assms(2)] using assms(3) by (auto simp: JRT_KernelInit_def Let_def)
qed


text \<open>Two tasks: the second is unprivileged and has a private region of 64 bytes.\<close>

definition task_a :: JRT_TaskDefinition_t where
  "task_a = \<lparr>d_entry = 0x8001, d_argument = 7, d_stack_buffer = 0x20004020, d_stack_words = 64,
     d_stack_guard = 0x20004000, d_priority = 3, d_name = ''a'', d_flags = 0, d_private_data_base = 0,
     d_private_data_size = 0, d_benchmark_period_ticks = 0\<rparr>"

definition task_b :: JRT_TaskDefinition_t where
  "task_b = \<lparr>d_entry = 0x9001, d_argument = 0, d_stack_buffer = 0x20005020, d_stack_words = 32,
     d_stack_guard = 0x20005000, d_priority = 2, d_name = ''b'', d_flags = 1, d_private_data_base = 0x20008040,
     d_private_data_size = 64, d_benchmark_period_ticks = 0\<rparr>"

definition two_tasks :: JRT_KernelConfig_t where
  "two_tasks = \<lparr>k_tasks_ptr = 0x100, k_tasks = (\<lambda>i. if i = 0 then task_a else task_b), k_task_count = 2\<rparr>"

lemma below_two_cases: "i < (2 :: u32) \<longleftrightarrow> i = 0 \<or> i = 1"
  using unat_lt32 [of i] by (auto simp: word_less_unat word_eq_unat)

lemma linked_default: "linked_storage default_config"
  by (simp add: linked_storage_def placed_def default_config_def)

lemma two_tasks_accepted: "accepts default_config two_tasks"
proof -
  have "indices 2 = [0, 1]" by (simp add: indices_def upt_conv_Cons)
  then show ?thesis
    unfolding accepts_validation [OF linked_default]
    by (simp add: two_tasks_def task_a_def task_b_def default_config_def validate_task_stack_def Let_def
        JRT_MINIMUM_TASK_STACK_WORDS_def stack_end_def stack_conflict_def stack_start_def indices_def
        validate_private_region_def private_conflict_def private_end_def ranges_overlap_def internal_stack_def)
qed


lemma kernel_init_ok:
  assumes "config_checks (cfg s)" and "linked_storage (cfg s)" and "JRT_KernelInit p k s = Inr (JRT_STATUS_OK, t)"
  shows "accepts (cfg s) k"
    and "tasks t = (tasks (prepare_tasks k s))(0 := running (tasks (prepare_tasks k s) 0))"
    and "init_part t = init_part (clear_kernel_counters (prepare_tasks k s)\<lparr>tasks := tasks t\<rparr>)"
    and "kernel_initialized t = 1"
proof -
  have p: "p \<noteq> NULL" using assms(3) by (auto simp: JRT_KernelInit_def split: if_splits)
  show acc: "accepts (cfg s) k" using kernel_init_cases [OF assms(1,2) p, of k] assms(3) by (auto split: if_splits)
  define u where "u = clear_kernel_counters (prepare_tasks k s)"
  have u: "tasks u = tasks (prepare_tasks k s)" "current_task u = 0" by (simp_all add: u_def clear_kernel_counters_def)
  have "init_commit k s = Inr (JRT_STATUS_OK, t)"
    using kernel_init_cases [OF assms(1,2) p, of k] acc assms(3) by simp
  then obtain v where v: "init_part v = init_part u"
    and t: "t = (set_task (current_task v) (running (tasks v (current_task v))) v)\<lparr>kernel_initialized := 1\<rparr>"
    unfolding init_commit_def Let_def running_def u_def by (auto split: sum.splits dest!: configure_mpu_part)
  then have "tasks v = tasks u" "current_task v = 0" using u by (simp_all add: init_part_def)
  then show "tasks t = (tasks (prepare_tasks k s))(0 := running (tasks (prepare_tasks k s) 0))"
    by (simp add: t set_task_def u)
  show "init_part t = init_part (clear_kernel_counters (prepare_tasks k s)\<lparr>tasks := tasks t\<rparr>)"
    using v by (simp add: init_part_def t set_task_def u_def)
  show "kernel_initialized t = 1" by (simp add: t)
qed

lemma minimum_words: "JRT_MINIMUM_TASK_STACK_WORDS c \<le> w \<Longrightarrow> 17 \<le> w"
  by (rule order_trans [of _ "JRT_MINIMUM_TASK_STACK_WORDS c"]) (simp_all add: JRT_MINIMUM_TASK_STACK_WORDS_def)

lemma internal_good_stack:
  assumes "placed storage w" and "stack_words_check c w"
  shows "good_stack (internal_stack storage) w" and "internal_end storage w = internal_stack storage + 4 * w"
proof -
  have "17 \<le> w" using minimum_words [of c w] assms(2) by (simp add: stack_words_check_def not_less)
  moreover have "4 dvd unat storage" using assms(1) dvd_trans [of 4 32 "unat storage"] by (simp add: placed_def)
  ultimately show "good_stack (internal_stack storage) w"
    using assms(1) placed_nat(1) [OF assms(1)] by (simp add: good_stack_def placed_def word_le_unat)
  show "internal_end storage w = internal_stack storage + 4 * w" by (simp add: internal_end_def)
qed

lemma app_good_stack:
  assumes "stack_fits c d"
  shows "good_stack (d_stack_buffer d) (d_stack_words d)" and "stack_end d = d_stack_buffer d + 4 * d_stack_words d"
    and "byte_range (d_stack_buffer d) (d_stack_buffer d + 4 * d_stack_words d) \<subseteq> stack_bytes d"
proof -
  have "17 \<le> d_stack_words d" using minimum_words [of c] assms by (simp add: stack_fits_def)
  moreover have "4 dvd unat (d_stack_buffer d)"
  proof -
    have "32 dvd unat (d_stack_buffer d)" using assms by (simp add: stack_fits_def)
    then show ?thesis by (rule dvd_trans [rotated]) simp
  qed
  ultimately show "good_stack (d_stack_buffer d) (d_stack_words d)"
    using assms by (simp add: good_stack_def stack_fits_def word_le_unat)
  show "stack_end d = d_stack_buffer d + 4 * d_stack_words d" by (simp add: stack_end_def mult.commute)
  then show "byte_range (d_stack_buffer d) (d_stack_buffer d + 4 * d_stack_words d) \<subseteq> stack_bytes d"
    using stack_end_nat(3) [OF assms] by (auto simp: byte_range_def stack_bytes_def)
qed

text \<open>A task whose stack pointer is inside its stack and whose initial frame is in memory.\<close>

definition ready_to_start :: "addr \<Rightarrow> (addr \<Rightarrow> u32) \<Rightarrow> task_t \<Rightarrow> bool" where
  "ready_to_start x m task \<longleftrightarrow> stack_pointer_ok task (t_sp task)
     \<and> unat (t_sp task) + 68 = unat (t_stack_top task) \<and> frame_ok x task m"

lemma ready_to_startI:
  assumes "good_stack b w" and "t_stack_bottom task = b" and "t_stack_top task = b + 4 * w" and "t_sp task = b + 4 * w - 68"
    and "frame_ok x task m"
  shows "ready_to_start x m task"
proof -
  note t = good_stack_top [OF assms(1)]
  have g: "17 \<le> unat w" "4 dvd unat b" using assms(1) by (simp_all add: good_stack_def)
  then have "68 \<le> b + 4 * w" by (simp add: word_le_unat t)
  then have sp: "unat (b + 4 * w - 68) = unat b + 4 * unat w - 68" by (simp add: unat_sub32 t)
  have "4 dvd unat b + 4 * unat w - 68" using g(2) by (intro dvd_diff_nat) simp_all
  then have "(b + 4 * w - 68) AND 3 = 0" using and_low_mask [of 2 "b + 4 * w - 68"] by (simp add: sp)
  with assms g show ?thesis by (simp add: ready_to_start_def stack_pointer_ok_def word_le_unat sp t)
qed

text \<open>The linker keeps the kernel's stacks apart from each other, and the application's from them.\<close>

definition stacks_linked_apart :: "jrt_config \<Rightarrow> JRT_KernelConfig_t \<Rightarrow> bool" where
  "stacks_linked_apart c k \<longleftrightarrow>
     (\<forall>i < k_task_count k. stack_bytes (k_tasks k i) \<inter> internal_bytes c = {})
   \<and> byte_range (ld_timer_service_task_storage c) (internal_end (ld_timer_service_task_storage c) (JRT_TIMER_SERVICE_STACK_WORDS c))
     \<inter> byte_range (ld_idle_task_storage c) (internal_end (ld_idle_task_storage c) (JRT_IDLE_STACK_WORDS c)) = {}"

lemma app_loop_frames:
  assumes "\<And>i. i < n \<Longrightarrow> stack_fits c (ds i)"
    and "\<And>i j. i < n \<Longrightarrow> j < n \<Longrightarrow> i \<noteq> j \<Longrightarrow> stack_bytes (ds i) \<inter> stack_bytes (ds j) = {}"
    and "j < n"
  shows "frame_ok x (app_task (ds j) t) (for_upto n (\<lambda>i. app_image x (ds i)) m)"
proof -
  have "\<forall>j. unat j < unat n \<longrightarrow> frame_ok x (app_task (ds j) t) (for_upto n (\<lambda>i. app_image x (ds i)) m)"
  proof (rule for_upto_induct [where P = "\<lambda>k m. \<forall>j. unat j < k \<longrightarrow> frame_ok x (app_task (ds j) t) m"])
    fix k m'
    assume k: "k < unat n" "word_of_nat k < n" "unat (word_of_nat k :: u32) = k"
      and IH: "\<forall>j. unat j < k \<longrightarrow> frame_ok x (app_task (ds j) t) m'"
    let ?k = "word_of_nat k :: u32"
    show "\<forall>j. unat j < Suc k \<longrightarrow> frame_ok x (app_task (ds j) t) (app_image x (ds ?k) m')"
    proof (intro allI impI)
      fix j :: u32 assume j: "unat j < Suc k"
      show "frame_ok x (app_task (ds j) t) (app_image x (ds ?k) m')"
      proof (cases "j = ?k")
        case True
        show ?thesis unfolding True app_image_def
          using frame_ok_image [of "app_task (ds ?k) t" "d_stack_buffer (ds ?k) + 4 * d_stack_words (ds ?k)" x "d_stack_buffer (ds ?k)" m']
          by (simp add: app_task_def)
      next
        case False
        then have lt: "unat j < k" using j k(3) by (auto simp: less_Suc_eq word_eq_unat)
        then have jn: "j < n" using k(1) by (simp add: word_less_unat)
        have apart: "byte_range (d_stack_buffer (ds j)) (d_stack_buffer (ds j) + 4 * d_stack_words (ds j))
            \<inter> byte_range (d_stack_buffer (ds ?k)) (d_stack_buffer (ds ?k) + 4 * d_stack_words (ds ?k)) = {}"
          using app_good_stack(3) [OF assms(1) [OF jn]] app_good_stack(3) [OF assms(1) [OF k(2)]] assms(2) [OF jn k(2) False] by blast
        have "frame_ok x (app_task (ds j) t) (app_image x (ds ?k) m') = frame_ok x (app_task (ds j) t) m'"
          unfolding app_image_def
          by (rule frame_ok_other [OF app_good_stack(1) [OF assms(1) [OF jn]] app_good_stack(1) [OF assms(1) [OF k(2)]] apart])
            (simp add: app_task_def)
        with IH lt show ?thesis by simp
      qed
    qed
  qed simp
  with assms(3) show ?thesis by (simp add: word_less_unat)
qed

lemma internal_range_sub:
  "placed storage w \<Longrightarrow> byte_range (internal_stack storage) (internal_end storage w) \<subseteq> byte_range storage (internal_end storage w)"
  using placed_nat(1) [of storage w] by (auto simp: byte_range_def word_le_unat)

lemma frame_ok_running [simp]: "frame_ok x (running t) m = frame_ok x t m"
  by (simp add: frame_ok_def running_def)

lemma ready_to_start_running [simp]: "ready_to_start x m (running t) = ready_to_start x m t"
  by (simp add: ready_to_start_def stack_pointer_ok_def running_def frame_ok_def)

lemma below_plus_two:
  assumes "unat (n :: u32) + 2 < 4294967296" and "i < n + 2"
  shows "i < n \<or> i = n \<or> i = n + 1"
proof -
  have "unat (n + 2) = unat n + 2" "unat (n + 1) = unat n + 1"
    using assms(1) unat_add_small [of n 2] unat_add_small [of n 1] by simp_all
  with assms(2) show ?thesis by (auto simp: word_less_unat word_eq_unat)
qed

lemma init_ready_to_start:
  assumes "config_checks (cfg s)" and "linked_storage (cfg s)" and "stacks_linked_apart (cfg s) k"
    and "JRT_KernelInit p k s = Inr (JRT_STATUS_OK, t)" and "i < task_count t"
  shows "ready_to_start (ld_task_exit_trap (cfg s)) (mem32 t) (tasks t i)"
proof -
  define c n x where "c = cfg s" and "n = k_task_count k" and "x = ld_task_exit_trap c"
  let ?u = "prepare_tasks k s"
  note ok = kernel_init_ok [OF assms(1,2,4)]
  have acc: "accepts c k" using ok(1) by (simp add: c_def)
  then have small: "unat n + 2 < 4294967296"
    using task_total_small(1) [OF assms(1), of n] by (simp add: accepts_def c_def n_def)
  note f = prepare_tasks_fields [of k s, folded n_def c_def, OF small]
  have t: "mem32 t = mem32 ?u" "task_count t = n + 2"
    using ok(3) f(3) by (simp_all add: init_part_def clear_kernel_counters_def)
  have placed: "placed (ld_timer_service_task_storage c) (JRT_TIMER_SERVICE_STACK_WORDS c)"
      "placed (ld_idle_task_storage c) (JRT_IDLE_STACK_WORDS c)"
    using assms(2) by (simp_all add: linked_storage_def c_def)
  have words: "stack_words_check c (JRT_TIMER_SERVICE_STACK_WORDS c)" "stack_words_check c (JRT_IDLE_STACK_WORDS c)"
    using assms(1) by (simp_all add: config_checks_def c_def)
  let ?sb = "internal_stack (ld_timer_service_task_storage c)" and ?sw = "JRT_TIMER_SERVICE_STACK_WORDS c"
  let ?ib = "internal_stack (ld_idle_task_storage c)" and ?iw = "JRT_IDLE_STACK_WORDS c"
  note gs = internal_good_stack [OF placed(1) words(1)] and gi = internal_good_stack [OF placed(2) words(2)]
  note sub = internal_range_sub [OF placed(1), unfolded gs(2)] internal_range_sub [OF placed(2), unfolded gi(2)]
  have si: "byte_range ?sb (?sb + 4 * ?sw) \<inter> byte_range ?ib (?ib + 4 * ?iw) = {}"
    using assms(3) sub unfolding stacks_linked_apart_def c_def [symmetric] gs(2) gi(2) by blast
  let ?m = "for_upto n (\<lambda>i. app_image x (k_tasks k i)) (mem32 s)"
  have mem: "mem32 t = stack_image x ?ib (?ib + 4 * ?iw) (ld_idle_body c) 0
      (stack_image x ?sb (?sb + 4 * ?sw) (ld_timer_service_body c) 0 ?m)"
    by (simp add: t f(2) internal_image_def x_def gs(2) gi(2))
  have "ready_to_start x (mem32 t) (tasks ?u i)"
    using below_plus_two [OF small assms(5) [unfolded t(2)]]
  proof (elim disjE)
    assume i: "i < n"
    let ?d = "k_tasks k i"
    have fits: "stack_fits c (k_tasks k j)" if "j < n" for j using acc that by (simp add: accepts_def n_def)
    note g = app_good_stack [OF fits [OF i]]
    have task: "tasks ?u i = app_task ?d (tasks s i)" using i small unat_suc_small [of n] by (auto simp: f(1) word_less_unat)
    have "stack_bytes ?d \<inter> internal_bytes c = {}" using assms(3) i by (simp add: stacks_linked_apart_def c_def n_def)
    then have apart: "byte_range (d_stack_buffer ?d) (d_stack_buffer ?d + 4 * d_stack_words ?d) \<inter> byte_range ?sb (?sb + 4 * ?sw) = {}"
      "byte_range (d_stack_buffer ?d) (d_stack_buffer ?d + 4 * d_stack_words ?d) \<inter> byte_range ?ib (?ib + 4 * ?iw) = {}"
      using g(3) sub unfolding internal_bytes_def gs(2) gi(2) by blast+
    have sp: "t_sp (app_task ?d (tasks s i)) = d_stack_buffer ?d + 4 * d_stack_words ?d - 68" by (simp add: app_task_def)
    have "frame_ok x (app_task ?d (tasks s i)) ?m"
    proof (rule app_loop_frames [OF fits])
      show "stack_bytes (k_tasks k a) \<inter> stack_bytes (k_tasks k b) = {}" if "a < n" "b < n" "a \<noteq> b" for a b
        using acc that by (simp add: accepts_def n_def)
    qed (use i in simp_all)
    then have "frame_ok x (app_task ?d (tasks s i)) (mem32 t)"
      unfolding mem frame_ok_other [OF g(1) gi(1) apart(2) sp] frame_ok_other [OF g(1) gs(1) apart(1) sp] .
    then show ?thesis unfolding task by (intro ready_to_startI [OF g(1)]) (simp_all add: app_task_def)
  next
    assume i: "i = n"
    let ?t = "service_task c (g_kernel_ticks s) (tasks s n)"
    have task: "tasks ?u i = ?t" by (simp add: f(1) i)
    have ft: "t_sp ?t = ?sb + 4 * ?sw - 68" "t_entry ?t = ld_timer_service_body c" "t_argument ?t = 0"
      "t_stack_bottom ?t = ?sb" "t_stack_top ?t = ?sb + 4 * ?sw"
      by (simp_all add: service_task_def blocked_on_def gs(2))
    have "frame_ok x ?t (mem32 t)"
      unfolding mem frame_ok_other [OF gs(1) gi(1) si ft(1)] using frame_ok_image [OF ft(1)] by (simp add: ft)
    then show ?thesis unfolding task by (intro ready_to_startI [OF gs(1)]) (simp_all add: ft)
  next
    assume i: "i = n + 1"
    let ?t = "idle_task c (tasks s (n + 1))"
    have task: "tasks ?u i = ?t" by (simp add: f(1) i)
    have ft: "t_sp ?t = ?ib + 4 * ?iw - 68" "t_entry ?t = ld_idle_body c" "t_argument ?t = 0"
      "t_stack_bottom ?t = ?ib" "t_stack_top ?t = ?ib + 4 * ?iw"
      by (simp_all add: idle_task_def gi(2))
    have "frame_ok x ?t (mem32 t)" unfolding mem using frame_ok_image [OF ft(1)] by (simp add: ft)
    then show ?thesis unfolding task by (intro ready_to_startI [OF gi(1)]) (simp_all add: ft)
  qed
  then show ?thesis by (cases "i = 0") (simp_all add: ok(2) x_def c_def)
qed

text \<open>C11: every task starts from an intact frame: after a successful initialisation the saved stack
  pointer of every task, the kernel's own two included, is aligned and inside its stack, with exactly
  the seventeen words of its initial frame above it, and memory holds that frame: \<open>EXC_RETURN\<close>, cleared
  registers, the argument in \<open>r0\<close>, the exit trap as return address, the entry point and the Thumb bit.
  No later stack is filled over an earlier one.\<close>

theorem init_frames_intact:
  assumes "config_checks (cfg s)" and "linked_storage (cfg s)" and "stacks_linked_apart (cfg s) k"
    and "JRT_KernelInit p k s = Inr (JRT_STATUS_OK, t)" and "i < task_count t"
  shows "let task = tasks t i in stack_pointer_ok task (t_sp task) \<and> unat (t_sp task) + 68 = unat (t_stack_top task)
    \<and> map (\<lambda>j. mem32 t (t_sp task + 4 * word_of_nat j)) [0..<17] =
      [ARCH_INITIAL_EXC_RETURN, 0, 0, 0, 0, 0, 0, 0, 0, t_argument task, 0, 0, 0, 0,
       ld_task_exit_trap (cfg s) OR 1, t_entry task AND NOT 1, 0x01000000]"
proof -
  have r: "ready_to_start (ld_task_exit_trap (cfg s)) (mem32 t) (tasks t i)" by (rule init_ready_to_start [OF assms])
  let ?fr = "rev (frame_words (ld_task_exit_trap (cfg s)) (t_entry (tasks t i)) (t_argument (tasks t i)))"
  have "map (\<lambda>j. mem32 t (t_sp (tasks t i) + 4 * word_of_nat j)) [0..<17] = ?fr"
    by (rule nth_equalityI) (use r in \<open>simp_all add: ready_to_start_def frame_ok_def\<close>)
  also have "?fr = [ARCH_INITIAL_EXC_RETURN, 0, 0, 0, 0, 0, 0, 0, 0, t_argument (tasks t i), 0, 0, 0, 0,
       ld_task_exit_trap (cfg s) OR 1, t_entry (tasks t i) AND NOT 1, 0x01000000]"
    by (simp add: frame_words_def numeral_nat)
  finally show ?thesis using r unfolding Let_def ready_to_start_def by blast
qed

lemma effective_without_waiters:
  assumes "\<And>i. i < n \<Longrightarrow> \<not> blocked_on_mutex (ts i)"
  shows "effective_priority n ms ts j = t_base_priority (ts j)"
  unfolding effective_priority_def
  by (rule for_upto_invariant [where P = "\<lambda>e. e = t_base_priority (ts j)"]) (use assms in \<open>auto simp: waits_for_def\<close>)

lemma valid_private_fits: "private_fits c d \<Longrightarrow> valid_private_size (d_private_data_size d)"
proof -
  assume f: "private_fits c d"
  then obtain k where k: "unat (d_private_data_size d) = 2 ^ k" "32 \<le> (2 :: nat) ^ k" by (auto simp: private_fits_def)
  have "2 ^ 5 \<le> (2 :: nat) ^ k" using k(2) by simp
  then have "5 \<le> k" by (simp only: power_increasing_iff [of 2] one_less_numeral_iff semiring_norm)
  moreover have "2 ^ k < (2 :: nat) ^ 32" using unat_lt32 [of "d_private_data_size d"] k(1) by simp
  then have "k < 32" by (simp only: power_strict_increasing_iff)
  moreover have "d_private_data_size d = word_of_nat (unat (d_private_data_size d))" by simp
  then have "d_private_data_size d = 2 ^ k" by (simp only: k(1) of_nat_power of_nat_numeral)
  ultimately show ?thesis by (auto simp: valid_private_size_def)
qed

lemma init_task_cases:
  assumes "config_checks (cfg s)" and "linked_storage (cfg s)" and "JRT_KernelInit p k s = Inr (JRT_STATUS_OK, t)"
  defines "n \<equiv> k_task_count k"
  obtains "task_count t = n + 2" "current_task t = 0" "g_current_task_index t = 0" "application_task_count t = n"
    "timer_service_task_index t = n" "cfg t = cfg s" "mutexes t = mutexes s" "mutex_list t = mutex_list s"
    "timers t = timers s" "timer_list t = timer_list s" "0 < n" "unat n + 3 < 4294967296"
    "tasks t 0 = running (app_task (k_tasks k 0) (tasks s 0))"
    "\<And>i. 0 < i \<Longrightarrow> i < n \<Longrightarrow> tasks t i = app_task (k_tasks k i) (tasks s i)"
    "tasks t n = service_task (cfg s) (g_kernel_ticks s) (tasks s n)"
    "tasks t (n + 1) = idle_task (cfg s) (tasks s (n + 1))"
proof -
  let ?u = "prepare_tasks k s"
  note ok = kernel_init_ok [OF assms(1-3)]
  have small: "unat n + 3 < 4294967296" "0 < n"
    using ok(1) task_total_small(1) [OF assms(1), of n] by (simp_all add: accepts_def n_def)
  then have small2: "unat n + 2 < 4294967296" by simp
  note f = prepare_tasks_fields [of k s, folded n_def, OF small2]
  have u1: "unat (n + 1) = unat n + 1" using small unat_suc_small [of n] by simp
  have i1: "i \<noteq> n + 1" if "i < n" for i using that u1 by (auto simp: word_less_unat)
  have "n + 1 \<noteq> 0" using u1 by (auto simp: word_eq_unat)
  show thesis
  proof (rule that)
    show "task_count t = n + 2" "current_task t = 0" "g_current_task_index t = 0" "application_task_count t = n"
      "timer_service_task_index t = n" "cfg t = cfg s" "mutexes t = mutexes s" "mutex_list t = mutex_list s"
      "timers t = timers s" "timer_list t = timer_list s"
      using ok(3) f(3-10) by (simp_all add: init_part_def clear_kernel_counters_def)
    show "tasks t 0 = running (app_task (k_tasks k 0) (tasks s 0))" using small(2) i1 by (simp add: ok(2) f(1))
    show "tasks t i = app_task (k_tasks k i) (tasks s i)" if "0 < i" "i < n" for i
      using that i1 [of i] by (auto simp: ok(2) f(1))
    show "tasks t n = service_task (cfg s) (g_kernel_ticks s) (tasks s n)" using small(2) by (auto simp: ok(2) f(1))
    show "tasks t (n + 1) = idle_task (cfg s) (tasks s (n + 1))" using \<open>n + 1 \<noteq> 0\<close> by (simp add: ok(2) f(1))
  qed (use small in simp_all)
qed

lemma init_tasks_facts:
  assumes "config_checks (cfg s)" and "linked_storage (cfg s)" and "JRT_KernelInit p k s = Inr (JRT_STATUS_OK, t)"
    and ob: "ld_timer_service_wait_object (cfg s) \<noteq> NULL" and i: "i < task_count t"
  shows "task_invariant (tasks t i) = None" and "t_priority (tasks t i) = t_base_priority (tasks t i)"
    and "t_wait_kind (tasks t i) \<noteq> TASK_WAIT_MUTEX" and "valid_private_size (t_private_data_size (tasks t i))"
    and "t_state (tasks t i) = JRT_TASK_STATE_RUNNING \<longleftrightarrow> i = 0"
    and "t_state (tasks t i) = JRT_TASK_STATE_BLOCKED \<Longrightarrow> t_wait_kind (tasks t i) = TASK_WAIT_TIMER_SERVICE"
proof -
  let ?n = "k_task_count k"
  obtain T: "task_count t = ?n + 2" "0 < ?n" "unat ?n + 3 < 4294967296"
    "tasks t 0 = running (app_task (k_tasks k 0) (tasks s 0))"
    "\<And>i. 0 < i \<Longrightarrow> i < ?n \<Longrightarrow> tasks t i = app_task (k_tasks k i) (tasks s i)"
    "tasks t ?n = service_task (cfg s) (g_kernel_ticks s) (tasks s ?n)"
    "tasks t (?n + 1) = idle_task (cfg s) (tasks s (?n + 1))"
    by (rule init_task_cases [OF assms(1-3)], rule that)
  have acc: "valid_private_size (d_private_data_size (k_tasks k j))" if "j < ?n" for j
    using kernel_init_ok(1) [OF assms(1-3)] valid_private_fits that
    by (auto simp: accepts_def no_private_def valid_private_size_def)
  have ne: "?n + 1 \<noteq> 0" using T(3) unat_suc_small [of ?n] by (auto simp: word_eq_unat)
  have v0: "valid_private_size 0" by (simp add: valid_private_size_def)
  have "i = 0 \<or> 0 < i \<and> i < ?n \<or> i = ?n \<or> i = ?n + 1"
    using below_plus_two [of ?n i] i T(1,3) by (auto simp: word_neq_0_conv)
  then have "task_invariant (tasks t i) = None \<and> t_priority (tasks t i) = t_base_priority (tasks t i)
      \<and> t_wait_kind (tasks t i) \<noteq> TASK_WAIT_MUTEX \<and> valid_private_size (t_private_data_size (tasks t i))
      \<and> (t_state (tasks t i) = JRT_TASK_STATE_RUNNING \<longleftrightarrow> i = 0)
      \<and> (t_state (tasks t i) = JRT_TASK_STATE_BLOCKED \<longrightarrow> t_wait_kind (tasks t i) = TASK_WAIT_TIMER_SERVICE)"
  proof (elim disjE)
    assume "i = 0"
    then show ?thesis using T(2,4) acc [of 0] by (simp add: running_def app_task_def prepared_def task_invariant_def)
  next
    assume j: "0 < i \<and> i < ?n"
    then show ?thesis using T(5) [of i] acc [of i] by (auto simp: app_task_def prepared_def task_invariant_def)
  next
    assume "i = ?n"
    then show ?thesis using T(2,6) ob v0
      by (auto simp: service_task_def blocked_on_def prepared_def task_invariant_def less_task_wait_kind_t_def)
  next
    assume "i = ?n + 1"
    then show ?thesis using T(7) ne v0 by (simp add: idle_task_def prepared_def task_invariant_def)
  qed
  then show "task_invariant (tasks t i) = None" "t_priority (tasks t i) = t_base_priority (tasks t i)"
    "t_wait_kind (tasks t i) \<noteq> TASK_WAIT_MUTEX" "valid_private_size (t_private_data_size (tasks t i))"
    "t_state (tasks t i) = JRT_TASK_STATE_RUNNING \<longleftrightarrow> i = 0"
    "t_state (tasks t i) = JRT_TASK_STATE_BLOCKED \<Longrightarrow> t_wait_kind (tasks t i) = TASK_WAIT_TIMER_SERVICE" by blast+
qed

text \<open>The initialised kernel satisfies the invariants the rest of the development starts from:
  whatever ran before it, if the mutexes created so far are free and the timer list is consistent,
  exactly task 0 is RUNNING and both records name it, every task's wait data are consistent, priorities
  are exact, every private size is one the MPU can express, the service task waits for timers and
  the idle task is ready, so that a switch always finds a task to run.\<close>

theorem init_establishes_invariants:
  assumes "config_checks (cfg s)" and "linked_storage (cfg s)" and "JRT_MAX_APPLICATION_TASKS (cfg s) < 0x7FFFFFF0"
    and "ld_timer_service_wait_object (cfg s) \<noteq> NULL"
    and "mutexes_wf s" and "\<And>a. m_locked (mutexes s a) = 0"
    and "linked_timers s xs" and "timers_ok True (timers s) (set xs)"
    and "JRT_KernelInit p k s = Inr (JRT_STATUS_OK, t)"
  shows "scheduler_inv t \<and> kernel_wf t \<and> (\<forall>i < task_count t. t_state (tasks t i) = JRT_TASK_STATE_RUNNING \<longleftrightarrow> i = 0)
    \<and> timer_service_waiting t \<and> task_count t - 1 \<in> candidates t \<and> t_priority (tasks t (task_count t - 1)) = 0"
proof -
  let ?n = "k_task_count k"
  note init = assms(1,2,9)
  obtain T: "task_count t = ?n + 2" "current_task t = 0" "g_current_task_index t = 0"
    "timer_service_task_index t = ?n" "cfg t = cfg s" "mutexes t = mutexes s" "mutex_list t = mutex_list s"
    "timers t = timers s" "timer_list t = timer_list s" "0 < ?n" "unat ?n + 3 < 4294967296"
    "tasks t ?n = service_task (cfg s) (g_kernel_ticks s) (tasks s ?n)"
    "tasks t (?n + 1) = idle_task (cfg s) (tasks s (?n + 1))"
    by (rule init_task_cases [OF init], rule that)
  note F = init_tasks_facts [OF init assms(4)]
  have n2: "unat (?n + 2) = unat ?n + 2" using T(11) unat_add_small [of ?n 2] by simp
  have n1: "unat (?n + 1) = unat ?n + 1" using T(11) unat_suc_small [of ?n] by simp
  have "?n \<le> JRT_MAX_APPLICATION_TASKS (cfg s)" using kernel_init_ok(1) [OF init] by (simp add: accepts_def)
  then have "unat ?n < unat (0x7FFFFFF0 :: u32)" using assms(3) unfolding word_le_unat word_less_unat by linarith
  then have "task_count t < 0x80000000" unfolding T(1) word_less_unat n2 by simp
  moreover have "0 < task_count t" unfolding T(1) word_less_unat n2 by simp
  ultimately have "scheduler_inv t" using F(4,5) by (simp add: scheduler_inv_def T(2,3))
  moreover have "kernel_wf t"
  proof -
    have "tasks_wf t" using F(1) by (simp add: tasks_wf_def)
    moreover have "mutexes_wf t"
    proof -
      have "mutex_fault m (mutexes s a) = mutex_fault m' (mutexes s a)" for m m' a using assms(6) by (simp add: mutex_fault_def)
      then show ?thesis using assms(5) unfolding mutexes_wf_def linked_mutexes_def T(6,7) by metis
    qed
    moreover have "mutex_inv t"
    proof -
      have no: "\<not> blocked_on_mutex (tasks t i)" "\<not> waits_on ob TASK_WAIT_MUTEX (tasks t i)" if "i < task_count t" for i ob
        using F(3) [OF that] by (auto simp: blocked_on_mutex_def waits_on_def)
      have "exact_priorities t"
        unfolding exact_priorities_def exact_def using effective_without_waiters [OF no(1)] F(2) by auto
      then show ?thesis using no(2) assms(6) by (auto simp: mutex_inv_def kernel_waiters_def waiters_def T(6))
    qed
    moreover have "timer_inv t"
    proof (rule timer_invI [of _ xs])
      show "linked_timers t xs" using linked_timers_cong [of t s xs] assms(7) by (simp add: T(8,9))
      show "timers_ok (timer_service_waiting t) (timers t) (set xs)"
        using assms(8) by (auto simp: T(8) timers_ok_def)
    qed
    ultimately show ?thesis by (simp add: kernel_wf_def)
  qed
  moreover have "timer_service_waiting t"
    by (simp add: timer_service_waiting_def T(4,5,12) service_task_def)
  moreover have last: "task_count t - 1 = ?n + 1" by (simp add: T(1))
  moreover have "?n + 1 \<in> candidates t" "t_priority (tasks t (?n + 1)) = 0"
    unfolding candidates_def mem_Collect_eq T(1,13) word_less_unat n1 n2 by (simp_all add: idle_task_def)
  ultimately show ?thesis using F(5) unfolding last by blast
qed

lemma stacks_apart_two: "stacks_linked_apart default_config two_tasks"
  by (auto simp: stacks_linked_apart_def two_tasks_def task_a_def task_b_def below_two_cases default_config_def
      stack_bytes_def stack_start_def stack_end_def internal_bytes_def internal_end_def internal_stack_def byte_range_def
      split: if_splits) (simp_all add: word_le_unat word_less_unat)

lemma no_mpu_default: "JRT_ARCH_HAS_MPU default_config = 0" "JRT_MAX_APPLICATION_TASKS default_config = 7"
  "ld_timer_service_wait_object default_config \<noteq> NULL"
  by (simp_all add: default_config_def)

lemma two_tasks_init:
  obtains t where "JRT_KernelInit 0x40 two_tasks (reset_state default_config) = Inr (JRT_STATUS_OK, t)"
    "task_count t = 4"
proof -
  have c: "cfg (reset_state default_config) = default_config" by (simp add: reset_state_def)
  have "JRT_KernelInit 0x40 two_tasks (reset_state default_config) = init_commit two_tasks (reset_state default_config)"
    using kernel_init_cases [of "reset_state default_config" "0x40" two_tasks] two_tasks_accepted linked_default config_checks_default
    by (simp add: c)
  moreover obtain t where "init_commit two_tasks (reset_state default_config) = Inr (JRT_STATUS_OK, t)"
    using init_commit_without_mpu [of "reset_state default_config" two_tasks, unfolded c] no_mpu_default by (auto simp: two_tasks_def)
  ultimately have t: "JRT_KernelInit 0x40 two_tasks (reset_state default_config) = Inr (JRT_STATUS_OK, t)" by simp
  have "task_count t = k_task_count two_tasks + 2"
    by (rule init_task_cases [OF _ _ t]) (simp_all add: c linked_default config_checks_default)
  with t show thesis using that by (simp add: two_tasks_def)
qed

theorem init_frames_witness:
  "\<exists>t. JRT_KernelInit 0x40 two_tasks (reset_state default_config) = Inr (JRT_STATUS_OK, t)
     \<and> stack_pointer_ok (tasks t 1) (t_sp (tasks t 1))
     \<and> mem32 t (t_sp (tasks t 1) + 60) = t_entry (tasks t 1) AND NOT 1"
proof -
  have c: "cfg (reset_state default_config) = default_config" by (simp add: reset_state_def)
  obtain t where t: "JRT_KernelInit 0x40 two_tasks (reset_state default_config) = Inr (JRT_STATUS_OK, t)" "task_count t = 4"
    by (rule two_tasks_init)
  from init_frames_intact [OF _ _ _ t(1), unfolded c, OF config_checks_default linked_default stacks_apart_two, of 1] t(2)
  have r: "stack_pointer_ok (tasks t 1) (t_sp (tasks t 1))"
    and m: "map (\<lambda>j. mem32 t (t_sp (tasks t 1) + 4 * word_of_nat j)) [0..<17] =
      [ARCH_INITIAL_EXC_RETURN, 0, 0, 0, 0, 0, 0, 0, 0, t_argument (tasks t 1), 0, 0, 0, 0,
       ld_task_exit_trap default_config OR 1, t_entry (tasks t 1) AND NOT 1, 0x01000000]"
    by (simp_all add: Let_def)
  have "mem32 t (t_sp (tasks t 1) + 60) = map (\<lambda>j. mem32 t (t_sp (tasks t 1) + 4 * word_of_nat j)) [0..<17] ! 15" by simp
  also have "\<dots> = t_entry (tasks t 1) AND NOT 1" unfolding m by simp
  finally show ?thesis using t r by blast
qed

theorem init_establishes_witness:
  "\<exists>t. JRT_KernelInit 0x40 two_tasks (reset_state default_config) = Inr (JRT_STATUS_OK, t) \<and> scheduler_inv t \<and> kernel_wf t"
proof -
  define s where "s = reset_state default_config"
  have c: "cfg s = default_config" "mutex_list s = 0" "timer_list s = 0" "timers s = (\<lambda>_. zero_timer)" "m_locked (mutexes s a) = 0" for a
    by (simp_all add: reset_state_def s_def)
  obtain t where t: "JRT_KernelInit 0x40 two_tasks s = Inr (JRT_STATUS_OK, t)" "task_count t = 4"
    unfolding s_def by (rule two_tasks_init)
  have "mutexes_wf s" unfolding mutexes_wf_def by (rule exI [of _ "[]"]) (simp add: linked_mutexes_def c)
  moreover have "linked_timers s []" by (simp add: linked_timers_list c)
  moreover have "timers_ok True (timers s) (set [])" by (simp add: timers_ok_def c timer_fault_def zero_timer_def)
  ultimately have "scheduler_inv t \<and> kernel_wf t"
    using init_establishes_invariants [OF _ _ _ _ _ _ _ _ t(1), of "[]"] config_checks_default linked_default
    by (simp add: c no_mpu_default)
  with t(1) show ?thesis unfolding s_def by blast
qed

end
