(* ===== verification/JRT_System.thy ===== *)
theory JRT_System
  imports JRT_Quiet JRT_Init
begin

text \<open>
  The kernel as a transition system: one step per operation, interrupt, tick and context switch, in
  any order the hardware allows. The invariant of the whole kernel and the absence of lost wake-ups
  hold in every state reachable from a successful \<open>JRT_KernelInit\<close>.
\<close>

section \<open>Runs\<close>

text \<open>A transition relation with an invariant; what its runs keep.\<close>

locale invariant_system =
  fixes step :: "'s \<Rightarrow> 's \<Rightarrow> bool" and inv :: "'s \<Rightarrow> bool"
  assumes step_inv: "inv s \<Longrightarrow> step s t \<Longrightarrow> inv t"
begin

lemma run_inv: "step\<^sup>*\<^sup>* s t \<Longrightarrow> inv s \<Longrightarrow> inv t"
  by (induction rule: rtranclp_induct) (auto intro: step_inv)

text \<open>What only a step of kind \<open>Q\<close> can end holds until such a step.\<close>

lemma run_until:
  assumes keep: "\<And>s t. inv s \<Longrightarrow> P s \<Longrightarrow> step s t \<Longrightarrow> P t \<or> Q s t"
    and run: "step\<^sup>*\<^sup>* s t" and "inv s" "P s"
  shows "P t \<or> (\<exists>u v. step\<^sup>*\<^sup>* s u \<and> step u v \<and> Q u v \<and> step\<^sup>*\<^sup>* v t)"
  using run
proof (induction rule: rtranclp_induct)
  case base
  then show ?case using \<open>P s\<close> by blast
next
  case (step u t)
  from step.IH show ?case
  proof
    assume "P u"
    then have "P t \<or> Q u t" using keep run_inv [OF step.hyps(1) \<open>inv s\<close>] step.hyps(2) by blast
    then show ?case using step.hyps by blast
  next
    assume "\<exists>x y. step\<^sup>*\<^sup>* s x \<and> step x y \<and> Q x y \<and> step\<^sup>*\<^sup>* y u"
    then show ?case using step.hyps(2) rtranclp.rtrancl_into_rtrancl [of step _ u t] by blast
  qed
qed

end

section \<open>The invariant of the kernel\<close>

definition idle_index :: "kstate \<Rightarrow> u32" where
  "idle_index s = task_count s - 1"

text \<open>
  The scheduler's records agree, tasks, mutexes, priorities and timers are well-formed, and the idle
  task is never out of the way.
\<close>

definition kernel_ok :: "kstate \<Rightarrow> bool" where
  "kernel_ok s \<longleftrightarrow> scheduler_inv s \<and> kernel_wf s \<and> runnable (tasks s (idle_index s))
     \<and> unat (application_task_count s) + 2 = unat (task_count s)
     \<and> (\<forall>i < task_count s. task_address (cfg s) i \<noteq> NULL) \<and> ld_timer_service_wait_object (cfg s) \<noteq> NULL"

lemma unat_idle:
  assumes "kernel_ok s"
  shows "unat (idle_index s) + 1 = unat (task_count s)" and "unat (idle_index s) = unat (application_task_count s) + 1"
proof -
  have c: "unat (application_task_count s) + 2 = unat (task_count s)" using assms by (simp add: kernel_ok_def)
  then have "task_count s \<noteq> 0" by auto
  then have "unat (idle_index s) = unat (task_count s) - 1" unfolding idle_index_def by (rule unat_minus_one)
  then show "unat (idle_index s) + 1 = unat (task_count s)" "unat (idle_index s) = unat (application_task_count s) + 1"
    using c by linarith+
qed

lemma idle_below: "kernel_ok s \<Longrightarrow> idle_index s < task_count s"
  using unat_idle(1) [of s] by (simp add: word_less_unat)

lemma idle_not_application: "kernel_ok s \<Longrightarrow> \<not> idle_index s < application_task_count s"
  using unat_idle(2) [of s] by (simp add: word_less_unat)

lemma idle_candidate: "kernel_ok s \<Longrightarrow> candidates s \<noteq> {}"
  using idle_below [of s] by (auto simp: kernel_ok_def candidates_def runnable_def scheduler_inv_def)

section \<open>Quiet steps keep it\<close>

lemma basis_fields:
  assumes "basis t = basis s"
  shows "cfg t = cfg s" "task_count t = task_count s" "application_task_count t = application_task_count s"
    "current_task t = current_task s" "g_current_task_index t = g_current_task_index s"
    "timer_service_task_index t = timer_service_task_index s" "mutexes t = mutexes s" "mutex_list t = mutex_list s"
    "timers t = timers s" "timer_list t = timer_list s"
  using assms by (simp_all add: basis_def)

lemma waits_for_waits_on:
  "waits_for ms ts i k \<longleftrightarrow> (\<exists>ob. ob \<noteq> NULL \<and> waits_on ob TASK_WAIT_MUTEX (ts i) \<and> m_locked (ms ob) \<noteq> 0 \<and> m_owner (ms ob) = k)"
  by (auto simp: waits_for_def blocked_on_mutex_def waits_on_def)

lemma quiet_mutex_inv:
  assumes inv: "mutex_inv s" and q: "quiet K B R s t"
  shows "mutex_inv t"
proof (rule mutex_inv_mono [OF inv])
  note b = basis_fields [of t s]
  have q': "basis t = basis s" "\<And>i. quiet_task K (tasks s i) (tasks t i)" using q by (simp_all add: quiet_def)
  show "mutexes t = mutexes s" "task_count t = task_count s" using b q' by simp_all
  show "waits_on ob TASK_WAIT_MUTEX (tasks s i)" if "waits_on ob TASK_WAIT_MUTEX (tasks t i)" for ob i
    using that q'(2) [of i] by (simp add: quiet_task_def)
  have "waits_for (mutexes s) (tasks t) = waits_for (mutexes s) (tasks s)"
    using q'(2) by (intro ext) (simp add: waits_for_waits_on quiet_task_def)
  then have "exact (task_count s) (mutexes s) (tasks t) = exact (task_count s) (mutexes s) (tasks s)"
    by (intro exact_cong) (use q'(2) in \<open>simp_all add: mutex_waiters_of_def quiet_task_def\<close>)
  then show "exact_priorities t" using inv b q' by (simp add: exact_priorities_def mutex_inv_def)
qed

lemma timer_waiting_waits_on:
  "timer_service_waiting s = waits_on (ld_timer_service_wait_object (cfg s)) TASK_WAIT_TIMER_SERVICE (tasks s (timer_service_task_index s))"
  by (simp add: timer_service_waiting_def waits_on_def Let_def)

lemma quiet_kernel_wf:
  assumes wf: "kernel_wf s" and q: "quiet K B R s t" and K: "TASK_WAIT_TIMER_SERVICE \<notin> K"
  shows "kernel_wf t"
proof -
  have b: "basis t = basis s" and q': "\<And>i. quiet_task K (tasks s i) (tasks t i)" using q by (simp_all add: quiet_def)
  note f = basis_fields [OF b]
  have "tasks_wf t" using wf q' by (simp add: kernel_wf_def tasks_wf_def quiet_task_def f)
  moreover have "mutexes_wf t" using wf mutexes_wf_cong [of t s] by (simp add: kernel_wf_def f)
  moreover have "timer_inv t"
  proof (rule timer_inv_cong)
    show "timer_service_waiting s" if "timer_service_waiting t"
      using that q' K by (auto simp: timer_waiting_waits_on f quiet_task_def waits_less_def)
  qed (use wf in \<open>simp_all add: f kernel_wf_def\<close>)
  ultimately show ?thesis using quiet_mutex_inv [OF _ q] wf by (simp add: kernel_wf_def)
qed

lemma quiet_scheduler_inv: "scheduler_inv s \<Longrightarrow> quiet K B R s t \<Longrightarrow> scheduler_inv t"
  unfolding quiet_def using basis_fields [of t s] by (auto simp: scheduler_inv_def quiet_task_def)

lemma quiet_ok:
  assumes ok: "kernel_ok s" and q: "quiet K B R s t" and K: "TASK_WAIT_TIMER_SERVICE \<notin> K" and B: "idle_index s \<notin> B"
  shows "kernel_ok t"
proof -
  have b: "basis t = basis s" using q by (simp add: quiet_def)
  note f = basis_fields [OF b]
  have "runnable (tasks t (idle_index t))" using ok q B by (simp add: kernel_ok_def idle_index_def quiet_def f)
  then show ?thesis using ok quiet_kernel_wf [OF _ q K] quiet_scheduler_inv [OF _ q] by (simp add: kernel_ok_def f)
qed

section \<open>Mutexes\<close>

text \<open>What mutex operations leave alone.\<close>

definition beside_mutexes where
  "beside_mutexes s = (cfg s, application_task_count s, g_current_task_index s, timer_service_task_index s,
     (timers s, timer_list s), (semaphores s, event_groups s, (queues s, mem8 s)))"

lemma beside_mutexes_simps [simp]:
  "beside_mutexes (cs_enter s) = beside_mutexes s" "beside_mutexes (arch_critical_exit p s) = beside_mutexes s"
  "beside_mutexes (set_mutex ob m s) = beside_mutexes s" "beside_mutexes (arch_yield s) = beside_mutexes s"
  "beside_mutexes (task_inherit_priority i pr s) = beside_mutexes s" "beside_mutexes (task_restore_priority i s) = beside_mutexes s"
  "beside_mutexes (task_wait_begin_until i ob k d s) = beside_mutexes s"
  "beside_mutexes (snd (task_wake_get_id ob k s)) = beside_mutexes s"
  by (simp_all add: beside_mutexes_def set_mutex_def arch_yield_def request_switch_def task_inherit_priority_def
      task_restore_priority_def arch_critical_enter_eq task_wait_begin_until_eq task_wake_get_id_eq Let_def
      arch_critical_exit_eq cs_enter_def)

lemma mutex_ops_beside:
  "arch_in_isr s = 0 \<Longrightarrow> beside_mutexes (snd (mutex_lock_from ob timeout d i s)) = beside_mutexes s"
  "arch_in_isr s = 0 \<Longrightarrow> beside_mutexes (snd (JRT_MutexUnlock ob s)) = beside_mutexes s"
  "JRT_MutexCreateRecursiveStatic ob s = Some t \<Longrightarrow> beside_mutexes t = beside_mutexes s"
proof -
  have r: "beside_mutexes (mutex_release ob u) = beside_mutexes u" for u
    by (simp add: mutex_release_def Let_def case_prod_beta)
  show "arch_in_isr s = 0 \<Longrightarrow> beside_mutexes (snd (mutex_lock_from ob timeout d i s)) = beside_mutexes s"
    by (simp add: mutex_lock_from_def arch_critical_enter_eq Let_def task_block_until_locked_def)
  show "arch_in_isr s = 0 \<Longrightarrow> beside_mutexes (snd (JRT_MutexUnlock ob s)) = beside_mutexes s"
    by (simp add: JRT_MutexUnlock_def arch_critical_enter_eq Let_def r)
  have l: "mutex_link_locked ob u = Some v \<Longrightarrow> beside_mutexes v = beside_mutexes u" for u v
    by (auto simp: mutex_link_locked_def beside_mutexes_def set_mutex_def split: option.splits if_splits)
  show "JRT_MutexCreateRecursiveStatic ob s = Some t \<Longrightarrow> beside_mutexes t = beside_mutexes s"
    by (auto simp: JRT_MutexCreateRecursiveStatic_def arch_critical_enter_eq Let_def split: option.splits dest: l)
qed

lemma mutexes_wf_update:
  assumes wf: "mutexes_wf s" and t: "mutexes t = (mutexes s)(ob := m)" "mutex_list t = mutex_list s" "task_count t = task_count s"
    and m: "m_next m = m_next (mutexes s ob)" "mutex_fault (task_count s) m = JRT_INVARIANT_NONE"
  shows "mutexes_wf t"
proof -
  obtain xs where xs: "linked_mutexes s xs" "\<forall>a\<in>set xs. mutex_fault (task_count s) (mutexes s a) = JRT_INVARIANT_NONE"
    using wf by (auto simp: mutexes_wf_def)
  have "(\<lambda>a. m_next (mutexes t a)) = (\<lambda>a. m_next (mutexes s a))" using m(1) t(1) by auto
  then have "linked_mutexes t xs" using xs(1) by (simp add: linked_mutexes_def t(2))
  moreover have "\<forall>a\<in>set xs. mutex_fault (task_count t) (mutexes t a) = JRT_INVARIANT_NONE" using xs(2) m(2) by (simp add: t)
  ultimately show ?thesis unfolding mutexes_wf_def by blast
qed

text \<open>Task records that differ in their priority or wait for a mutex only.\<close>

definition lock_task :: "task_t \<Rightarrow> task_t \<Rightarrow> bool" where
  "lock_task t u \<longleftrightarrow> t_private_data_size u = t_private_data_size t
     \<and> (task_invariant t = None \<longrightarrow> task_invariant u = None)
     \<and> (t_state u = JRT_TASK_STATE_RUNNING \<longrightarrow> t_state t = JRT_TASK_STATE_RUNNING)
     \<and> (t_state t = JRT_TASK_STATE_SUSPENDED \<longrightarrow> t_state u = JRT_TASK_STATE_SUSPENDED)
     \<and> waits_less {TASK_WAIT_MUTEX} t u \<and> keeps_wait {} t u"

lemma kernel_okI:
  assumes ok: "kernel_ok s" and wf: "kernel_wf t"
    and same: "cfg t = cfg s" "task_count t = task_count s" "application_task_count t = application_task_count s"
      "current_task t = current_task s" "g_current_task_index t = g_current_task_index s"
    and run: "\<And>i. i < task_count s \<Longrightarrow> t_state (tasks t i) = JRT_TASK_STATE_RUNNING \<Longrightarrow> t_state (tasks s i) = JRT_TASK_STATE_RUNNING"
    and bytes: "\<And>i. i < task_count s \<Longrightarrow> t_private_data_size (tasks t i) = t_private_data_size (tasks s i)"
    and idle: "runnable (tasks t (idle_index s))"
  shows "kernel_ok t"
proof -
  have inv: "scheduler_inv s" using ok by (simp add: kernel_ok_def)
  have "scheduler_inv t"
    using inv run bytes unfolding scheduler_inv_def same by (intro conjI allI impI) auto
  then show ?thesis using ok wf idle by (simp add: kernel_ok_def idle_index_def same)
qed

lemma lock_taskD:
  assumes "lock_task t u"
  shows "waits_less {TASK_WAIT_MUTEX} t u" "keeps_wait {} t u" "t_state u = JRT_TASK_STATE_RUNNING \<longrightarrow> t_state t = JRT_TASK_STATE_RUNNING"
  using assms unfolding lock_task_def by blast+

lemma lock_task_trans:
  assumes t: "lock_task t u" and u: "lock_task u v" shows "lock_task t v"
proof -
  note waits = waits_less_trans [OF lock_taskD(1) [OF t] lock_taskD(1) [OF u]]
  note keeps = keeps_wait_trans [OF lock_taskD(2) [OF t] lock_taskD(2) [OF u] lock_taskD(3) [OF t]]
  show ?thesis using t u waits keeps unfolding lock_task_def by (metis (no_types))
qed

lemma lock_task_priority: "lock_task t (t\<lparr>t_priority := p\<rparr>)"
  by (simp add: lock_task_def task_invariant_def waits_less_def waits_on_def keeps_wait_def undisturbed_def)

lemma lock_task_same:
  assumes "same_but_priority ts us" shows "lock_task (ts i) (us i)"
proof -
  obtain p where "us i = (ts i)\<lparr>t_priority := p\<rparr>" using assms unfolding same_but_priority_def by blast
  then show ?thesis by (simp add: lock_task_priority)
qed

lemma lock_task_blocked:
  "t_state t = JRT_TASK_STATE_RUNNING \<Longrightarrow> ob \<noteq> NULL \<Longrightarrow> lock_task t (blocked_on ob TASK_WAIT_MUTEX d t)"
  using wait_kind_max [of TASK_WAIT_MUTEX]
  by (auto simp: lock_task_def waits_less_def waits_on_def task_invariant_def keeps_wait_def not_less)

lemma lock_task_awake:
  "t_state t = JRT_TASK_STATE_BLOCKED \<Longrightarrow> t_wait_kind t \<notin> queue_kinds \<Longrightarrow> lock_task t (awake r t)"
  by (auto simp: lock_task_def waits_less_def waits_on_def task_invariant_awake keeps_wait_def undisturbed_def)

lemma mutex_step_ok:
  assumes ok: "kernel_ok s" and b: "beside_mutexes t = beside_mutexes s" and n: "task_count t = task_count s" "current_task t = current_task s"
    and ts: "\<And>i. lock_task (tasks s i) (tasks t i)" and inv: "mutex_inv t" "mutexes_wf t"
    and idle: "runnable (tasks t (idle_index s))"
  shows "kernel_ok t"
proof (rule kernel_okI [OF ok _ _ n(1) _ n(2)])
  have f: "cfg t = cfg s" "application_task_count t = application_task_count s" "g_current_task_index t = g_current_task_index s"
    "timer_service_task_index t = timer_service_task_index s" "timers t = timers s" "timer_list t = timer_list s"
    using b by (simp_all add: beside_mutexes_def)
  then show "cfg t = cfg s" "application_task_count t = application_task_count s" "g_current_task_index t = g_current_task_index s" by simp_all
  have wf: "kernel_wf s" using ok by (simp add: kernel_ok_def)
  have "timer_inv t"
  proof (rule timer_inv_cong)
    show "timer_service_waiting s" if "timer_service_waiting t"
      using that ts by (auto simp: timer_waiting_waits_on f lock_task_def waits_less_def)
  qed (use wf in \<open>simp_all add: f kernel_wf_def\<close>)
  moreover have "tasks_wf t" using wf ts by (simp add: kernel_wf_def tasks_wf_def lock_task_def n)
  ultimately show "kernel_wf t" using inv by (simp add: kernel_wf_def)
qed (use ts idle in \<open>simp_all add: lock_task_def\<close>)

lemma task_other_than_current:
  "kernel_ok s \<Longrightarrow> current_task s \<noteq> idle_index s \<Longrightarrow> runnable (tasks s (idle_index s))"
  by (simp add: kernel_ok_def)

lemma mutex_list_simps [simp]:
  "mutex_list (set_mutex ob m s) = mutex_list s" "mutex_list (task_inherit_priority i pr s) = mutex_list s"
  "mutex_list (task_restore_priority i s) = mutex_list s" "mutex_list (arch_yield s) = mutex_list s"
  by (simp_all add: set_mutex_def arch_yield_def request_switch_def task_inherit_priority_def task_restore_priority_def
      arch_critical_enter_eq Let_def)

lemma lock_mutex_list: "arch_in_isr s = 0 \<Longrightarrow> mutex_list (snd (mutex_lock_from ob timeout d i s)) = mutex_list s"
  by (simp add: mutex_lock_from_def arch_critical_enter_eq Let_def task_block_until_locked_fields)

lemma unlock_mutex_list: "arch_in_isr s = 0 \<Longrightarrow> mutex_list (snd (JRT_MutexUnlock ob s)) = mutex_list s"
  by (simp add: JRT_MutexUnlock_def arch_critical_enter_eq Let_def mutex_release_def case_prod_beta task_wake_get_id_fields)

lemma mutex_lock_ways:
  assumes ctx: "thread_context s" and fresh: "\<not> deadline_passed (g_kernel_ticks s) (dl_start d) (dl_tick d) (dl_forever d)"
    and depth: "m_recursion (mutexes s ob) \<noteq> UINT32_MAX" and r: "mutex_lock_from ob timeout d (g_current_task_index s) s = (r, t)"
  obtains (take) m where "mutexes t = (mutexes s)(ob := m)" "tasks t = tasks s" "m_locked m \<noteq> 0" "m_owner m = current_task s"
      "m_recursion m \<noteq> 0" "m_next m = m_next (mutexes s ob)" "m_locked (mutexes s ob) = 0 \<or> m_owner (mutexes s ob) = current_task s"
    | (fail) "mutexes t = mutexes s" "tasks t = tasks s"
    | (wait) u :: kstate where "m_locked (mutexes s ob) \<noteq> 0" "mutexes t = mutexes s" "task_count u = task_count s"
      "tasks u = inherit_loop (unat (task_count s)) (task_count s) (mutexes s) (m_owner (mutexes s ob))
         (t_priority (tasks s (current_task s))) (tasks s)"
      "tasks t = (tasks u)(current_task s := blocked_on ob TASK_WAIT_MUTEX d (tasks u (current_task s)))"
proof -
  let ?m = "mutexes s ob" and ?c = "current_task s" and ?n = "task_count s"
  note cases = mutex_lock_from_cases [OF ctx r]
  show thesis
  proof (cases "m_locked ?m = 0 \<or> m_owner ?m = ?c")
    case True
    have "m_recursion ?m + 1 \<noteq> 0"
    proof
      assume "m_recursion ?m + 1 = 0"
      then have "m_recursion ?m = - 1" by (simp add: eq_neg_iff_add_eq_0)
      with depth show False by simp
    qed
    then show ?thesis using True cases take by (fastforce split: if_splits)
  next
    case False
    show ?thesis
    proof (cases "timeout = 0")
      case True
      then show ?thesis using False cases fail by auto
    next
      case nz: False
      show ?thesis
        by (rule wait [of "s\<lparr>tasks := inherit_loop (unat ?n) ?n (mutexes s) (m_owner ?m) (t_priority (tasks s ?c)) (tasks s)\<rparr>"])
          (use False nz fresh cases in \<open>auto simp: Let_def\<close>)
    qed
  qed
qed

lemma mutex_lock_step:
  assumes ok: "kernel_ok s" and ctx: "thread_context s" "current_task s \<noteq> idle_index s" and ob: "ob \<noteq> NULL"
    and fresh: "\<not> deadline_passed (g_kernel_ticks s) (dl_start d) (dl_tick d) (dl_forever d)"
    and depth: "m_recursion (mutexes s ob) \<noteq> UINT32_MAX"
    and r: "mutex_lock_from ob timeout d (g_current_task_index s) s = (r, t)"
  shows "kernel_ok t \<and> (\<forall>i. lock_task (tasks s i) (tasks t i)) \<and> beside_mutexes t = beside_mutexes s \<and> task_count t = task_count s"
proof -
  let ?m = "mutexes s ob" and ?c = "current_task s" and ?n = "task_count s"
  note cases = mutex_lock_from_cases [OF ctx(1) r]
  have b: "beside_mutexes t = beside_mutexes s" using mutex_ops_beside(1) [OF thread_not_isr [OF ctx(1)]] r by (metis snd_conv)
  have ml: "mutex_list t = mutex_list s" using lock_mutex_list [OF thread_not_isr [OF ctx(1)]] r by (metis snd_conv)
  have n: "task_count t = ?n" "current_task t = ?c" using cases by blast+
  have wf: "mutex_inv s" "mutexes_wf s" using ok by (simp_all add: kernel_ok_def kernel_wf_def)
  have c: "?c < ?n" using ctx(1) unfolding thread_context_def by blast
  have idle: "runnable (tasks s (idle_index s))" using ok by (simp add: kernel_ok_def)
  have "(\<forall>i. lock_task (tasks s i) (tasks t i)) \<and> mutex_inv t \<and> mutexes_wf t \<and> runnable (tasks t (idle_index s))"
    using ctx(1) fresh depth r
  proof (cases rule: mutex_lock_ways)
    case take
    have "mutex_inv t" by (rule mutex_inv_set_mutex [OF wf(1) take(1,2) n(1) ob take(3)]) (use take c in auto)
    moreover have "mutexes_wf t"
      by (rule mutexes_wf_update [OF wf(2) take(1) ml n(1) take(6)]) (use take c in \<open>simp add: mutex_fault_def not_le\<close>)
    ultimately show ?thesis using take(2) idle by (simp add: lock_task_def)
  next
    case fail
    then show ?thesis using wf mutex_inv_cong [OF fail n(1)] mutexes_wf_cong [OF fail(1) ml n(1)] idle by (simp add: lock_task_def)
  next
    case (wait u)
    have same: "same_but_priority (tasks s) (tasks u)" by (simp add: wait(4) same_but_priority_inherit)
    have st: "t_state (tasks u i) = t_state (tasks s i)" for i using same_but_priority_fields [OF same] by simp
    have run: "t_state (tasks u ?c) = JRT_TASK_STATE_RUNNING" using running_thread [OF ctx(1)] st by simp
    have "lock_task (tasks s i) (tasks t i)" for i
      using lock_task_same [OF same, of i] lock_task_trans [OF lock_task_same [OF same, of ?c] lock_task_blocked [OF run ob]]
      by (simp add: wait(5))
    moreover have "mutex_inv t" by (rule mutex_inv_contended [OF wf(1) ctx(1) ob wait(1) wait(5) wait(2) n(1) wait(4) wait(3)])
    moreover have "mutexes_wf t" using wf(2) mutexes_wf_cong [OF wait(2) ml n(1)] by simp
    moreover have "runnable (tasks t (idle_index s))" using idle ctx(2) by (simp add: wait(5) runnable_def st)
    ultimately show ?thesis by blast
  qed
  then show ?thesis using mutex_step_ok [OF ok b n] b n by blast
qed

lemma woken_lock_task: "lock_task (tasks s i) (woken_tasks ob TASK_WAIT_MUTEX s i)"
  using best_waiter_in [of ob TASK_WAIT_MUTEX s]
  by (auto simp: woken_tasks_def kernel_waiters_def waiters_def waits_on_def lock_task_awake queue_kinds_def)
    (simp_all add: lock_task_def)

lemma woken_runnable: "runnable (tasks s i) \<Longrightarrow> runnable (woken_tasks ob k s i)"
  by (simp add: woken_tasks_def runnable_def)

lemma mutex_release_tasks:
  assumes "m_owner (mutexes s ob) < task_count s"
  shows "same_but_priority (woken_tasks ob TASK_WAIT_MUTEX s) (tasks (mutex_release ob s))"
  unfolding mutex_release_fields(4) [OF assms] Let_def
  by (simp add: same_but_priority_trans [OF same_but_priority_set_priority same_but_priority_set_priority])

lemma mutex_unlock_step:
  assumes ok: "kernel_ok s" and ctx: "thread_context s" and ob: "ob \<noteq> NULL"
    and r: "JRT_MutexUnlock ob s = (r, t)"
  shows "kernel_ok t \<and> (\<forall>i. lock_task (tasks s i) (tasks t i)) \<and> beside_mutexes t = beside_mutexes s \<and> task_count t = task_count s"
proof -
  let ?m = "mutexes s ob" and ?c = "current_task s" and ?n = "task_count s"
  note cases = mutex_unlock_cases [OF ctx r]
  have b: "beside_mutexes t = beside_mutexes s" using mutex_ops_beside(2) [OF thread_not_isr [OF ctx]] r by (metis snd_conv)
  have ml: "mutex_list t = mutex_list s" using unlock_mutex_list [OF thread_not_isr [OF ctx]] r by (metis snd_conv)
  have cur: "current_task t = ?c" using r by (auto simp: JRT_MutexUnlock_def arch_critical_enter_eq Let_def thread_not_isr [OF ctx]
      mutex_release_def case_prod_beta task_wake_get_id_fields task_restore_priority_fields set_mutex_def split: if_splits)
  have wf: "mutex_inv s" "mutexes_wf s" using ok by (simp_all add: kernel_ok_def kernel_wf_def)
  have c: "?c < ?n" using ctx unfolding thread_context_def by blast
  have idle: "runnable (tasks s (idle_index s))" using ok by (simp add: kernel_ok_def)
  consider (fail) "mutexes t = mutexes s" "tasks t = tasks s" "task_count t = ?n"
    | (keep) "m_locked ?m \<noteq> 0" "m_owner ?m = ?c" "1 < m_recursion ?m" "tasks t = tasks s" "task_count t = ?n"
      "mutexes t = (mutexes s)(ob := ?m\<lparr>m_recursion := m_recursion ?m - 1\<rparr>)"
    | (release) "m_locked ?m \<noteq> 0" "m_owner ?m = ?c" "mutexes t = mutexes (mutex_release ob (cs_enter s))"
      "tasks t = tasks (mutex_release ob (cs_enter s))" "task_count t = task_count (mutex_release ob (cs_enter s))"
    using cases by (auto split: if_splits)
  then have "(\<forall>i. lock_task (tasks s i) (tasks t i)) \<and> mutex_inv t \<and> mutexes_wf t \<and> runnable (tasks t (idle_index s)) \<and> task_count t = ?n"
  proof cases
    case fail
    then show ?thesis using wf mutex_inv_cong [OF fail] mutexes_wf_cong [OF fail(1) ml fail(3)] idle by (simp add: lock_task_def)
  next
    case keep
    have "mutex_inv t" by (rule mutex_inv_set_mutex [OF wf(1) keep(6,4,5) ob]) (use keep c in auto)
    moreover have "m_recursion ?m - 1 \<noteq> 0" using keep(3) by auto
    then have "mutexes_wf t"
      by (intro mutexes_wf_update [OF wf(2) keep(6) ml keep(5)]) (use keep c in \<open>simp_all add: mutex_fault_def not_le\<close>)
    ultimately show ?thesis using keep idle by (simp add: lock_task_def)
  next
    case release
    let ?u = "cs_enter s"
    have o': "m_owner (mutexes ?u ob) < task_count ?u" using release(2) c by simp
    have u: "mutex_inv ?u" using wf(1) mutex_inv_cong [of ?u s] by simp
    have n: "task_count t = ?n" using release(5) mutex_release_fields(2) [OF o'] by simp
    have "mutex_inv (mutex_release ob ?u)"
      by (rule mutex_release_inv [OF u ob]) (use release running_not_blocked [OF ctx] in simp_all)
    then have "mutex_inv t" using mutex_inv_cong [OF release(3-5)] by simp
    moreover have "mutexes t = (mutexes s)(ob := mutexes t ob)"
      using release(3) by (simp add: mutex_release_fields(1) [OF o'])
    then have "mutexes_wf t"
      by (rule mutexes_wf_update [OF wf(2) _ ml n])
        (use release(3) best_waiter_below [of ob TASK_WAIT_MUTEX s] in
          \<open>simp_all add: mutex_release_fields(1) [OF o'] mutex_fault_def not_le\<close>)
    moreover have same: "same_but_priority (woken_tasks ob TASK_WAIT_MUTEX s) (tasks t)"
      using mutex_release_tasks [OF o'] release(4) by simp
    have "lock_task (tasks s i) (tasks t i)" for i
      using lock_task_trans [OF woken_lock_task lock_task_same [OF same]] .
    moreover have "runnable (tasks t (idle_index s))"
      using woken_runnable [OF idle, of ob TASK_WAIT_MUTEX] same_but_priority_fields(1) [OF same] by (simp add: runnable_def)
    ultimately show ?thesis using n by blast
  qed
  then show ?thesis using mutex_step_ok [OF ok b _ cur] b by blast
qed

lemma mutex_create_step:
  assumes ok: "kernel_ok s" and ob: "ob \<noteq> NULL" and free: "m_locked (mutexes s ob) = 0"
    and r: "JRT_MutexCreateRecursiveStatic ob s = Some t"
  shows "kernel_ok t \<and> tasks t = tasks s \<and> beside_mutexes t = beside_mutexes s \<and> task_count t = task_count s"
proof -
  have b: "beside_mutexes t = beside_mutexes s" by (rule mutex_ops_beside(3) [OF r])
  have n: "task_count t = task_count s" "current_task t = current_task s" "tasks t = tasks s"
    using r by (auto simp: JRT_MutexCreateRecursiveStatic_def mutex_link_locked_def arch_critical_enter_eq set_mutex_def Let_def
        split: option.splits if_splits)
  have wf: "mutex_inv s" "mutexes_wf s" using ok by (simp_all add: kernel_ok_def kernel_wf_def)
  obtain xs where xs: "linked_mutexes s xs" "\<forall>a\<in>set xs. mutex_fault (task_count s) (mutexes s a) = JRT_INVARIANT_NONE"
    using wf(2) by (auto simp: mutexes_wf_def)
  from mutex_create_links [OF xs(1) ob] r
  have t: "linked_mutexes t (if ob \<in> set xs then xs else ob # xs)" "m_locked (mutexes t ob) = 0"
    "m_owner (mutexes t ob) = UINT32_MAX" "m_recursion (mutexes t ob) = 0" "\<And>a. a \<noteq> ob \<Longrightarrow> mutexes t a = mutexes s a" by auto
  have fault: "mutex_fault (task_count t) (mutexes t a) = JRT_INVARIANT_NONE" if "a \<in> insert ob (set xs)" for a
    using that xs(2) t(2-5) by (cases "a = ob") (simp_all add: n mutex_fault_def)
  have "mutexes_wf t" unfolding mutexes_wf_def
    by (rule exI [of _ "if ob \<in> set xs then xs else ob # xs"]) (use t(1) fault in auto)
  moreover have "mutex_inv t"
  proof -
    have locked: "m_locked (mutexes t a) = m_locked (mutexes s a)" for a using free t(2,5) by (cases "a = ob") simp_all
    have owner: "m_locked (mutexes s a) \<noteq> 0 \<Longrightarrow> m_owner (mutexes t a) = m_owner (mutexes s a)" for a
      using free t(5) by (cases "a = ob") simp_all
    have "waits_for (mutexes t) (tasks s) = waits_for (mutexes s) (tasks s)"
      using owner by (intro ext) (auto simp: waits_for_def locked)
    then have "exact (task_count s) (mutexes t) (tasks s) = exact (task_count s) (mutexes s) (tasks s)"
      by (intro exact_cong) (simp_all add: mutex_waiters_of_def)
    then show ?thesis using wf(1) owner
      by (simp add: mutex_inv_def exact_priorities_def n locked kernel_waiters_def)
  qed
  ultimately show ?thesis using mutex_step_ok [OF ok b n(1,2)] ok b n by (simp add: lock_task_def kernel_ok_def)
qed

section \<open>Timers\<close>

text \<open>A timer operation is quiet but for the timers themselves.\<close>

definition quiet_timers :: "task_wait_kind_t set \<Rightarrow> u32 set \<Rightarrow> kstate \<Rightarrow> kstate \<Rightarrow> bool" where
  "quiet_timers K B s t \<longleftrightarrow> quiet K B {} s (t\<lparr>timers := timers s, timer_list := timer_list s\<rparr>)"

lemma timer_step_ok:
  assumes ok: "kernel_ok s" and q: "quiet_timers K B s t" and idle: "idle_index s \<notin> B" and inv: "timer_inv t"
  shows "kernel_ok t"
proof -
  let ?u = "t\<lparr>timers := timers s, timer_list := timer_list s\<rparr>"
  have q: "quiet K B {} s ?u" using q by (simp add: quiet_timers_def)
  then have b: "basis ?u = basis s" and ts: "\<And>i. quiet_task K (tasks s i) (tasks t i)" by (simp_all add: quiet_def)
  have f: "cfg t = cfg s" "task_count t = task_count s" "application_task_count t = application_task_count s"
    "current_task t = current_task s" "g_current_task_index t = g_current_task_index s"
    "mutexes t = mutexes s" "mutex_list t = mutex_list s" using b by (simp_all add: basis_def)
  have wf: "kernel_wf s" "runnable (tasks s (idle_index s))" using ok by (simp_all add: kernel_ok_def)
  have "mutex_inv ?u" using wf q by (auto simp: kernel_wf_def intro: quiet_mutex_inv)
  then have "mutex_inv t" using mutex_inv_cong [of t ?u] by simp
  moreover have "tasks_wf t" using wf ts by (simp add: kernel_wf_def tasks_wf_def quiet_task_def f)
  moreover have "mutexes_wf t" using wf mutexes_wf_cong [of t s] by (simp add: kernel_wf_def f)
  ultimately have "kernel_wf t" using inv by (simp add: kernel_wf_def)
  moreover have "runnable (tasks t (idle_index s))" using q idle wf(2) by (auto simp: quiet_def)
  ultimately show ?thesis
    by (intro kernel_okI [OF ok]) (use ts in \<open>simp_all add: f quiet_task_def\<close>)
qed

definition beside_timers where
  "beside_timers s = (cfg s, (task_count s, application_task_count s, current_task s, g_current_task_index s,
     timer_service_task_index s), (mutexes s, mutex_list s), (semaphores s, event_groups s, (queues s, mem8 s)))"

lemma beside_timers_simps [simp]:
  "beside_timers (cs_enter s) = beside_timers s" "beside_timers (arch_critical_exit p s) = beside_timers s"
  "beside_timers (arch_request_switch s) = beside_timers s" "beside_timers (arch_yield s) = beside_timers s"
  "beside_timers (set_timer a u s) = beside_timers s" "beside_timers (s\<lparr>timer_list := l\<rparr>) = beside_timers s"
  "beside_timers (task_timer_service_wake_locked s) = beside_timers s"
  "beside_timers (task_wait_begin i ob k n s) = beside_timers s"
  by (simp_all add: beside_timers_def set_timer_def arch_request_switch_def request_switch_def arch_yield_def
      task_timer_service_wake_locked_def task_wait_end_eq task_wait_begin_eq task_wait_begin_until_eq
      arch_critical_exit_eq cs_enter_def)

lemma timer_link_beside: "timer_link_locked a s = Some t \<Longrightarrow> beside_timers t = beside_timers s \<and> tasks t = tasks s"
  by (auto simp: timer_link_locked_def split: option.splits if_splits)

lemma quiet_timersI:
  assumes "beside_timers t = beside_timers s" and "tasks t = tasks s" shows "quiet_timers K B s t"
  unfolding quiet_timers_def by (rule quiet_same) (use assms in \<open>simp_all add: basis_def beside_timers_def\<close>)

lemma quiet_timers_wake:
  assumes "beside_timers t = beside_timers s" and "timer_service_waiting s"
    and "tasks t = (tasks s)(timer_service_task_index s := awake 1 (tasks s (timer_service_task_index s)))"
  shows "quiet_timers K B s t"
  unfolding quiet_timers_def
proof (rule quiet_update)
  have w: "t_state (tasks s (timer_service_task_index s)) = JRT_TASK_STATE_BLOCKED"
    "t_wait_kind (tasks s (timer_service_task_index s)) = TASK_WAIT_TIMER_SERVICE"
    using assms(2) by (simp_all add: timer_service_waiting_def Let_def)
  then show "quiet_task K (tasks s (timer_service_task_index s)) (awake 1 (tasks s (timer_service_task_index s)))"
    "undisturbed (tasks s (timer_service_task_index s)) (awake 1 (tasks s (timer_service_task_index s)))"
    by (simp_all add: quiet_task_awake queue_kinds_def undisturbed_def)
  show "runnable (awake 1 (tasks s (timer_service_task_index s)))" by (simp add: runnable_def)
  show "t_state (awake 1 (tasks s (timer_service_task_index s))) = JRT_TASK_STATE_SUSPENDED"
    if "t_state (tasks s (timer_service_task_index s)) = JRT_TASK_STATE_SUSPENDED" using that w by simp
qed (use assms in \<open>simp_all add: basis_def beside_timers_def\<close>)

text \<open>The operations of \<open>timer.c\<close> that are not the service task's.\<close>

lemma timer_ops_quiet:
  "JRT_TimerCreateStatic a s = Some t \<Longrightarrow> quiet_timers {} {} s t \<and> beside_timers t = beside_timers s"
  "JRT_TimerStart a d s = Some t \<Longrightarrow> quiet_timers {} {} s t \<and> beside_timers t = beside_timers s"
  "JRT_TimerStartPeriodic a d s = Some t \<Longrightarrow> quiet_timers {} {} s t \<and> beside_timers t = beside_timers s"
  "JRT_TimerRestart a s = Some t \<Longrightarrow> quiet_timers {} {} s t \<and> beside_timers t = beside_timers s"
  "quiet_timers {} {} s (JRT_TimerStop a s) \<and> beside_timers (JRT_TimerStop a s) = beside_timers s"
  "quiet_timers {} {} s (snd (JRT_TimerTakeExpirations a s)) \<and> beside_timers (snd (JRT_TimerTakeExpirations a s)) = beside_timers s"
  by (auto simp: JRT_TimerCreateStatic_def JRT_TimerStart_def JRT_TimerStartPeriodic_def JRT_TimerRestart_def
      JRT_TimerStop_def JRT_TimerTakeExpirations_def arch_critical_enter_eq Let_def
      split: if_splits option.splits dest!: timer_link_beside intro!: quiet_timersI)

lemma timer_callback_quiet:
  "quiet_timers {} {} s (JRT_TimerSetCallback a cb arg s) \<and> beside_timers (JRT_TimerSetCallback a cb arg s) = beside_timers s"
proof -
  have w: "quiet_timers {} {} s t" if "beside_timers t = beside_timers s"
    "tasks t = tasks (task_timer_service_wake_locked (set_timer a u (cs_enter s)))" for t u
    using that quiet_timers_wake [of t s "{}" "{}"] quiet_timersI [of t s "{}" "{}"]
    by (cases "timer_service_waiting s") (simp_all add: timer_service_wake_fields)
  then show ?thesis
    by (auto simp: JRT_TimerSetCallback_def arch_critical_enter_eq Let_def intro!: quiet_timersI)
qed

lemma timer_dispatch_quiet:
  "quiet_timers {} {} s (JRT_TimerDispatch (\<lambda>_ _ s. s) a s)
     \<and> beside_timers (JRT_TimerDispatch (\<lambda>_ _ s. s) a s) = beside_timers s"
  by (auto simp: JRT_TimerDispatch_def arch_critical_enter_eq Let_def id_def [symmetric] intro!: quiet_timersI)

text \<open>The service task claims a callback or waits.\<close>

lemma timer_claim_quiet:
  assumes ctx: "thread_context s" "current_task s = timer_service_task_index s" and ob: "ld_timer_service_wait_object (cfg s) \<noteq> NULL"
    and r: "kernel_timer_service_claim s = Some (r, t)"
  shows "quiet_timers {TASK_WAIT_TIMER_SERVICE} {current_task s} s t \<and> beside_timers t = beside_timers s"
proof (cases "timer_claim_loop (timers s) (timer_list s)")
  case None
  with r show ?thesis by (simp add: kernel_timer_service_claim_def arch_critical_enter_eq)
next
  case (Some found)
  show ?thesis
  proof (cases found)
    case None
    have t: "t = task_timer_service_block_locked (primask s) (cs_enter s)"
      using r \<open>timer_claim_loop _ _ = Some found\<close> None by (simp add: kernel_timer_service_claim_def arch_critical_enter_eq)
    have b: "beside_timers t = beside_timers s" by (simp add: t task_timer_service_block_locked_def Let_def)
    have tm: "t\<lparr>timers := timers s, timer_list := timer_list s\<rparr> = t"
      by (simp add: t task_timer_service_block_locked_def Let_def task_wait_begin_eq task_wait_begin_until_eq arch_yield_def
          request_switch_def cs_enter_def arch_critical_exit_eq)
    have "quiet {TASK_WAIT_TIMER_SERVICE} {current_task s} {} s t"
    proof (rule quiet_blocked [where f = "\<lambda>t. t" and i = "current_task s", OF _ _ running_thread [OF ctx(1)] ob])
      show "basis t = basis s" by (simp add: t task_timer_service_block_locked_def Let_def)
      show "tasks t = (tasks s)(current_task s := blocked_on (ld_timer_service_wait_object (cfg s)) TASK_WAIT_TIMER_SERVICE
          (make_deadline (g_kernel_ticks s) JRT_WAIT_FOREVER) (tasks s (current_task s)))"
        by (simp add: t task_timer_service_block_locked_def Let_def task_wait_begin_eq task_wait_begin_until_eq)
    qed simp_all
    then show ?thesis using b tm by (simp add: quiet_timers_def)
  next
    case (Some a)
    then show ?thesis using r \<open>timer_claim_loop _ _ = Some found\<close>
      by (auto simp: kernel_timer_service_claim_def arch_critical_enter_eq Let_def intro!: quiet_timersI)
  qed
qed

lemma timer_claim_step:
  assumes ok: "kernel_ok s" and ctx: "thread_context s" "current_task s = timer_service_task_index s" "current_task s \<noteq> idle_index s"
    and r: "kernel_timer_service_claim s = Some (r, t)"
  shows "kernel_ok t"
proof -
  have inv: "timer_inv s" and ob: "ld_timer_service_wait_object (cfg s) \<noteq> NULL"
    using ok by (simp_all add: kernel_ok_def kernel_wf_def)
  then obtain xs where "linked_timers s xs" by (auto simp: timer_inv_def)
  from timer_claim_exact [OF inv this ctx(2)] r have "timer_inv t" by auto
  with timer_claim_quiet [OF ctx(1,2) ob r] show ?thesis
    by (intro timer_step_ok [OF ok]) (use ctx in auto)
qed

section \<open>Ticks and switches\<close>

definition beside_tick where
  "beside_tick s = (cfg s, application_task_count s, timer_service_task_index s, (semaphores s, event_groups s, (queues s, mem8 s)))"

lemma beside_tick_task: "beside_tick (tick_task i s) = beside_tick s"
proof -
  have "beside_tick (count_timeout k u) = beside_tick u" for k u
    by (simp add: count_timeout_def beside_tick_def)
  moreover have "beside_tick (restore_priority_chain o' u) = beside_tick u" for o' u
    by (simp add: restore_priority_chain_def beside_tick_def)
  moreover have "beside_tick (task_wait_end j r c u) = beside_tick u" for j r c u
    by (simp add: task_wait_end_eq beside_tick_def)
  ultimately have "beside_tick (tick_timeout i s) = beside_tick s" by (simp add: tick_timeout_def Let_def)
  then show ?thesis by (simp add: tick_task_def Let_def) (simp add: beside_tick_def set_task_def release_frame)
qed

lemma tick_beside:
  assumes wf: "kernel_wf s" and t: "tick_tasks s = Some (Inr t)"
  shows "beside_tick t = beside_tick s"
proof -
  obtain v where v: "kernel_timer_tick (tick_start s) = Some v" "kernel_wf v" by (rule timer_tick_wf [OF wf])
  let ?w = "for_upto (task_count v) tick_task v"
  have "kernel_wf ?w" by (rule tick_loop_wf [OF v(2)])
  then have "kernel_check_invariants_locked ?w = Some (Inr ?w)"
    using timer_inv_wf by (intro kernel_check_pass) (simp_all add: kernel_wf_def)
  from tick_tasks_eq [OF v(1) this] t have "t = arch_critical_exit (primask s) ?w" by simp
  then have "beside_tick t = beside_tick ?w" by (simp add: beside_tick_def)
  also have "\<dots> = beside_tick v" by (rule for_upto_frame) (rule beside_tick_task)
  also have "\<dots> = beside_tick s"
  proof -
    have "timer_inv (tick_start s)"
      using wf timer_inv_cong [of "tick_start s" s] by (simp add: kernel_wf_def waiting_cong [of "tick_start s" s])
    then obtain xs where "linked_timers (tick_start s) xs" by (auto simp: timer_inv_def)
    from kernel_timer_tick_list [OF this] v(1) show ?thesis
      by (auto simp: beside_tick_def task_timer_service_wake_locked_def task_wait_end_eq tick_start_def)
  qed
  finally show ?thesis .
qed

lemma erased_private: "erased t = erased u \<Longrightarrow> t_private_data_size t = t_private_data_size u
    \<and> t_event_wait_bits t = t_event_wait_bits u \<and> t_event_wait_all t = t_event_wait_all u
    \<and> t_notification_value t = t_notification_value u"
  by (cases t; cases u) (simp add: erased_def)

text \<open>What a tick may do to a task.\<close>

lemma task_ticked_runnable: "runnable t \<Longrightarrow> task_ticked now t = t"
  by (auto simp: runnable_def task_ticked_def)

lemma tick_task_step:
  assumes "u \<in> {t, awake 1 t}" and "u = t \<or> t_state t = JRT_TASK_STATE_BLOCKED \<and> t_wait_kind t \<notin> queue_kinds" and v: "erased v = erased (task_ticked now u)"
  shows "t_private_data_size v = t_private_data_size t"
    and "t_state v = JRT_TASK_STATE_RUNNING \<Longrightarrow> t_state t = JRT_TASK_STATE_RUNNING"
    and "runnable t \<Longrightarrow> runnable v"
    and "t_state t = JRT_TASK_STATE_SUSPENDED \<Longrightarrow> t_state v = JRT_TASK_STATE_SUSPENDED"
    and "waits_less {} t v" and "keeps_wait {} t v" and "undisturbed t v"
proof -
  have st: "t_state v = t_state (task_ticked now u)" by (rule erased_fields(1) [OF v])
  show "t_private_data_size v = t_private_data_size t"
    using erased_private [OF v] assms(1) by (auto simp: task_ticked_def)
  show "t_state v = JRT_TASK_STATE_RUNNING \<Longrightarrow> t_state t = JRT_TASK_STATE_RUNNING"
    using assms(1) by (auto simp: st task_ticked_def split: if_splits)
  show "runnable t \<Longrightarrow> runnable v"
    using assms(1,2) by (auto simp: st runnable_def task_ticked_def)
  show "t_state t = JRT_TASK_STATE_SUSPENDED \<Longrightarrow> t_state v = JRT_TASK_STATE_SUSPENDED"
    using assms(1,2) by (auto simp: st task_ticked_def)
  have res: "t_wait_result v = t_wait_result (task_ticked now u)"
    using v by (cases v; cases "task_ticked now u") (simp add: erased_def)
  show und: "undisturbed t v"
    using assms(1,2) by (auto simp: undisturbed_def st res task_ticked_def)
  have "waits_on ob k v \<or> t_state v \<noteq> JRT_TASK_STATE_BLOCKED \<and> t_wait_result v = 0"
    if "k \<in> queue_kinds" "waits_on ob k t" for ob k
  proof -
    have "u = t" using assms(2) that by (auto simp: waits_on_def)
    then show ?thesis using that(2) unfolding waits_on_erased [OF v] st res by (auto simp: waits_on_def task_ticked_def)
  qed
  with und show "keeps_wait {} t v" by (simp add: keeps_wait_def)
  have "waits_on ob k t \<and> u = t \<and> task_ticked now u = t" if "waits_on ob k v" for ob k
  proof -
    have w: "waits_on ob k (task_ticked now u)" using that waits_on_erased [OF v] by simp
    with assms(1) have "u = t" using waits_on_ticked [OF w] by (auto simp: waits_on_def)
    with w show ?thesis by (auto simp: waits_on_def task_ticked_def split: if_splits)
  qed
  then have "waits_on ob k t \<and> erased v = erased t" if "waits_on ob k v" for ob k using that v by metis
  then show "waits_less {} t v" using erased_private [of v t] unfolding waits_less_def by blast
qed

lemma tick_step:
  assumes ok: "kernel_ok s" and t: "tick_tasks s = Some (Inr t)"
  shows "kernel_ok t \<and> task_count t = task_count s \<and> beside_tick t = beside_tick s
    \<and> (\<forall>i < task_count s. waits_less {} (tasks s i) (tasks t i)
        \<and> (t_state (tasks s i) = JRT_TASK_STATE_SUSPENDED \<longrightarrow> t_state (tasks t i) = JRT_TASK_STATE_SUSPENDED)
        \<and> keeps_wait {} (tasks s i) (tasks t i) \<and> undisturbed (tasks s i) (tasks t i))"
proof -
  have wf: "kernel_wf s" using ok by (simp add: kernel_ok_def)
  note b = tick_beside [OF wf t]
  obtain u where u: "tick_tasks s = Some (Inr u)" "kernel_wf u" "task_count u = task_count s"
    "g_kernel_ticks u = g_kernel_ticks s + 1" "primask u = primask s" "mutexes u = mutexes s"
    "current_task u = current_task s" "g_current_task_index u = g_current_task_index s"
    and same: "\<And>i. i < task_count s \<Longrightarrow> i \<noteq> timer_service_task_index s \<or> \<not> timer_service_waiting s \<Longrightarrow>
       erased (tasks u i) = erased (task_ticked (g_kernel_ticks s + 1) (tasks s i))"
    and woken: "\<And>i. i < task_count s \<Longrightarrow> \<exists>x \<in> {tasks s i, awake 1 (tasks s i)}.
       erased (tasks u i) = erased (task_ticked (g_kernel_ticks s + 1) x)"
    by (rule tick_tasks_wf [OF wf], rule that)
  have "u = t" using t u(1) by simp
  have each: "\<exists>x \<in> {tasks s i, awake 1 (tasks s i)}. (x = tasks s i
        \<or> t_state (tasks s i) = JRT_TASK_STATE_BLOCKED \<and> t_wait_kind (tasks s i) \<notin> queue_kinds)
      \<and> erased (tasks t i) = erased (task_ticked (g_kernel_ticks s + 1) x)" if i: "i < task_count s" for i
  proof (cases "i \<noteq> timer_service_task_index s \<or> \<not> timer_service_waiting s")
    case True
    then show ?thesis using same [OF i] by (auto simp: \<open>u = t\<close>)
  next
    case False
    then have "t_state (tasks s i) = JRT_TASK_STATE_BLOCKED \<and> t_wait_kind (tasks s i) \<notin> queue_kinds"
      by (simp add: timer_service_waiting_def queue_kinds_def Let_def)
    then show ?thesis using woken [OF i] by (auto simp: \<open>u = t\<close>)
  qed
  have step: "t_private_data_size (tasks t i) = t_private_data_size (tasks s i)
     \<and> (t_state (tasks t i) = JRT_TASK_STATE_RUNNING \<longrightarrow> t_state (tasks s i) = JRT_TASK_STATE_RUNNING)
     \<and> (runnable (tasks s i) \<longrightarrow> runnable (tasks t i))
     \<and> (t_state (tasks s i) = JRT_TASK_STATE_SUSPENDED \<longrightarrow> t_state (tasks t i) = JRT_TASK_STATE_SUSPENDED)
     \<and> waits_less {} (tasks s i) (tasks t i) \<and> keeps_wait {} (tasks s i) (tasks t i)
     \<and> undisturbed (tasks s i) (tasks t i)" if i: "i < task_count s" for i
  proof -
    obtain x where x: "x \<in> {tasks s i, awake 1 (tasks s i)}"
      "x = tasks s i \<or> t_state (tasks s i) = JRT_TASK_STATE_BLOCKED \<and> t_wait_kind (tasks s i) \<notin> queue_kinds"
      "erased (tasks t i) = erased (task_ticked (g_kernel_ticks s + 1) x)" using each [OF i] by blast
    show ?thesis by (intro conjI impI tick_task_step [OF x])
  qed
  have "kernel_ok t"
  proof (rule kernel_okI [OF ok])
    show "cfg t = cfg s" "application_task_count t = application_task_count s" using b by (simp_all add: beside_tick_def)
    show "runnable (tasks t (idle_index s))" using step [OF idle_below [OF ok]] ok by (simp add: kernel_ok_def)
  qed (use u step in \<open>simp_all add: \<open>u = t\<close>\<close>)
  then show ?thesis using b step u(3) \<open>u = t\<close> by simp
qed

text \<open>What a switch may do to a task.\<close>

definition switch_task :: "task_t \<Rightarrow> task_t \<Rightarrow> bool" where
  "switch_task t u \<longleftrightarrow> t_priority u = t_priority t \<and> t_base_priority u = t_base_priority t
     \<and> t_private_data_size u = t_private_data_size t \<and> (task_invariant t = None \<longrightarrow> task_invariant u = None)
     \<and> (runnable t \<longrightarrow> runnable u) \<and> (t_state t = JRT_TASK_STATE_SUSPENDED \<longrightarrow> t_state u = JRT_TASK_STATE_SUSPENDED)
     \<and> (\<forall>ob k. waits_on ob k u = waits_on ob k t) \<and> waits_less {} t u \<and> undisturbed t u"

lemma switch_task_out: "switch_task t (switched_out sp m h t)"
  by (simp add: switch_task_def waits_less_def waits_on_def task_invariant_def runnable_def switched_out_def undisturbed_def)

lemma switch_task_in: "runnable t \<Longrightarrow> switch_task t (running t)"
  by (auto simp: switch_task_def waits_less_def waits_on_def task_invariant_def runnable_def running_def undisturbed_def)

lemma switch_keeps_wait: "switch_task t u \<Longrightarrow> keeps_wait K t u"
  by (simp add: switch_task_def keeps_wait_def)

lemma switch_task_refl [simp]: "switch_task t t"
  by (simp add: switch_task_def)

lemma switch_task_trans: "switch_task t u \<Longrightarrow> switch_task u v \<Longrightarrow> switch_task t v"
  using waits_less_trans [of "{}" t u v] undisturbed_trans [of t u v] by (auto simp: switch_task_def)

lemma switch_kernel_wf:
  assumes wf: "kernel_wf s" and still: "still t = still s" and n: "task_count t = task_count s"
    and ts: "\<And>i. switch_task (tasks s i) (tasks t i)"
  shows "kernel_wf t"
proof -
  have f: "cfg t = cfg s" "mutexes t = mutexes s" "mutex_list t = mutex_list s" "timers t = timers s"
    "timer_list t = timer_list s" "timer_service_task_index t = timer_service_task_index s"
    using still by (simp_all add: still_def)
  have w: "waits_on ob k (tasks t i) = waits_on ob k (tasks s i)" for ob k i using ts [of i] by (simp add: switch_task_def)
  have "tasks_wf t" using wf ts n by (simp add: kernel_wf_def tasks_wf_def switch_task_def)
  moreover have "mutexes_wf t" using wf mutexes_wf_cong [OF f(2,3) n] by (simp add: kernel_wf_def)
  moreover have "mutex_inv t"
  proof (rule mutex_inv_mono [OF _ _ f(2) n])
    have "waits_for (mutexes s) (tasks t) = waits_for (mutexes s) (tasks s)"
      by (intro ext) (simp add: waits_for_waits_on w)
    then have "exact (task_count s) (mutexes s) (tasks t) = exact (task_count s) (mutexes s) (tasks s)"
      using ts by (intro exact_cong) (simp_all add: mutex_waiters_of_def switch_task_def)
    then show "exact_priorities t" using wf by (simp add: exact_priorities_def kernel_wf_def mutex_inv_def f n)
  qed (use wf w in \<open>simp_all add: kernel_wf_def\<close>)
  moreover have "timer_inv t"
    by (rule timer_inv_cong [of t s]) (use wf w in \<open>simp_all add: f kernel_wf_def timer_waiting_waits_on\<close>)
  ultimately show ?thesis by (simp add: kernel_wf_def)
qed

lemma switch_stack_ok:
  assumes "pendsv_switch sp s = Inr r" shows "stack_pointer_ok (tasks s (current_task s)) sp"
proof (rule ccontr)
  assume "\<not> ?thesis"
  then obtain h where "pendsv_account sp (cs_enter s) = Inl h"
    using pendsv_account_fault [of "cs_enter s" sp] by auto
  with assms show False by (simp add: pendsv_switch_def arch_critical_enter_eq Let_def)
qed

lemma switch_step:
  assumes ok: "kernel_ok s" and r: "pendsv_switch sp s = Inr (r, t)"
  shows "kernel_ok t \<and> task_count t = task_count s \<and> still t = still s \<and> (\<forall>i. switch_task (tasks s i) (tasks t i))"
proof -
  have inv: "scheduler_inv s" using ok by (simp add: kernel_ok_def)
  from pendsv_switch_steps [OF inv idle_candidate [OF ok] switch_stack_ok [OF r]] r obtain m h i ts where
    ts: "ts = (tasks s)(current_task s := switched_out sp m h (tasks s (current_task s)))" "i \<in> candidates s"
      "tasks t = ts(i := running (ts i))" "current_task t = i" "g_current_task_index t = i" "task_count t = task_count s"
    by (auto simp: best_candidates_def)
  have st: "still t = still s" by (rule pendsv_switch_still [OF r])
  have out: "switch_task (tasks s j) (ts j)" for j by (simp add: ts(1) switch_task_out)
  have "runnable (tasks s i)" using ts(2) by (auto simp: candidates_def runnable_def)
  then have "runnable (ts i)" using out [of i] by (simp add: switch_task_def)
  then have each: "switch_task (tasks s j) (tasks t j)" for j
    using out [of j] switch_task_trans [OF out switch_task_in] by (simp add: ts(3))
  have "scheduler_inv t"
    unfolding scheduler_inv_def ts(4-6)
  proof (intro conjI allI impI)
    show "task_count s < 0x80000000" "i < task_count s" using inv ts(2) by (simp_all add: scheduler_inv_def candidates_def)
    show "j = i" if "j < task_count s" "t_state (tasks t j) = JRT_TASK_STATE_RUNNING" for j
    proof (rule ccontr)
      assume ne: "j \<noteq> i"
      then have "t_state (ts j) = JRT_TASK_STATE_RUNNING" using that(2) by (simp add: ts(3))
      then have "j \<noteq> current_task s" "t_state (tasks s j) = JRT_TASK_STATE_RUNNING"
        by (simp_all add: ts(1) split: if_splits)
      moreover have "current_task s = g_current_task_index s" using inv by (simp add: scheduler_inv_def)
      ultimately show False using inv that(1) unfolding scheduler_inv_def by metis
    qed
    show "valid_private_size (t_private_data_size (tasks t j))" if "j < task_count s" for j
      using that inv each [of j] by (simp add: scheduler_inv_def switch_task_def)
  qed simp
  moreover have "kernel_wf t"
    by (rule switch_kernel_wf [OF _ st ts(6) each]) (use ok in \<open>simp add: kernel_ok_def\<close>)
  moreover have "runnable (tasks t (idle_index t))"
    using ok each [of "idle_index s"] by (simp add: kernel_ok_def idle_index_def ts(6) switch_task_def)
  ultimately show ?thesis
    using ok st each ts(6) by (simp add: kernel_ok_def still_def)
qed

section \<open>No wake-up is lost\<close>

text \<open>
  No task waits for a semaphore that is available, for event bits that are set or for a notification
  that has arrived. (For mutexes and the timer service this is part of \<open>kernel_wf\<close>.)
\<close>

definition wakeups_ok :: "kstate \<Rightarrow> bool" where
  "wakeups_ok s \<longleftrightarrow> (\<forall>sem. token_ok (token_of sem s)) \<and> (\<forall>g. event_inv g s) \<and> notification_inv s"

definition tokens where
  "tokens s = (semaphores s, event_groups s)"

lemma tokens_kept:
  assumes less: "\<And>i. i < task_count s \<Longrightarrow> waits_less K (tasks s i) (tasks t i)" and n: "task_count t = task_count s"
  shows "TASK_WAIT_SEMAPHORE \<notin> K \<Longrightarrow> semaphores t = semaphores s \<Longrightarrow> token_ok (token_of sem s) \<Longrightarrow> token_ok (token_of sem t)"
    and "TASK_WAIT_EVENT_GROUP \<notin> K \<Longrightarrow> event_groups t = event_groups s \<Longrightarrow> event_inv g s \<Longrightarrow> event_inv g t"
    and "TASK_WAIT_NOTIFICATION \<notin> K \<Longrightarrow> notification_inv s \<Longrightarrow> notification_inv t"
proof -
  show "token_ok (token_of sem t)" if "TASK_WAIT_SEMAPHORE \<notin> K" "semaphores t = semaphores s" "token_ok (token_of sem s)"
  proof -
    have "kernel_waiters sem TASK_WAIT_SEMAPHORE t \<subseteq> kernel_waiters sem TASK_WAIT_SEMAPHORE s"
      using less that(1) by (auto simp: kernel_waiters_def waiters_def n waits_less_def)
    with that show ?thesis by (auto simp: token_ok_def token_of_def)
  qed
  show "event_inv g t" if "TASK_WAIT_EVENT_GROUP \<notin> K" "event_groups t = event_groups s" "event_inv g s"
    using that less unfolding event_inv_def n waits_less_def by metis
  show "notification_inv t" if "TASK_WAIT_NOTIFICATION \<notin> K" "notification_inv s"
    unfolding notification_inv_def n
  proof (intro allI impI)
    fix i assume i: "i < task_count s" "t_state (tasks t i) = JRT_TASK_STATE_BLOCKED" "t_wait_kind (tasks t i) = TASK_WAIT_NOTIFICATION"
    then have "waits_on (t_wait_object (tasks t i)) TASK_WAIT_NOTIFICATION (tasks t i)" by (simp add: waits_on_def)
    with less [OF i(1)] that(1) have "waits_on (t_wait_object (tasks t i)) TASK_WAIT_NOTIFICATION (tasks s i)"
      "t_notification_value (tasks t i) = t_notification_value (tasks s i)" unfolding waits_less_def by blast+
    then show "t_notification_value (tasks t i) = 0" using that(2) i(1) by (simp add: notification_inv_def waits_on_def)
  qed
qed

lemma wakeups_kept:
  assumes "\<And>i. i < task_count s \<Longrightarrow> waits_less K (tasks s i) (tasks t i)" and "task_count t = task_count s"
    and "tokens t = tokens s" and "K \<inter> {TASK_WAIT_SEMAPHORE, TASK_WAIT_EVENT_GROUP, TASK_WAIT_NOTIFICATION} = {}"
    and "wakeups_ok s"
  shows "wakeups_ok t"
  using tokens_kept [OF assms(1,2)] assms(3-5) unfolding wakeups_ok_def tokens_def by auto

text \<open>
  What a step owes: the invariant, the wake-ups, suspended tasks outside \<open>R\<close> left suspended, waits for
  queues ended only by a timeout unless their kind is in \<open>K\<close>, and the results of finished waits kept
  for all tasks outside \<open>C\<close>.
\<close>

definition outcome :: "task_wait_kind_t set \<Rightarrow> u32 set \<Rightarrow> u32 set \<Rightarrow> kstate \<Rightarrow> kstate \<Rightarrow> bool" where
  "outcome K C R s t \<longleftrightarrow> kernel_ok t \<and> task_count t = task_count s \<and> (wakeups_ok s \<longrightarrow> wakeups_ok t)
     \<and> (\<forall>i < task_count s. i \<notin> R \<longrightarrow> t_state (tasks s i) = JRT_TASK_STATE_SUSPENDED \<longrightarrow>
          t_state (tasks t i) = JRT_TASK_STATE_SUSPENDED)
     \<and> (\<forall>i < task_count s. keeps_wait K (tasks s i) (tasks t i) \<and> (i \<notin> C \<longrightarrow> undisturbed (tasks s i) (tasks t i))
          \<and> waits_less (K \<union> - queue_kinds) (tasks s i) (tasks t i))"

lemma undisturbed_keeps: "keeps_wait K t u \<Longrightarrow> t_state t \<noteq> JRT_TASK_STATE_RUNNING \<Longrightarrow> undisturbed t u"
  by (simp add: keeps_wait_def)

lemma waits_less_mono: "waits_less K t u \<Longrightarrow> K \<subseteq> K' \<Longrightarrow> waits_less K' t u"
  by (auto simp: waits_less_def)

text \<open>A quiet step whose stopped tasks are the running one, or were running, disturbs nobody else.\<close>

lemma outcomeI:
  assumes "kernel_ok s" and "quiet K B R s t" and "TASK_WAIT_TIMER_SERVICE \<notin> K" and "idle_index s \<notin> B"
    and "wakeups_ok s \<Longrightarrow> wakeups_ok t" and "B \<subseteq> C \<or> current_task s \<in> C" and "K \<inter> queue_kinds \<subseteq> K'"
  shows "outcome K' C R s t"
proof -
  have q: "\<And>i. quiet_task K (tasks s i) (tasks t i)" "\<And>i. i \<notin> B \<Longrightarrow> undisturbed (tasks s i) (tasks t i)"
    using assms(2) by (simp_all add: quiet_def)
  have inv: "scheduler_inv s" using assms(1) by (simp add: kernel_ok_def)
  have "undisturbed (tasks s i) (tasks t i)" if "i < task_count s" "i \<notin> C" for i
  proof (cases "i \<in> B")
    case True
    then have "i \<noteq> current_task s" using assms(6) that(2) by blast
    then have "t_state (tasks s i) \<noteq> JRT_TASK_STATE_RUNNING" using inv that(1) by (auto simp: scheduler_inv_def)
    then show ?thesis using q(1) [of i] undisturbed_keeps by (auto simp: quiet_task_def)
  qed (rule q(2))
  moreover have "keeps_wait K' (tasks s i) (tasks t i)" for i
    using q(1) [of i] assms(7) by (auto simp: quiet_task_def keeps_wait_def)
  moreover have "waits_less (K' \<union> - queue_kinds) (tasks s i) (tasks t i)" for i
    using q(1) [of i] assms(7) by (auto simp: quiet_task_def intro: waits_less_mono)
  ultimately show ?thesis
    using assms quiet_ok [OF assms(1-4)] basis_fields(2) [of t s] by (simp add: outcome_def quiet_def)
qed

lemma quiet_waits: "quiet K B R s t \<Longrightarrow> waits_less K (tasks s i) (tasks t i)" "quiet K B R s t \<Longrightarrow> task_count t = task_count s"
  using basis_fields(2) [of t s] by (simp_all add: quiet_def quiet_task_def)

lemma quiet_outcome:
  assumes "kernel_ok s" and "quiet K B R s t" and "idle_index s \<notin> B" and "tokens t = tokens s"
    and "K \<inter> {TASK_WAIT_SEMAPHORE, TASK_WAIT_EVENT_GROUP, TASK_WAIT_NOTIFICATION, TASK_WAIT_TIMER_SERVICE} = {}"
    and "B \<subseteq> C \<or> current_task s \<in> C" and "K \<inter> queue_kinds \<subseteq> K'"
  shows "outcome K' C R s t"
proof (rule outcomeI [OF assms(1,2)])
  show "wakeups_ok t" if "wakeups_ok s"
    by (rule wakeups_kept [OF quiet_waits [OF assms(2)] assms(4)]) (use assms(5) that in auto)
qed (use assms in auto)

section \<open>Operations that touch no token\<close>

lemma tokens_simps [simp]:
  "tokens (cs_enter s) = tokens s" "tokens (arch_critical_exit p s) = tokens s" "tokens (arch_request_switch s) = tokens s"
  "tokens (request_switch s) = tokens s" "tokens (arch_yield s) = tokens s" "tokens (set_queue queue q s) = tokens s"
  "tokens (set_task i task s) = tokens s" "tokens (task_benchmark_release_locked i c s) = tokens s"
  "tokens (task_benchmark_complete_locked i s) = tokens s" "tokens (task_benchmark_coalesced_locked i s) = tokens s"
  "tokens (task_wait_begin_until i ob k d s) = tokens s" "tokens (task_wait_begin i ob k n s) = tokens s"
  "tokens (task_wait_end i r c s) = tokens s" "tokens (count_context_misuse (\<lambda>s. s) s) = tokens s"
  "tokens (snd (task_wake ob k s)) = tokens s" "tokens (wake_receiver queue s) = tokens s" "tokens (wake_sender queue s) = tokens s"
  "tokens (queue_copy_in queue item res s) = tokens s" "tokens (queue_copy_out queue item res s) = tokens s"
  "tokens (snd (task_block_until_locked ob k d p s)) = tokens s" "tokens (sleep_current n s) = tokens s"
  by (simp_all add: tokens_def request_switch_def arch_request_switch_def arch_yield_def set_queue_def set_task_def
      release_frame complete_frame coalesced_frame task_wait_begin_until_eq task_wait_begin_eq task_wait_end_eq
      arch_critical_exit_eq cs_enter_def count_context_misuse_def task_wake_def task_wake_get_id_eq case_prod_beta
      wake_receiver_def wake_sender_def queue_copy_in_def queue_copy_out_def task_block_until_locked_def
      sleep_current_def arch_critical_enter_eq Let_def)

lemma tokens_updates [simp]:
  "tokens (s\<lparr>ipsr := x\<rparr>) = tokens s" "tokens (s\<lparr>mem32 := m32\<rparr>) = tokens s" "tokens (s\<lparr>mem8 := m8\<rparr>) = tokens s"
  "tokens (s\<lparr>pools := ps\<rparr>) = tokens s" "tokens (s\<lparr>queues := qs\<rparr>) = tokens s" "tokens (s\<lparr>benchmark_records := rs\<rparr>) = tokens s"
  "tokens (s\<lparr>g_isr_queue_send_attempted := x\<rparr>) = tokens s" "tokens (s\<lparr>g_isr_queue_send_accepted := x\<rparr>) = tokens s"
  "tokens (s\<lparr>g_isr_queue_send_dropped := x\<rparr>) = tokens s" "tokens (s\<lparr>g_isr_queue_count_high_water := x\<rparr>) = tokens s"
  "tokens (s\<lparr>g_svc_invalid_context := x\<rparr>) = tokens s" "tokens (s\<lparr>g_svc_invalid_service := x\<rparr>) = tokens s"
  by (simp_all add: tokens_def)

text \<open>The operations without semaphores and event groups keep both stores.\<close>

lemma tokens_misuse [simp]:
  "tokens (bump s) = tokens s \<Longrightarrow> tokens (count_context_misuse bump s) = tokens s"
  by (simp add: count_context_misuse_def tokens_def Let_def)

lemma tokens_queues:
  "tokens (JRT_QueueCreateStatic queue storage capacity item_size s) = tokens s"
  "arch_in_isr s = 0 \<Longrightarrow> tokens (snd (queue_send_pass queue item timeout d r s)) = tokens s"
  "arch_in_isr s = 0 \<Longrightarrow> tokens (snd (queue_receive_pass queue item timeout d r s)) = tokens s"
  "tokens (snd (JRT_QueueSendFromISR queue item s)) = tokens s"
proof -
  have m: "tokens (s\<lparr>g_sync_misuse_queue_send_from_isr := x\<rparr>) = tokens s" for x by (simp add: tokens_def)
  show "tokens (snd (JRT_QueueSendFromISR queue item s)) = tokens s"
    by (simp add: JRT_QueueSendFromISR_def arch_critical_enter_eq Let_def m)
qed (simp_all add: JRT_QueueCreateStatic_def queue_send_pass_def queue_receive_pass_def arch_critical_enter_eq Let_def)

lemma tokens_notifications:
  "event_groups (snd (task_notify_common i v isr s)) = event_groups s"
  "semaphores (snd (task_notify_common i v isr s)) = semaphores s"
proof -
  have "tokens (snd (task_notify_common i v isr s)) = tokens s"
    by (simp add: task_notify_common_def arch_critical_enter_eq Let_def)
  then show "event_groups (snd (task_notify_common i v isr s)) = event_groups s"
    "semaphores (snd (task_notify_common i v isr s)) = semaphores s" by (simp_all add: tokens_def)
qed

lemma tokens_others:
  "tokens (snd (kernel_task_suspend req s)) = tokens s" "tokens (snd (kernel_task_resume req s)) = tokens s"
  "tokens (JRT_MemoryPoolCreateStatic pool storage block_size block_count bitmap s) = tokens s"
  "tokens (snd (JRT_MemoryPoolAllocate pool s)) = tokens s" "tokens (snd (JRT_MemoryPoolFree pool block s)) = tokens s"
  "tokens (snd (JRT_BenchmarkReset s)) = tokens s"
proof -
  have b: "tokens (for_upto n (\<lambda>i s. set_record i (f s i) s) u) = tokens u" for n f u
    by (rule for_upto_frame) (simp add: set_record_def)
  show "tokens (snd (JRT_BenchmarkReset s)) = tokens s"
    by (simp add: JRT_BenchmarkReset_def arch_critical_enter_eq Let_def b)
  show "tokens (JRT_MemoryPoolCreateStatic pool storage block_size block_count bitmap s) = tokens s"
    by (simp add: JRT_MemoryPoolCreateStatic_def)
  show "tokens (snd (JRT_MemoryPoolAllocate pool s)) = tokens s" "tokens (snd (JRT_MemoryPoolFree pool block s)) = tokens s"
    by (simp_all add: JRT_MemoryPoolAllocate_def JRT_MemoryPoolFree_def arch_critical_enter_eq Let_def split: option.splits)
qed (simp_all add: suspend_eq resume_eq Let_def)

section \<open>Supervisor calls\<close>

text \<open>The tasks a call can take out of the ready set, and the ones it can resume.\<close>

definition svc_stops :: "kstate \<Rightarrow> u32 set" where
  "svc_stops s = insert (current_task s) {i. i < application_task_count s}"

definition svc_resumes :: "addr \<Rightarrow> kstate \<Rightarrow> u32 set" where
  "svc_resumes frame s = (if svc_number frame s = 5 then {mem32 s frame} else {})"

lemma quiet_svc:
  assumes "thread_context s"
  shows "quiet {} (svc_stops s) (svc_resumes frame s) s (svc_dispatch frame exc_return s)"
    and "tokens (svc_dispatch frame exc_return s) = tokens s"
proof -
  have set: "quiet K B R u (set_r0 frame v t) = quiet K B R u t" "tokens (set_r0 frame v t) = tokens t" for K B R u v t
    by (simp_all add: set_r0_def quiet_def)
  have counters: "quiet K B R s (s\<lparr>g_svc_invalid_context := x\<rparr>)" "quiet K B R s (s\<lparr>g_svc_invalid_service := x\<rparr>)" for K B R x
    by (rule quiet_same; simp add: basis_def)+
  have led: "quiet K B R s (board_led_toggle s)" "tokens (board_led_toggle s) = tokens s" for K B R
    by (simp_all add: board_led_toggle_def write_reg_def quiet_same basis_def tokens_def)
  have sleep: "quiet {} (svc_stops s) R s (sleep_current n s)" for n R
    using quiet_mono [OF quiet_delay [OF assms, of n], of "{}" "svc_stops s" R] by (simp add: JRT_TaskDelay_def svc_stops_def)
  have suspend: "quiet {} (svc_stops s) R s (snd (kernel_task_suspend req s))" for req R
    by (rule quiet_mono [OF quiet_suspend]) (auto simp: svc_stops_def)
  have resume: "quiet {} (svc_stops s) {req} s (snd (kernel_task_resume req s))" for req
    by (rule quiet_mono [OF quiet_resume]) auto
  show "quiet {} (svc_stops s) (svc_resumes frame s) s (svc_dispatch frame exc_return s)"
    by (simp add: svc_dispatch_def Let_def case_prod_beta set counters led sleep suspend resume svc_resumes_def)
  show "tokens (svc_dispatch frame exc_return s) = tokens s"
    by (simp add: svc_dispatch_def Let_def case_prod_beta set led tokens_others)
qed

section \<open>Operations on semaphores, event groups and notifications\<close>

lemma wakeups_semaphore:
  assumes q: "quiet {TASK_WAIT_SEMAPHORE} B R s t" and eg: "event_groups t = event_groups s"
    and tok: "\<And>sem. token_ok (token_of sem s) \<Longrightarrow> token_ok (token_of sem t)" and ok: "wakeups_ok s"
  shows "wakeups_ok t"
  using tokens_kept(2,3) [OF quiet_waits [OF q]] eg tok ok unfolding wakeups_ok_def by auto

lemma semaphore_ops_groups:
  "arch_in_isr s = 0 \<Longrightarrow> event_groups (snd (semaphore_take_from sem timeout d s)) = event_groups s"
  "event_groups (JRT_SemaphoreGive sem s) = event_groups s" "event_groups (JRT_SemaphoreGiveFromISR sem s) = event_groups s"
  "event_groups (JRT_SemaphoreCreateBinaryStatic sem v s) = event_groups s"
proof -
  have b: "event_groups (snd (task_block_until_locked ob k d p u)) = event_groups u" for ob k d p u
    using tokens_simps by (simp add: tokens_def)
  have w: "event_groups (snd (task_wake ob k u)) = event_groups u" for ob k u
    using tokens_simps by (simp add: tokens_def)
  have g: "event_groups (give_token sem u) = event_groups u" for u
    by (simp add: give_token_def arch_critical_enter_eq case_prod_beta w set_semaphore_def)
  have m: "event_groups (count_context_misuse bump s) = event_groups (bump s)" for bump
    by (simp add: count_context_misuse_def Let_def)
  show "arch_in_isr s = 0 \<Longrightarrow> event_groups (snd (semaphore_take_from sem timeout d s)) = event_groups s"
    by (simp add: semaphore_take_from_def arch_critical_enter_eq b set_semaphore_def)
  show "event_groups (JRT_SemaphoreGive sem s) = event_groups s" "event_groups (JRT_SemaphoreGiveFromISR sem s) = event_groups s"
    by (simp_all add: JRT_SemaphoreGive_def JRT_SemaphoreGiveFromISR_def g m)
  show "event_groups (JRT_SemaphoreCreateBinaryStatic sem v s) = event_groups s"
    by (simp add: JRT_SemaphoreCreateBinaryStatic_def arch_critical_enter_eq set_semaphore_def)
qed

text \<open>Event groups: the semaphores are untouched; bits only grow with a wake-up or shrink.\<close>

lemma wakeups_event:
  assumes q: "quiet {TASK_WAIT_EVENT_GROUP} B R s t" and sem: "semaphores t = semaphores s"
    and ev: "\<And>g. event_inv g s \<Longrightarrow> event_inv g t" and ok: "wakeups_ok s"
  shows "wakeups_ok t"
  using tokens_kept(1,3) [OF quiet_waits [OF q]] sem ev ok unfolding wakeups_ok_def by auto

lemma event_ops_semaphores:
  "semaphores (JRT_EventGroupCreateStatic g s) = semaphores s"
  "semaphores (snd (event_group_set_bits_common g b isr s)) = semaphores s"
  "semaphores (snd (JRT_EventGroupWaitBits g b w c timeout s)) = semaphores s"
  "semaphores (snd (event_group_wait_resume g b s)) = semaphores s"
proof -
  have f: "semaphores (for_upto n (event_wake_step g) u) = semaphores u" for n u
    by (rule for_upto_frame) (simp add: event_wake_step_def task_wait_end_eq)
  show "semaphores (snd (event_group_set_bits_common g b isr s)) = semaphores s"
    by (simp add: event_group_set_bits_common_def arch_critical_enter_eq Let_def f set_event_bits_def)
qed (simp_all add: JRT_EventGroupCreateStatic_def JRT_EventGroupWaitBits_def event_group_wait_resume_def
    arch_critical_enter_eq Let_def set_event_bits_def task_wait_begin_eq task_wait_begin_until_eq arch_yield_def
    request_switch_def set_task_def)

lemma event_inv_create:
  assumes "event_inv g s" shows "event_inv g (JRT_EventGroupCreateStatic g' s)"
proof (rule event_inv_tasks [OF assms])
  have "eg_bits (event_groups s g) AND NOT (eg_bits (event_groups s g)) = 0" by simp
  then show "eg_bits (event_groups (JRT_EventGroupCreateStatic g' s) g) = eg_bits (event_groups s g)
      \<or> (\<exists>c. eg_bits (event_groups (JRT_EventGroupCreateStatic g' s) g) = eg_bits (event_groups s g) AND NOT c)"
    by (auto simp: JRT_EventGroupCreateStatic_def intro!: exI [of _ "eg_bits (event_groups s g)"])
qed (simp_all add: JRT_EventGroupCreateStatic_def)

text \<open>Notifications.\<close>

lemma wakeups_notification:
  assumes q: "quiet {TASK_WAIT_NOTIFICATION} B R s t" and tok: "tokens t = tokens s"
    and no: "notification_inv s \<Longrightarrow> notification_inv t" and ok: "wakeups_ok s"
  shows "wakeups_ok t"
  using tokens_kept(1,2) [OF quiet_waits [OF q]] tok no ok unfolding wakeups_ok_def tokens_def by auto

section \<open>The steps of the kernel\<close>

text \<open>
  Application code runs on a task that is RUNNING in Thread mode; the idle task calls nothing. A wait
  continues with its \<open>resume\<close> or a further \<open>pass\<close> when the task runs again; deadlines, timeouts, objects
  and values are arbitrary. Interrupts come and go at any point (\<open>interrupt\<close>), application code
  writes memory (\<open>memory\<close>), and the operations an interrupt may call need no context. The calls of a
  callback that \<open>JRT_TimerDispatch\<close> makes are steps of their own after its critical section. A step is one
  function of the kernel up to its return or its yield; what the code leaves to the caller is a
  premise: objects exist, and one in use is not created again, a recursive lock does not overflow its
  counter and a timeout is not over before the lock is attempted
  (\<open>mutex_lock_expired_leaves_boost\<close> shows what happens then).
\<close>

definition app_thread :: "kstate \<Rightarrow> bool" where
  "app_thread s \<longleftrightarrow> thread_context s \<and> current_task s \<noteq> idle_index s"

text \<open>What may happen at any moment: interrupts and ticks, switches, and the calls that never block.\<close>

inductive environment_step :: "kstate \<Rightarrow> kstate \<Rightarrow> bool" where
  interrupt: "environment_step s (s\<lparr>ipsr := e\<rparr>)"
| start: "JRT_KernelStart s = Inr t \<Longrightarrow> environment_step s t"
| tick_start: "environment_step s (arch_tick_start s)"
| memory: "environment_step s (s\<lparr>mem32 := m32, mem8 := m8\<rparr>)"
| tick: "tick_tasks s = Some (Inr t) \<Longrightarrow> environment_step s (request_switch t)"
| switch: "pendsv_switch sp s = Inr (r, t) \<Longrightarrow> environment_step s t"
| semaphore_create: "kernel_waiters ob TASK_WAIT_SEMAPHORE s = {} \<Longrightarrow>
    environment_step s (JRT_SemaphoreCreateBinaryStatic ob v s)"
| semaphore_give: "environment_step s (JRT_SemaphoreGive ob s)"
| semaphore_give_isr: "environment_step s (JRT_SemaphoreGiveFromISR ob s)"
| mutex_create: "ob \<noteq> NULL \<Longrightarrow> m_locked (mutexes s ob) = 0 \<Longrightarrow> JRT_MutexCreateRecursiveStatic ob s = Some t \<Longrightarrow> environment_step s t"
| event_create: "environment_step s (JRT_EventGroupCreateStatic g s)"
| event_set: "environment_step s (snd (JRT_EventGroupSetBits g bits s))"
| event_set_isr: "environment_step s (snd (JRT_EventGroupSetBitsFromISR g bits s))"
| notify: "environment_step s (snd (JRT_TaskNotify i v s))"
| notify_isr: "environment_step s (snd (JRT_TaskNotifyFromISR i v s))"
| timer_create: "JRT_TimerCreateStatic a s = Some t \<Longrightarrow> environment_step s t"
| timer_callback: "environment_step s (JRT_TimerSetCallback a callback argument s)"
| timer_start: "JRT_TimerStart a delay s = Some t \<Longrightarrow> environment_step s t"
| timer_periodic: "JRT_TimerStartPeriodic a period s = Some t \<Longrightarrow> environment_step s t"
| timer_restart: "JRT_TimerRestart a s = Some t \<Longrightarrow> environment_step s t"
| timer_stop: "environment_step s (JRT_TimerStop a s)"
| timer_take: "environment_step s (snd (JRT_TimerTakeExpirations a s))"
| pool_create: "environment_step s (JRT_MemoryPoolCreateStatic pool storage block_size block_count bitmap s)"
| pool_allocate: "environment_step s (snd (JRT_MemoryPoolAllocate pool s))"
| pool_free: "environment_step s (snd (JRT_MemoryPoolFree pool block s))"
| timer_dispatch: "environment_step s (JRT_TimerDispatch (\<lambda>_ _ s. s) a s)"
| benchmark_reset: "environment_step s (snd (JRT_BenchmarkReset s))"
| benchmark_info: "environment_step s (snd (snd (JRT_BenchmarkGetInfo p s)))"
| benchmark_task: "environment_step s (snd (snd (JRT_BenchmarkGetTask i p info s)))"
| event_bits: "environment_step s (snd (JRT_EventGroupGetBits g s))"
| task_state: "environment_step s (snd (snd (JRT_TaskGetState i p s)))"
| task_stack: "environment_step s (snd (snd (JRT_TaskGetStackInfo i p s)))"
| task_name: "environment_step s (snd (snd (JRT_TaskGetName i p s)))"
| task_priority: "environment_step s (snd (snd (JRT_TaskGetPriority i p s)))"
| tick_hook_set: "environment_step s (JRT_KernelSetTickHook hook s)"

text \<open>The calls that can block or stop the running task, queues aside.\<close>

inductive thread_step :: "kstate \<Rightarrow> kstate \<Rightarrow> bool" where
  svc: "thread_step s (svc_dispatch frame exc_return s)"
| semaphore_take: "ob \<noteq> NULL \<Longrightarrow> thread_step s (snd (semaphore_take_from ob timeout d s))"
| mutex_lock: "ob \<noteq> NULL \<Longrightarrow> m_recursion (mutexes s ob) \<noteq> UINT32_MAX \<Longrightarrow>
    \<not> deadline_passed (g_kernel_ticks s) (dl_start d) (dl_tick d) (dl_forever d) \<Longrightarrow>
    thread_step s (snd (mutex_lock_from ob timeout d (g_current_task_index s) s))"
| mutex_unlock: "ob \<noteq> NULL \<Longrightarrow> thread_step s (snd (JRT_MutexUnlock ob s))"
| event_wait: "thread_step s (snd (JRT_EventGroupWaitBits g bits wait_all clear timeout s))"
| event_resume: "thread_step s (snd (event_group_wait_resume g bits s))"
| notify_take: "thread_step s (snd (JRT_TaskNotifyTake p timeout s))"
| notify_resume: "thread_step s (snd (task_notify_resume s))"
| timer_claim: "current_task s = timer_service_task_index s \<Longrightarrow>
    kernel_timer_service_claim s = Some (claimed, t) \<Longrightarrow> thread_step s t"

text \<open>Queues.\<close>

inductive queue_step :: "kstate \<Rightarrow> kstate \<Rightarrow> bool" where
  queue_create: "queue_step s (JRT_QueueCreateStatic ob storage capacity item_size s)"
| queue_send: "app_thread s \<Longrightarrow> ob \<noteq> NULL \<Longrightarrow> queue_step s (snd (queue_send_pass ob item timeout d reserved s))"
| queue_receive: "app_thread s \<Longrightarrow> ob \<noteq> NULL \<Longrightarrow> queue_step s (snd (queue_receive_pass ob item timeout d reserved s))"
| queue_send_isr: "queue_step s (snd (JRT_QueueSendFromISR ob item s))"

inductive kernel_step :: "kstate \<Rightarrow> kstate \<Rightarrow> bool" where
  environment: "environment_step s t \<Longrightarrow> kernel_step s t"
| thread: "app_thread s \<Longrightarrow> thread_step s t \<Longrightarrow> kernel_step s t"
| queue: "queue_step s t \<Longrightarrow> kernel_step s t"

text \<open>The tasks a step may resume: only a supervisor call resumes one.\<close>

inductive resumed_by :: "kstate \<Rightarrow> kstate \<Rightarrow> u32 \<Rightarrow> bool" where
  "app_thread s \<Longrightarrow> svc_number frame s = 5 \<Longrightarrow> mem32 s frame = i \<Longrightarrow> resumed_by s (svc_dispatch frame exc_return s) i"

lemma app_threadD: "app_thread s \<Longrightarrow> thread_context s" "app_thread s \<Longrightarrow> idle_index s \<noteq> current_task s"
  by (auto simp: app_thread_def)

lemma current_below: "app_thread s \<Longrightarrow> current_task s < task_count s"
  unfolding app_thread_def thread_context_def by blast

lemma quiet_start:
  "JRT_KernelStart s = Inr t \<Longrightarrow> quiet {} {} {} s t \<and> tokens t = tokens s"
  "quiet {} {} {} s (arch_tick_start s) \<and> tokens (arch_tick_start s) = tokens s"
  by (auto simp: JRT_KernelStart_def arch_tick_init_def tick_init_def arch_tick_start_def write_reg_def Let_def quiet_def
      basis_def tokens_def split: if_splits)

text \<open>A query reads under a critical section and leaves everything as it was.\<close>

lemma quiet_queries:
  "quiet {} {} {} s (snd (snd (read_task out i get s))) \<and> tokens (snd (snd (read_task out i get s))) = tokens s"
  "quiet {} {} {} s (snd (JRT_EventGroupGetBits g s)) \<and> tokens (snd (JRT_EventGroupGetBits g s)) = tokens s"
  "quiet {} {} {} s (snd (snd (JRT_BenchmarkGetInfo p s))) \<and> tokens (snd (snd (JRT_BenchmarkGetInfo p s))) = tokens s"
  "quiet {} {} {} s (JRT_KernelSetTickHook hook s) \<and> tokens (JRT_KernelSetTickHook hook s) = tokens s"
  by (simp_all add: read_task_def JRT_EventGroupGetBits_def JRT_BenchmarkGetInfo_def JRT_KernelSetTickHook_def
      arch_critical_enter_eq critical_enter_def critical_exit_def quiet_def basis_def tokens_def Let_def)

lemma quiet_benchmark_task:
  "quiet {} {} {} s (snd (snd (JRT_BenchmarkGetTask i p info s)))
     \<and> tokens (snd (snd (JRT_BenchmarkGetTask i p info s))) = tokens s"
  by (simp add: JRT_BenchmarkGetTask_def JRT_TaskGetStackInfo_def read_task_def arch_critical_enter_eq Let_def)

lemma no_waits_outcome:
  assumes "kernel_ok t" and "task_count t = task_count s" and "tokens t = tokens s"
    and "\<And>i. i < task_count s \<Longrightarrow> waits_less K (tasks s i) (tasks t i)"
    and "K \<inter> {TASK_WAIT_SEMAPHORE, TASK_WAIT_EVENT_GROUP, TASK_WAIT_NOTIFICATION} = {}"
    and "\<And>i. i < task_count s \<Longrightarrow> t_state (tasks s i) = JRT_TASK_STATE_SUSPENDED \<Longrightarrow> t_state (tasks t i) = JRT_TASK_STATE_SUSPENDED"
    and "K \<inter> queue_kinds = {}" and "\<And>i. i < task_count s \<Longrightarrow> keeps_wait {} (tasks s i) (tasks t i)"
    and "\<And>i. i < task_count s \<Longrightarrow> i \<notin> C \<Longrightarrow> undisturbed (tasks s i) (tasks t i)"
  shows "outcome {} C {} s t"
proof -
  have "waits_less (- queue_kinds) (tasks s i) (tasks t i)" if "i < task_count s" for i
    by (rule waits_less_mono [OF assms(4) [OF that]]) (use assms(7) in blast)
  then show ?thesis using assms wakeups_kept [OF assms(4,2,3,5)] by (simp add: outcome_def)
qed

text \<open>Whoever is not running keeps its result when the waits are kept.\<close>

lemma keeps_undisturbed:
  "kernel_ok s \<Longrightarrow> keeps_wait K (tasks s i) u \<Longrightarrow> i < task_count s \<Longrightarrow> i \<notin> {current_task s} \<Longrightarrow> undisturbed (tasks s i) u"
  by (auto simp: kernel_ok_def scheduler_inv_def keeps_wait_def)

lemma mutex_outcome:
  assumes "kernel_ok s" and "kernel_ok t \<and> (\<forall>i. lock_task (tasks s i) (tasks t i)) \<and> beside_mutexes t = beside_mutexes s \<and> task_count t = task_count s"
  shows "outcome {} {current_task s} {} s t"
  by (rule no_waits_outcome [where K = "{TASK_WAIT_MUTEX}"])
    (use assms keeps_undisturbed [OF assms(1), of "{}"] in
      \<open>simp_all add: tokens_def beside_mutexes_def lock_task_def queue_kinds_def\<close>)

lemma timer_outcome:
  assumes "kernel_ok s" and "quiet_timers K B s t \<and> beside_timers t = beside_timers s" and "kernel_ok t"
    and "K \<subseteq> {TASK_WAIT_TIMER_SERVICE}"
  shows "outcome {} B {} s t"
proof (rule no_waits_outcome [where K = K, OF assms(3)])
  have q: "quiet K B {} s (t\<lparr>timers := timers s, timer_list := timer_list s\<rparr>)" using assms(2) by (simp add: quiet_timers_def)
  show "waits_less K (tasks s i) (tasks t i)" for i using quiet_waits(1) [OF q, of i] by simp
  show "t_state (tasks t i) = JRT_TASK_STATE_SUSPENDED" if "t_state (tasks s i) = JRT_TASK_STATE_SUSPENDED" for i
    using q that by (simp add: quiet_def)
  have "K \<inter> queue_kinds = {}" using assms(4) by (auto simp: queue_kinds_def)
  then show "K \<inter> queue_kinds = {}" "keeps_wait {} (tasks s i) (tasks t i)" for i
    using q by (auto simp: quiet_def quiet_task_def keeps_wait_def)
  show "undisturbed (tasks s i) (tasks t i)" if "i \<notin> B" for i using q that by (simp add: quiet_def)
qed (use assms in \<open>auto simp: tokens_def beside_timers_def\<close>)

lemma timer_op_outcome:
  assumes "kernel_ok s" and "quiet_timers {} {} s t \<and> beside_timers t = beside_timers s" and "timer_inv t"
  shows "outcome {} {} {} s t"
  using timer_outcome [OF assms(1,2)] timer_step_ok [OF assms(1), of "{}" "{}" t] assms by auto

lemma tick_outcome:
  assumes "kernel_ok s" and "tick_tasks s = Some (Inr t)" shows "outcome {} {} {} s (request_switch t)"
proof -
  note step = tick_step [OF assms]
  then have "outcome {} {} {} s t"
    by (intro no_waits_outcome [where K = "{}"]) (simp_all add: tokens_def beside_tick_def)
  moreover have "outcome {} {} {} t (request_switch t)"
    by (rule quiet_outcome [where K = "{}" and B = "{}"]) (use step in simp_all)
  moreover have "tasks (request_switch t) = tasks t" by simp
  ultimately show ?thesis by (simp add: outcome_def)
qed

lemma switch_outcome:
  assumes "kernel_ok s" and "pendsv_switch sp s = Inr (r, t)" shows "outcome {} {} {} s t"
  using switch_step [OF assms] switch_keeps_wait
  by (intro no_waits_outcome [where K = "{}"]) (simp_all add: tokens_def still_def switch_task_def)

lemma semaphore_outcome:
  assumes "kernel_ok s"
  shows "kernel_waiters ob TASK_WAIT_SEMAPHORE s = {} \<Longrightarrow> outcome {} {} {} s (JRT_SemaphoreCreateBinaryStatic ob v s)"
    and "app_thread s \<Longrightarrow> ob \<noteq> NULL \<Longrightarrow> outcome {} {current_task s} {} s (snd (semaphore_take_from ob timeout d s))"
    and "outcome {} {} {} s (JRT_SemaphoreGive ob s)" and "outcome {} {} {} s (JRT_SemaphoreGiveFromISR ob s)"
proof -
  have q: "outcome {} B {} s t" if "quiet K B {} s t" "K \<subseteq> {TASK_WAIT_SEMAPHORE}" "idle_index s \<notin> B"
    "event_groups t = event_groups s" "\<And>sem. token_ok (token_of sem s) \<Longrightarrow> token_ok (token_of sem t)" for K B t
    by (rule outcomeI [OF assms(1) that(1)])
      (use that wakeups_semaphore [OF quiet_mono [OF that(1,2)] that(4,5), of B "{}"] in \<open>auto simp: queue_kinds_def\<close>)
  show "outcome {} {} {} s (JRT_SemaphoreCreateBinaryStatic ob v s)" if "kernel_waiters ob TASK_WAIT_SEMAPHORE s = {}"
    by (rule q [OF quiet_semaphore_create]) (simp_all add: semaphore_ops_groups create_tokens that)
  show "outcome {} {current_task s} {} s (snd (semaphore_take_from ob timeout d s))" if "app_thread s" "ob \<noteq> NULL"
    by (rule q [OF quiet_semaphore_take [OF app_threadD(1) [OF that(1)] that(2)]])
      (use app_threadD [OF that(1)] in \<open>simp_all add: semaphore_ops_groups thread_not_isr take_tokens current_below that\<close>)
  show "outcome {} {} {} s (JRT_SemaphoreGive ob s)" "outcome {} {} {} s (JRT_SemaphoreGiveFromISR ob s)"
    by (rule q [OF quiet_semaphore_give(1)] q [OF quiet_semaphore_give(2)];
        simp add: semaphore_ops_groups give_tokens)+
qed

lemma event_outcome:
  assumes "kernel_ok s"
  shows "outcome {} {} {} s (JRT_EventGroupCreateStatic g s)"
    and "outcome {} {} {} s (snd (event_group_set_bits_common g bits isr s))"
    and "app_thread s \<Longrightarrow> outcome {} {current_task s} {} s (snd (JRT_EventGroupWaitBits g bits w c timeout s))"
    and "outcome {} {} {} s (snd (event_group_wait_resume g bits s))"
proof -
  have q: "outcome {} B {} s t" if "quiet K B {} s t" "K \<subseteq> {TASK_WAIT_EVENT_GROUP}" "idle_index s \<notin> B"
    "semaphores t = semaphores s" "\<And>g. event_inv g s \<Longrightarrow> event_inv g t" for K B t
    by (rule outcomeI [OF assms(1) that(1)])
      (use that wakeups_event [OF quiet_mono [OF that(1,2)] that(4,5), of B "{}"] in \<open>auto simp: queue_kinds_def\<close>)
  show "outcome {} {} {} s (JRT_EventGroupCreateStatic g s)"
    by (rule q [OF quiet_event_create]) (simp_all add: event_ops_semaphores event_inv_create)
  show "outcome {} {} {} s (snd (event_group_set_bits_common g bits isr s))"
    by (rule q [OF quiet_set_bits_common]) (simp_all add: event_ops_semaphores event_inv_set_bits)
  show "outcome {} {current_task s} {} s (snd (JRT_EventGroupWaitBits g bits w c timeout s))" if "app_thread s"
    by (rule q [OF quiet_wait_bits [OF app_threadD(1) [OF that]]])
      (use app_threadD [OF that] in \<open>simp_all add: event_ops_semaphores event_inv_wait current_below that\<close>)
  show "outcome {} {} {} s (snd (event_group_wait_resume g bits s))"
    by (rule q [OF quiet_wait_resume]) (simp_all add: event_ops_semaphores event_inv_resume)
qed

lemma notification_outcome:
  assumes "kernel_ok s"
  shows "outcome {} {} {} s (snd (task_notify_common i v isr s))"
    and "app_thread s \<Longrightarrow> outcome {} {current_task s} {} s (snd (JRT_TaskNotifyTake p timeout s))"
    and "app_thread s \<Longrightarrow> outcome {} {} {} s (snd (task_notify_resume s))"
proof -
  have q: "outcome {} B {} s t" if "quiet K B {} s t" "K \<subseteq> {TASK_WAIT_NOTIFICATION}" "idle_index s \<notin> B"
    "tokens t = tokens s" "notification_inv s \<Longrightarrow> notification_inv t" for K B t
    by (rule outcomeI [OF assms(1) that(1)])
      (use that wakeups_notification [OF quiet_mono [OF that(1,2)] that(4,5), of B "{}"] in \<open>auto simp: queue_kinds_def\<close>)
  show "outcome {} {} {} s (snd (task_notify_common i v isr s))"
    by (rule q [OF quiet_notify]) (simp_all add: tokens_def tokens_notifications notification_inv_notify)
  show "outcome {} {current_task s} {} s (snd (JRT_TaskNotifyTake p timeout s))" if a: "app_thread s"
  proof (rule q [OF quiet_notify_take [OF app_threadD(1) [OF a]]])
    show "task_address (cfg s) (current_task s) \<noteq> NULL" using assms current_below [OF a] by (simp add: kernel_ok_def)
    show "tokens (snd (JRT_TaskNotifyTake p timeout s)) = tokens s"
      by (simp add: JRT_TaskNotifyTake_def arch_critical_enter_eq Let_def)
  qed (use app_threadD [OF a] in \<open>simp_all add: notification_inv_take\<close>)
  show "outcome {} {} {} s (snd (task_notify_resume s))" if "app_thread s"
  proof (rule q [OF quiet_notify_resume [OF app_threadD(1) [OF that]]])
    show "tokens (snd (task_notify_resume s)) = tokens s"
      by (simp add: task_notify_resume_def arch_critical_enter_eq Let_def)
  qed (simp_all add: notification_inv_resume)
qed

lemma svc_outcome:
  assumes "kernel_ok s" and "app_thread s"
  shows "outcome {} {current_task s} {i. resumed_by s (svc_dispatch frame exc_return s) i} s (svc_dispatch frame exc_return s)"
proof (rule quiet_outcome [where K = "{}", OF assms(1) quiet_mono [OF quiet_svc(1)]])
  show "idle_index s \<notin> svc_stops s"
    using app_threadD(2) [OF assms(2)] idle_not_application [OF assms(1)] by (simp add: svc_stops_def)
  show "svc_resumes frame s \<subseteq> {i. resumed_by s (svc_dispatch frame exc_return s) i}"
    using assms(2) by (auto simp: svc_resumes_def intro: resumed_by.intros)
qed (use app_threadD [OF assms(2)] in \<open>simp_all add: quiet_svc\<close>)

lemma timer_outcomes:
  assumes ok: "kernel_ok s"
  shows "JRT_TimerCreateStatic a s = Some t \<Longrightarrow> outcome {} {} {} s t"
    and "JRT_TimerStart a d s = Some t \<Longrightarrow> outcome {} {} {} s t"
    and "JRT_TimerStartPeriodic a d s = Some t \<Longrightarrow> outcome {} {} {} s t"
    and "JRT_TimerRestart a s = Some t \<Longrightarrow> outcome {} {} {} s t"
    and "outcome {} {} {} s (JRT_TimerStop a s)" and "outcome {} {} {} s (snd (JRT_TimerTakeExpirations a s))"
    and "outcome {} {} {} s (JRT_TimerSetCallback a cb arg s)"
proof -
  have inv: "timer_inv s" using ok by (simp add: kernel_ok_def kernel_wf_def)
  note step = timer_op_outcome [OF ok]
  show "JRT_TimerCreateStatic a s = Some t \<Longrightarrow> outcome {} {} {} s t"
    using step [OF timer_ops_quiet(1)] create_timer_inv [OF inv, of a] by simp
  show "JRT_TimerStart a d s = Some t \<Longrightarrow> outcome {} {} {} s t"
    using step [OF timer_ops_quiet(2)] start_invs(1) [OF inv, of a d] by simp
  show "JRT_TimerStartPeriodic a d s = Some t \<Longrightarrow> outcome {} {} {} s t"
    using step [OF timer_ops_quiet(3)] start_invs(2) [OF inv, of a d] by simp
  show "JRT_TimerRestart a s = Some t \<Longrightarrow> outcome {} {} {} s t"
    using step [OF timer_ops_quiet(4)] start_invs(3) [OF inv, of a] by simp
  show "outcome {} {} {} s (JRT_TimerStop a s)" "outcome {} {} {} s (snd (JRT_TimerTakeExpirations a s))"
    by (rule step [OF timer_ops_quiet(5)] step [OF timer_ops_quiet(6)]; rule stop_invs [OF inv])+
  show "outcome {} {} {} s (JRT_TimerSetCallback a cb arg s)"
    by (rule step [OF timer_callback_quiet set_callback_inv [OF inv]])
qed

lemma outcome_weaken:
  assumes "outcome K C R s t" and "K \<subseteq> K'" and "C \<subseteq> C'" and "R \<subseteq> R'"
  shows "outcome K' C' R' s t"
proof -
  have "K \<union> - queue_kinds \<subseteq> K' \<union> - queue_kinds" using assms(2) by auto
  note mono = keeps_wait_mono [OF _ assms(2)] waits_less_mono [OF _ this]
  show ?thesis using assms(1,3,4) by (auto simp: outcome_def intro: mono)
qed

lemma outcome_mono: "outcome K C {} s t \<Longrightarrow> K \<subseteq> K' \<Longrightarrow> C \<subseteq> C' \<Longrightarrow> outcome K' C' R s t"
  by (rule outcome_weaken [where R = "{}"]) simp_all

lemma timer_inv_critical: "timer_inv (arch_critical_exit p (cs_enter s)) = timer_inv s"
  by (simp add: timer_inv_def timer_service_waiting_def)

lemma timer_dispatch_inv: "timer_inv s \<Longrightarrow> timer_inv (JRT_TimerDispatch (\<lambda>_ _ s. s) a s)"
  using update_timer_inv [of s "(timers s a)\<lparr>tm_expirations := 0\<rparr>" a]
    timer_inv_critical [of "primask s" s]
  by (simp add: JRT_TimerDispatch_def arch_critical_enter_eq Let_def id_def [symmetric] timer_fault_def servable_def)

lemma query_outcome: "kernel_ok s \<Longrightarrow> quiet {} {} {} s t \<and> tokens t = tokens s \<Longrightarrow> outcome {} {} {} s t"
  by (rule quiet_outcome [where K = "{}" and B = "{}"]) auto

text \<open>Every step does what it owes.\<close>

lemma environment_outcome:
  assumes "environment_step s t" and ok: "kernel_ok s"
  shows "outcome {} {} {} s t"
  using assms(1)
proof cases
  case (interrupt e)
  then show ?thesis using quiet_outcome [OF ok quiet_environment(1)] by simp
next
  case (memory m32 m8)
  then show ?thesis using quiet_outcome [OF ok quiet_environment(2)] by simp
next
  case (switch sp r)
  then show ?thesis using switch_outcome [OF ok] by blast
next
  case (mutex_create ob)
  note step = mutex_create_step [OF ok mutex_create]
  show ?thesis by (rule no_waits_outcome [where K = "{}"]) (use step in \<open>simp_all add: tokens_def beside_mutexes_def\<close>)
next
  case (event_set g bits)
  then show ?thesis using event_outcome(2) [OF ok, of g bits 0, folded JRT_EventGroupSetBits_def] by simp
next
  case (event_set_isr g bits)
  have "outcome {} {} {} s s" using ok by (simp add: outcome_def)
  then show ?thesis using event_set_isr event_outcome(2) [OF ok, of g bits 1] by (simp add: JRT_EventGroupSetBitsFromISR_def)
next
  case (notify i v)
  then show ?thesis using notification_outcome(1) [OF ok, of i v 0, folded JRT_TaskNotify_def] by simp
next
  case (notify_isr i v)
  then show ?thesis using notification_outcome(1) [OF ok, of i v 1, folded JRT_TaskNotifyFromISR_def] by simp
next
  case (pool_create pool storage block_size block_count bitmap)
  then show ?thesis using quiet_outcome [OF ok quiet_pools(1)] by (simp add: tokens_others)
next
  case (pool_allocate pool)
  then show ?thesis using quiet_outcome [OF ok quiet_pools(2)] by (simp add: tokens_others)
next
  case (pool_free pool block)
  then show ?thesis using quiet_outcome [OF ok quiet_pools(3)] by (simp add: tokens_others)
next
  case (timer_dispatch a)
  then show ?thesis
    using timer_op_outcome [OF ok timer_dispatch_quiet timer_dispatch_inv] ok
    by (simp add: kernel_ok_def kernel_wf_def)
next
  case benchmark_reset
  then show ?thesis using quiet_outcome [OF ok quiet_benchmark_reset] by (simp add: tokens_others)
qed (simp_all add: query_outcome [OF ok] quiet_start quiet_queries quiet_benchmark_task tick_outcome [OF ok]
    semaphore_outcome [OF ok] event_outcome(1) [OF ok] timer_outcomes [OF ok] JRT_TaskGetState_def JRT_TaskGetStackInfo_def JRT_TaskGetName_def
    JRT_TaskGetPriority_def)

lemma thread_outcome:
  assumes "thread_step s t" and ok: "kernel_ok s" and app: "app_thread s"
  shows "outcome {} {current_task s} {i. resumed_by s t i} s t"
proof -
  note ctx = app_threadD [OF app]
  have up: "outcome {} C {} s t \<Longrightarrow> C \<subseteq> {current_task s} \<Longrightarrow> outcome {} {current_task s} R s t" for C R t
    by (rule outcome_mono) simp_all
  from assms(1) show ?thesis
  proof cases
    case (svc frame exc_return)
    then show ?thesis using svc_outcome [OF ok app] by simp
  next
    case (semaphore_take ob timeout d)
    show ?thesis unfolding semaphore_take(1) by (rule up [OF semaphore_outcome(2) [OF ok app semaphore_take(2)]]) simp
  next
    case (mutex_lock ob d timeout)
    let ?l = "mutex_lock_from ob timeout d (g_current_task_index s) s"
    have "?l = (fst ?l, t)" using mutex_lock(1) by simp
    from mutex_outcome [OF ok mutex_lock_step [OF ok ctx(1) ctx(2) [symmetric] mutex_lock(2,4,3) this]]
    show ?thesis by (rule up) simp
  next
    case (mutex_unlock ob)
    have "JRT_MutexUnlock ob s = (fst (JRT_MutexUnlock ob s), t)" using mutex_unlock(1) by simp
    from mutex_outcome [OF ok mutex_unlock_step [OF ok ctx(1) mutex_unlock(2) this]]
    show ?thesis by (rule up) simp
  next
    case (event_wait g bits wait_all clear timeout)
    show ?thesis unfolding event_wait by (rule up [OF event_outcome(3) [OF ok app]]) simp
  next
    case (event_resume g bits)
    show ?thesis unfolding event_resume by (rule up [OF event_outcome(4) [OF ok]]) simp
  next
    case (notify_take p timeout)
    show ?thesis unfolding notify_take by (rule up [OF notification_outcome(2) [OF ok app]]) simp
  next
    case notify_resume
    show ?thesis unfolding notify_resume by (rule up [OF notification_outcome(3) [OF ok app]]) simp
  next
    case (timer_claim claimed)
    have "ld_timer_service_wait_object (cfg s) \<noteq> NULL" using ok by (simp add: kernel_ok_def)
    from timer_outcome [OF ok timer_claim_quiet [OF ctx(1) timer_claim(1) this timer_claim(2)]
        timer_claim_step [OF ok ctx(1) timer_claim(1) ctx(2) [symmetric] timer_claim(2)]] ctx(2)
    show ?thesis by (auto intro: up)
  qed
qed

lemma queue_outcome:
  assumes "queue_step s t" and ok: "kernel_ok s"
  shows "outcome queue_kinds {current_task s} {} s t"
  using assms(1)
proof cases
  case (queue_create ob storage capacity item_size)
  then show ?thesis using quiet_outcome [OF ok quiet_queue_create] by (simp add: tokens_queues)
next
  case (queue_send ob item timeout d reserved)
  then show ?thesis using quiet_outcome [OF ok quiet_queue_pass(1)] app_threadD [OF queue_send(2)]
    by (simp add: tokens_queues thread_not_isr queue_kinds_def)
next
  case (queue_receive ob item timeout d reserved)
  then show ?thesis using quiet_outcome [OF ok quiet_queue_pass(2)] app_threadD [OF queue_receive(2)]
    by (simp add: tokens_queues thread_not_isr queue_kinds_def)
next
  case (queue_send_isr ob item)
  then show ?thesis using quiet_outcome [OF ok quiet_send_from_isr] by (simp add: tokens_queues queue_kinds_def)
qed

lemma kernel_step_outcome:
  assumes "kernel_step s t" and "kernel_ok s"
  shows "outcome queue_kinds {current_task s} {i. resumed_by s t i} s t"
  using assms
proof cases
  case environment
  then show ?thesis by (rule outcome_mono [OF environment_outcome [OF _ assms(2)]]) simp_all
next
  case queue
  then show ?thesis by (rule outcome_mono [OF queue_outcome [OF _ assms(2)]]) simp_all
next
  case thread
  show ?thesis by (rule outcome_weaken [OF thread_outcome [OF thread(2) assms(2) thread(1)]]) simp_all
qed

interpretation kernel_run: invariant_system kernel_step "\<lambda>s. kernel_ok s \<and> wakeups_ok s"
  by unfold_locales (use kernel_step_outcome in \<open>auto simp: outcome_def\<close>)

section \<open>Reachable states\<close>

text \<open>
  What the start-up code and the linker leave to \<open>JRT_KernelInit\<close>: a checked configuration, the kernel's
  own objects at their linked places, the mutexes created so far free and the timer list in order.
\<close>

definition linked_tasks :: "jrt_config \<Rightarrow> bool" where
  "linked_tasks c \<longleftrightarrow> ld_tasks c \<noteq> NULL
     \<and> unat (ld_tasks c) + 104 * (unat (JRT_MAX_APPLICATION_TASKS c) + 2) \<le> 2 ^ 32"

definition before_init :: "kstate \<Rightarrow> bool" where
  "before_init s \<longleftrightarrow> config_checks (cfg s) \<and> linked_storage (cfg s) \<and> linked_tasks (cfg s)
     \<and> JRT_MAX_APPLICATION_TASKS (cfg s) < 0x7FFFFFF0 \<and> ld_timer_service_wait_object (cfg s) \<noteq> NULL
     \<and> mutexes_wf s \<and> (\<forall>a. m_locked (mutexes s a) = 0)
     \<and> (\<exists>xs. linked_timers s xs \<and> timers_ok True (timers s) (set xs))"

definition initialised :: "kstate \<Rightarrow> bool" where
  "initialised t \<longleftrightarrow> (\<exists>s p k. before_init s \<and> JRT_KernelInit p k s = Inr (JRT_STATUS_OK, t))"

lemma init_kernel_ok:
  assumes "initialised t" shows "kernel_ok t \<and> wakeups_ok t"
proof -
  obtain s p k where b: "before_init s" and r: "JRT_KernelInit p k s = Inr (JRT_STATUS_OK, t)"
    using assms by (auto simp: initialised_def)
  let ?n = "k_task_count k"
  have c: "config_checks (cfg s)" "linked_storage (cfg s)" "ld_timer_service_wait_object (cfg s) \<noteq> NULL"
    using b by (simp_all add: before_init_def)
  obtain T: "task_count t = ?n + 2" "application_task_count t = ?n" "cfg t = cfg s" "unat ?n + 3 < 4294967296"
    by (rule init_task_cases [OF c(1,2) r], rule that)
  obtain xs where "linked_timers s xs" "timers_ok True (timers s) (set xs)" using b by (auto simp: before_init_def)
  then have inv: "scheduler_inv t" "kernel_wf t" "task_count t - 1 \<in> candidates t"
    using init_establishes_invariants [OF c(1,2) _ c(3) _ _ _ _ r, of xs] b by (simp_all add: before_init_def)
  have n: "unat (?n + 2) = unat ?n + 2" using T(4) unat_add_small [of ?n 2] by simp
  have "?n \<le> JRT_MAX_APPLICATION_TASKS (cfg s)" using kernel_init_ok(1) [OF c(1,2) r] by (simp add: accepts_def)
  then have bound: "unat ?n \<le> unat (JRT_MAX_APPLICATION_TASKS (cfg s))" by (simp add: word_le_unat)
  have "task_address (cfg t) i \<noteq> NULL" if i: "i < task_count t" for i
  proof -
    have "unat i < unat ?n + 2" using i n by (simp add: T(1) word_less_unat)
    then have fits: "unat (ld_tasks (cfg s)) + 104 * unat i < 2 ^ 32"
      using b bound by (auto simp: before_init_def linked_tasks_def)
    then have "unat (104 * i) = 104 * unat i" using unat_mult_small [of 104 i] by simp
    then have "unat (ld_tasks (cfg s) + 104 * i) = unat (ld_tasks (cfg s)) + 104 * unat i"
      using fits unat_add_small [of "ld_tasks (cfg s)" "104 * i"] by simp
    moreover have "unat (ld_tasks (cfg s)) \<noteq> 0" using b by (simp add: before_init_def linked_tasks_def unat_eq_0)
    ultimately show ?thesis unfolding task_address_def T(3) by (metis add_is_0 unat_0)
  qed
  moreover have "runnable (tasks t (idle_index t))" using inv(3) by (auto simp: candidates_def runnable_def idle_index_def)
  ultimately have "kernel_ok t" using inv(1,2) c(3) by (simp add: kernel_ok_def T n)
  moreover have none: "\<not> waits_on ob w (tasks t i)" if "i < task_count t" "w \<noteq> TASK_WAIT_TIMER_SERVICE" for ob w i
    using init_tasks_facts(6) [OF c(1,2) r c(3) that(1)] that(2) by (auto simp: waits_on_def)
  have "wakeups_ok t"
    unfolding wakeups_ok_def
  proof (intro conjI allI)
    show "token_ok (token_of sem t)" for sem
      using none [where w = TASK_WAIT_SEMAPHORE] by (simp add: token_ok_def token_of_def kernel_waiters_def waiters_def)
    show "event_inv g t" for g using none by (simp add: event_inv_def)
    show "notification_inv t" using none [where w = TASK_WAIT_NOTIFICATION] by (auto simp: notification_inv_def waits_on_def)
  qed
  ultimately show ?thesis by blast
qed

lemma reachable_ok: "initialised s \<Longrightarrow> kernel_step\<^sup>*\<^sup>* s t \<Longrightarrow> kernel_ok t \<and> wakeups_ok t"
  by (rule kernel_run.run_inv) (auto dest: init_kernel_ok)

end
