(* ===== verification/JRT_Reachable.thy ===== *)
theory JRT_Reachable
  imports JRT_System
begin

text \<open>
  What holds whenever the kernel runs: the properties of every state that the steps of
  \<open>JRT_System\<close> reach from a successful \<open>JRT_KernelInit\<close>.
\<close>

section \<open>A kernel that was initialised\<close>

lemma reset_before_init: "before_init (reset_state default_config)"
proof -
  let ?s = "reset_state default_config"
  have c: "cfg ?s = default_config" "mutex_list ?s = 0" "timer_list ?s = 0" "timers ?s = (\<lambda>_. zero_timer)"
    "m_locked (mutexes ?s a) = 0" for a
    by (simp_all add: reset_state_def)
  have "mutexes_wf ?s" unfolding mutexes_wf_def by (rule exI [of _ "[]"]) (simp add: linked_mutexes_def c)
  moreover have "linked_timers ?s []" by (simp add: linked_timers_list c)
  moreover have "timers_ok True (timers ?s) (set [])" by (simp add: timers_ok_def c timer_fault_def zero_timer_def)
  moreover have "linked_tasks default_config" by (simp add: linked_tasks_def default_config_def)
  ultimately show ?thesis
    unfolding before_init_def c using config_checks_default linked_default no_mpu_default by auto
qed

lemma two_tasks_initialised:
  obtains t where "initialised t" "JRT_KernelInit 0x40 two_tasks (reset_state default_config) = Inr (JRT_STATUS_OK, t)"
    "task_count t = 4"
  using two_tasks_init reset_before_init unfolding initialised_def by metis

lemma reachable_invs:
  assumes "initialised s" and "kernel_step\<^sup>*\<^sup>* s t"
  shows "scheduler_inv t" "kernel_wf t" "runnable (tasks t (task_count t - 1))" "wakeups_ok t" "candidates t \<noteq> {}"
  using reachable_ok [OF assms] idle_candidate [of t] by (simp_all add: kernel_ok_def idle_index_def)

lemma upto_four: "(x :: u32) \<le> 4 \<Longrightarrow> x \<in> {0, 1, 2, 3, 4}"
proof -
  assume "x \<le> 4"
  then have "unat x \<le> 4" by (simp add: word_le_unat)
  then have "unat x = 0 \<or> unat x = 1 \<or> unat x = 2 \<or> unat x = 3 \<or> unat x = 4" by linarith
  then show ?thesis by (auto simp: word_eq_unat)
qed

section \<open>A run with a contended mutex\<close>

text \<open>
  Task 0 creates and locks a mutex and suspends itself through a supervisor call; task 1 is switched
  in and blocks on the mutex.
\<close>

definition stage :: "kstate \<Rightarrow> bool" where
  "stage t \<longleftrightarrow> task_count t = 4 \<and> application_task_count t = 2 \<and> kernel_initialized t = 1 \<and> kernel_started t = 1
     \<and> ipsr t = 0 \<and> current_task t = 0 \<and> g_current_task_index t = 0
     \<and> t_state (tasks t 0) = JRT_TASK_STATE_RUNNING \<and> t_state (tasks t 1) = JRT_TASK_STATE_READY
     \<and> t_state (tasks t 2) = JRT_TASK_STATE_BLOCKED \<and> t_state (tasks t 3) = JRT_TASK_STATE_READY
     \<and> t_priority (tasks t 3) < t_priority (tasks t 1) \<and> t_priority (tasks t 1) < t_priority (tasks t 0) \<and> stack_pointer_ok (tasks t 0) (t_sp (tasks t 0))"

lemma started_stage:
  obtains s t where "initialised s" "environment_step\<^sup>*\<^sup>* s t" "stage t" "mutex_list t = NULL" "\<And>a. m_locked (mutexes t a) = 0"
proof -
  obtain s where s: "initialised s" "JRT_KernelInit 0x40 two_tasks (reset_state default_config) = Inr (JRT_STATUS_OK, s)"
    by (rule two_tasks_initialised)
  have c: "config_checks (cfg (reset_state default_config))" "linked_storage (cfg (reset_state default_config))"
    by (simp_all add: reset_state_def config_checks_default linked_default)
  obtain T: "task_count s = 4" "current_task s = 0" "g_current_task_index s = 0" "application_task_count s = 2"
    "mutexes s = mutexes (reset_state default_config)" "mutex_list s = mutex_list (reset_state default_config)"
    "tasks s 0 = running (app_task task_a zero_task)" "tasks s 1 = app_task task_b zero_task"
    "tasks s 2 = service_task default_config 0 zero_task" "tasks s 3 = idle_task default_config zero_task"
    by (rule init_task_cases [OF c s(2)])
      (simp add: two_tasks_def reset_state_def)
  let ?t = "(arch_tick_init s)\<lparr>kernel_started := 1, ipsr := 0\<rparr>"
  have i: "kernel_initialized s = 1" by (rule kernel_init_ok(4) [OF c s(2)])
  have "JRT_KernelStart s = Inr ((arch_tick_init s)\<lparr>kernel_started := 1\<rparr>)" by (simp add: JRT_KernelStart_def i Let_def)
  then have "environment_step s ((arch_tick_init s)\<lparr>kernel_started := 1\<rparr>)" by (rule environment_step.start)
  moreover have "environment_step ((arch_tick_init s)\<lparr>kernel_started := 1\<rparr>) ?t"
    using environment_step.interrupt [of "(arch_tick_init s)\<lparr>kernel_started := 1\<rparr>" 0] by simp
  ultimately have "environment_step\<^sup>*\<^sup>* s ?t" by (meson r_into_rtranclp rtranclp_trans)
  moreover have f: "task_count ?t = task_count s" "application_task_count ?t = application_task_count s"
    "kernel_initialized ?t = 1" "current_task ?t = current_task s" "g_current_task_index ?t = g_current_task_index s"
    "tasks ?t = tasks s" "mutexes ?t = mutexes s" "mutex_list ?t = mutex_list s"
    using i by (simp_all add: arch_tick_init_def tick_init_def write_reg_def Let_def)
  have "stage ?t"
    unfolding stage_def f T
    by (simp add: running_def app_task_def task_a_def task_b_def service_task_def idle_task_def default_config_def
        prepared_def stack_pointer_ok_def blocked_on_def)
  moreover have "mutex_list ?t = NULL" "m_locked (mutexes ?t a) = 0" for a
    unfolding f T by (simp_all add: reset_state_def)
  ultimately show thesis using that s(1) by blast
qed

lemma environment_steps: "environment_step\<^sup>*\<^sup>* s t \<Longrightarrow> kernel_step\<^sup>*\<^sup>* s t"
  by (rule rtranclp_mono [THEN predicate2D]) (auto intro: kernel_step.environment)

lemma steps: "kernel_step\<^sup>*\<^sup>* s t \<Longrightarrow> kernel_step t u \<Longrightarrow> kernel_step\<^sup>*\<^sup>* s u"
  by (rule rtranclp.rtrancl_into_rtrancl)

lemma stage_thread: "stage t \<Longrightarrow> app_thread t"
  by (auto simp: stage_def app_thread_def thread_context_def idle_index_def)

lemma stage_locks:
  assumes "stage t" and "mutex_list t = NULL" and "m_locked (mutexes t 0x100) = 0"
  obtains u where "kernel_step\<^sup>*\<^sup>* t u" "stage u" "m_locked (mutexes u 0x100) = 1" "m_owner (mutexes u 0x100) = 0"
    "m_recursion (mutexes u 0x100) = 1"
proof -
  let ?d = "make_deadline (g_kernel_ticks t) JRT_WAIT_FOREVER"
  define v where "v = arch_critical_exit (primask t) ((set_mutex 0x100
     \<lparr>m_locked = 0, m_owner = UINT32_MAX, m_recursion = 0, m_next = 0\<rparr> (cs_enter t))\<lparr>mutex_list := 0x100\<rparr>)"
  have linked: "mutex_is_linked_from ms 0x100 NULL = Some 0" for ms by (simp add: mutex_is_linked_from.simps)
  have "JRT_MutexCreateRecursiveStatic 0x100 t = Some v"
    by (simp add: JRT_MutexCreateRecursiveStatic_def mutex_is_linked_locked_def mutex_link_locked_def arch_critical_enter_eq
        set_mutex_def assms(2) linked v_def Let_def)
  then have s1: "kernel_step t v" using assms(3) by (intro kernel_step.environment environment_step.mutex_create [of "0x100"]) simp_all
  have v: "stage v" "m_locked (mutexes v 0x100) = 0" "m_recursion (mutexes v 0x100) = 0" "g_kernel_ticks v = g_kernel_ticks t"
    using assms(1) by (simp_all add: v_def stage_def set_mutex_def arch_critical_exit_eq cs_enter_def)
  let ?u = "snd (mutex_lock_from 0x100 0 ?d (g_current_task_index v) v)"
  have s2: "kernel_step v ?u"
    by (rule kernel_step.thread [OF stage_thread [OF v(1)] thread_step.mutex_lock]) (simp_all add: v(3) deadline_passed_def make_deadline_def)
  have u: "?u = arch_critical_exit (primask v) (set_mutex 0x100 ((mutexes v 0x100)\<lparr>m_locked := 1, m_owner := 0, m_recursion := 1\<rparr>) (cs_enter v))"
    using v(1,2) by (simp add: mutex_lock_from_def arch_in_isr_def stage_def arch_critical_enter_eq Let_def cs_enter_def)
  show thesis
  proof (rule that)
    show "kernel_step\<^sup>*\<^sup>* t ?u" using s1 s2 by (meson r_into_rtranclp steps)
    show "stage ?u" "m_locked (mutexes ?u 0x100) = 1" "m_owner (mutexes ?u 0x100) = 0" "m_recursion (mutexes ?u 0x100) = 1"
      using v(1) unfolding u by (simp_all add: stage_def set_mutex_def arch_critical_exit_eq cs_enter_def)
  qed
qed

lemma stage_suspends:
  assumes "stage t"
  obtains u where "kernel_step\<^sup>*\<^sup>* t u" "mutexes u = mutexes t" "task_count u = 4" "current_task u = 0" "g_current_task_index u = 0"
    "tasks u = (tasks t)(0 := (tasks t 0)\<lparr>t_state := JRT_TASK_STATE_SUSPENDED\<rparr>)"
proof -
  let ?v = "t\<lparr>mem32 := (\<lambda>_. 0), mem8 := (\<lambda>_. 4)\<rparr>" and ?u = "svc_dispatch 0x1000 0xFFFFFFFD (t\<lparr>mem32 := (\<lambda>_. 0), mem8 := (\<lambda>_. 4)\<rparr>)"
  have v: "stage ?v" using assms by (simp add: stage_def)
  have s: "kernel_task_suspend 0 ?v = (JRT_STATUS_OK, arch_critical_exit (primask ?v) (set_task 0 ((tasks ?v 0)\<lparr>t_state := JRT_TASK_STATE_SUSPENDED\<rparr>)
            (task_benchmark_complete_locked 0 (cs_enter ?v))))"
    using v by (simp add: suspend_eq stage_def Let_def)
  have u: "?u = request_switch (set_r0 0x1000 0 (arch_critical_exit (primask ?v) (set_task 0 ((tasks ?v 0)\<lparr>t_state := JRT_TASK_STATE_SUSPENDED\<rparr>)
            (task_benchmark_complete_locked 0 (cs_enter ?v)))))"
    by (simp add: svc_dispatch_def svc_number_def s Let_def)
  show thesis
  proof (rule that)
    show "kernel_step\<^sup>*\<^sup>* t ?u"
      using kernel_step.environment [OF environment_step.memory] kernel_step.thread [OF stage_thread [OF v] thread_step.svc]
      by (meson r_into_rtranclp steps)
  qed (unfold u, use assms in \<open>simp_all add: stage_def request_switch_def set_r0_def set_task_def arch_critical_exit_eq complete_frame cs_enter_def\<close>)
qed

lemma contended_run:
  obtains s t u where "initialised s" "kernel_step\<^sup>*\<^sup>* s t" "kernel_step\<^sup>*\<^sup>* t u" "task_count t = 4" "task_count u = 4"
    "t_state (tasks t 0) = JRT_TASK_STATE_SUSPENDED" "t_state (tasks u 1) = JRT_TASK_STATE_BLOCKED"
    "waits_for (mutexes u) (tasks u) 1 0"
proof -
  obtain s a where s: "initialised s" "kernel_step\<^sup>*\<^sup>* s a" "stage a" "mutex_list a = NULL" "m_locked (mutexes a 0x100) = 0"
    using started_stage environment_steps by metis
  obtain b where b: "kernel_step\<^sup>*\<^sup>* a b" "stage b" "m_locked (mutexes b 0x100) = 1" "m_owner (mutexes b 0x100) = 0"
    "m_recursion (mutexes b 0x100) = 1"
    using stage_locks [OF s(3-5)] by metis
  obtain t where t: "kernel_step\<^sup>*\<^sup>* b t" "mutexes t = mutexes b" "task_count t = 4" "current_task t = 0" "g_current_task_index t = 0"
    "tasks t = (tasks b)(0 := (tasks b 0)\<lparr>t_state := JRT_TASK_STATE_SUSPENDED\<rparr>)"
    using stage_suspends [OF b(2)] by metis
  have run: "kernel_step\<^sup>*\<^sup>* s t" using s(2) b(1) t(1) by (meson rtranclp_trans)
  note inv = reachable_invs [OF s(1) run]
  have best: "best_candidates t \<subseteq> {1}"
  proof -
    have "candidates t = {1, 3}" using b(2) by (auto simp: candidates_def t below_four stage_def)
    then show ?thesis using b(2) by (auto simp: best_candidates_def t stage_def)
  qed
  have sp: "stack_pointer_ok (tasks t (current_task t)) (t_sp (tasks b 0))"
    using b(2) by (simp add: t stage_def stack_pointer_ok_def)
  from pendsv_switch_steps [OF inv(1,5) sp] obtain v m h i ts where
    v: "pendsv_switch (t_sp (tasks b 0)) t = Inr (t_sp (ts i), v)" "i \<in> best_candidates t"
      "tasks v = ts(i := running (ts i))" "current_task v = i" "g_current_task_index v = i" "task_count v = task_count t"
    by blast
  have i: "i = 1" using v(2) best by blast
  have mv: "mutexes v = mutexes t" using pendsv_switch_still [OF v(1)] by (simp add: still_def)
  let ?w = "v\<lparr>ipsr := 0\<rparr>" let ?d = "make_deadline (g_kernel_ticks v) JRT_WAIT_FOREVER"
  let ?l = "mutex_lock_from 0x100 1 ?d (g_current_task_index ?w) ?w"
  have app: "app_thread ?w"
    by (simp add: app_thread_def thread_context_def idle_index_def v(3-6) i t(3) running_def)
  have m: "m_locked (mutexes v 0x100) = 1" "m_owner (mutexes v 0x100) = 0" "m_recursion (mutexes v 0x100) = 1"
    using b(3-5) by (simp_all add: mv t(2))
  have d: "\<not> deadline_passed k (dl_start ?d) (dl_tick ?d) (dl_forever ?d)" for k by (simp add: deadline_passed_def make_deadline_def)
  have lock: "kernel_step ?w (snd ?l)" by (rule kernel_step.thread [OF app thread_step.mutex_lock]) (use d in \<open>simp_all add: m\<close>)
  have ctx: "thread_context ?w" using app by (simp add: app_thread_def)
  obtain ts' x where x: "kernel_step ?w x" and l: "mutexes x = mutexes v" "task_count x = 4"
    "tasks x = ts'(1 := blocked_on 0x100 TASK_WAIT_MUTEX ?d (ts' 1))"
    using mutex_lock_from_cases [OF ctx surjective_pairing, of "0x100" 1 ?d] d lock by (auto simp: m v(4-6) i t(3) Let_def)
  show thesis
  proof (rule that [OF s(1) run _ t(3) l(2)])
    have "kernel_step t v" by (rule kernel_step.environment [OF environment_step.switch [OF v(1)]])
    moreover have "kernel_step v ?w" by (rule kernel_step.environment [OF environment_step.interrupt])
    ultimately show "kernel_step\<^sup>*\<^sup>* t x" using x by (meson r_into_rtranclp steps)
  qed (use m in \<open>simp_all add: l t(6) waits_for_def blocked_on_mutex_def\<close>)
qed

section \<open>Properties of every reachable state\<close>

text \<open>C1: the kernel is sound at every moment. In every state that any sequence of kernel calls,
  interrupts, ticks and context switches reaches from a successful \<open>JRT_KernelInit\<close>, only the task both
  records name is RUNNING, the idle task is runnable, the periodic check passes, the next tick returns
  without a false alarm, and the next context switch finds a runnable task of the highest priority.\<close>

theorem reachable_kernel_sound:
  assumes "initialised s" and "kernel_step\<^sup>*\<^sup>* s t"
  shows "current_task t = g_current_task_index t \<and> current_task t < task_count t
    \<and> (\<forall>i < task_count t. t_state (tasks t i) = JRT_TASK_STATE_RUNNING \<longrightarrow> i = current_task t)
    \<and> runnable (tasks t (task_count t - 1))
    \<and> kernel_check_invariants_locked t = Some (Inr t)
    \<and> (\<exists>u. tick_tasks t = Some (Inr u) \<and> g_kernel_ticks u = g_kernel_ticks t + 1 \<and> kernel_wf u)
    \<and> (\<forall>sp. stack_pointer_ok (tasks t (current_task t)) sp \<longrightarrow>
         (\<exists>r u. pendsv_switch sp t = Inr (r, u) \<and> current_task u \<in> best_candidates t
            \<and> t_state (tasks u (current_task u)) = JRT_TASK_STATE_RUNNING))"
proof -
  note inv = reachable_invs [OF assms]
  have wf: "tasks_wf t" "mutexes_wf t" "timers_wf t" using inv(2) timer_inv_wf by (auto simp: kernel_wf_def)
  obtain u where "tick_tasks t = Some (Inr u)" "kernel_wf u" "g_kernel_ticks u = g_kernel_ticks t + 1"
    by (rule tick_tasks_wf [OF inv(2)], rule that)
  moreover have "\<exists>r u. pendsv_switch sp t = Inr (r, u) \<and> current_task u \<in> best_candidates t
      \<and> t_state (tasks u (current_task u)) = JRT_TASK_STATE_RUNNING"
    if "stack_pointer_ok (tasks t (current_task t)) sp" for sp
  proof -
    from pendsv_switch_steps [OF inv(1,5) that] obtain u m h i ts where
      "pendsv_switch sp t = Inr (t_sp (ts i), u)" "i \<in> best_candidates t" "tasks u = ts(i := running (ts i))"
      "current_task u = i" by blast
    then show ?thesis by auto
  qed
  ultimately show ?thesis
    using inv(1,3) kernel_check_pass [OF wf] by (auto simp: scheduler_inv_def)
qed

text \<open>A wait for something that is not there.\<close>

definition waits_rightly :: "kstate \<Rightarrow> u32 \<Rightarrow> bool" where
  "waits_rightly t i \<longleftrightarrow> (let ob = t_wait_object (tasks t i) in ob \<noteq> NULL \<and>
     (case t_wait_kind (tasks t i) of
        TASK_WAIT_NONE \<Rightarrow> False
      | TASK_WAIT_SEMAPHORE \<Rightarrow> sem_available (semaphores t ob) = 0
      | TASK_WAIT_MUTEX \<Rightarrow> m_locked (mutexes t ob) \<noteq> 0 \<and> m_owner (mutexes t ob) < task_count t
      | TASK_WAIT_EVENT_GROUP \<Rightarrow> \<not> event_condition (eg_bits (event_groups t ob))
          (t_event_wait_bits (tasks t i)) (t_event_wait_all (tasks t i))
      | TASK_WAIT_NOTIFICATION \<Rightarrow> t_notification_value (tasks t i) = 0
      | TASK_WAIT_TIMER_SERVICE \<Rightarrow> i = timer_service_task_index t \<longrightarrow> ob = ld_timer_service_wait_object (cfg t) \<longrightarrow>
          (\<exists>xs. linked_timers t xs \<and> (\<forall>a \<in> set xs. tm_callback (timers t a) = NULL \<or> tm_expirations (timers t a) = 0))
      | _ \<Rightarrow> True))"


text \<open>C5: the kernel's data stay within their types: in every reachable state every task's state is one of the five
  of \<open>JRT_TaskState_t\<close>, a task that waits for nothing has no wait data left, the private region has a size the
  MPU can express, no priority is below the task's own, and both current-task records are below \<open>task_count\<close>.\<close>

theorem reachable_tasks_typed:
  assumes "initialised s" and "kernel_step\<^sup>*\<^sup>* s t" and "i < task_count t"
  shows "t_state (tasks t i) \<in> {JRT_TASK_STATE_READY, JRT_TASK_STATE_RUNNING, JRT_TASK_STATE_SLEEPING,
      JRT_TASK_STATE_BLOCKED, JRT_TASK_STATE_SUSPENDED}
    \<and> (t_state (tasks t i) \<noteq> JRT_TASK_STATE_BLOCKED \<longrightarrow> t_wait_object (tasks t i) = NULL
         \<and> t_wait_kind (tasks t i) = TASK_WAIT_NONE \<and> t_wait_start (tasks t i) = 0
         \<and> t_wait_deadline (tasks t i) = 0 \<and> t_wait_forever (tasks t i) = 0)
    \<and> valid_private_size (t_private_data_size (tasks t i))
    \<and> t_base_priority (tasks t i) \<le> t_priority (tasks t i)
    \<and> current_task t < task_count t \<and> task_count t < 0x80000000"
proof -
  note inv = reachable_invs [OF assms(1,2)]
  have ok: "task_invariant (tasks t i) = None" and mi: "mutex_inv t"
    using inv(2) assms(3) by (auto simp: kernel_wf_def tasks_wf_def)
  have "t_state (tasks t i) \<le> JRT_TASK_STATE_SUSPENDED" using ok by (auto simp: task_invariant_def split: if_splits)
  then have "t_state (tasks t i) \<in> {JRT_TASK_STATE_READY, JRT_TASK_STATE_RUNNING, JRT_TASK_STATE_SLEEPING,
      JRT_TASK_STATE_BLOCKED, JRT_TASK_STATE_SUSPENDED}"
    by (rule upto_four)
  moreover have "t_base_priority (tasks t i) \<le> t_priority (tasks t i)"
    using mi assms(3) base_le_demand [of "tasks t" i]
    by (simp add: mutex_inv_def exact_priorities_def exact_def effective_priority_demand)
  ultimately show ?thesis using ok inv(1) assms(3) by (auto simp: task_invariant_def scheduler_inv_def split: if_splits)
qed

text \<open>C3: no unbounded priority inversion, in any reachable state: along every chain of tasks each waiting
  for a mutex that the next one holds, priorities never decrease, and the last owner is a task of the table.\<close>

theorem no_priority_inversion:
  assumes "initialised s" and "kernel_step\<^sup>*\<^sup>* s t"
    and "(waits_for (mutexes t) (tasks t))\<^sup>*\<^sup>* i j" and "i < task_count t"
  shows "j < task_count t \<and> t_priority (tasks t i) \<le> t_priority (tasks t j)"
  using assms(3)
proof (induction rule: rtranclp_induct)
  case (step j k)
  have mi: "mutex_inv t" using reachable_invs(2) [OF assms(1,2)] by (simp add: kernel_wf_def)
  have k: "k < task_count t" using step.hyps(2) mi by (auto simp: waits_for_def mutex_inv_def)
  moreover have "t_priority (tasks t j) \<le> t_priority (tasks t k)"
    using waiter_le_effective [of j "task_count t" "mutexes t" "tasks t" k] step mi k
    by (simp add: mutex_inv_def exact_priorities_def exact_def)
  ultimately show ?case using step.IH by (meson order_trans)
qed (simp add: assms(4))

text \<open>C4: a suspended task stays suspended, through whatever calls, interrupts, ticks and switches, until a
  supervisor call of a running task resumes that very task: the run either leaves it suspended or contains a step
  in which service 5 is called with its ID in r0.\<close>

theorem suspended_until_resumed:
  assumes "initialised s" and "kernel_step\<^sup>*\<^sup>* s t" and "i < task_count t"
    and "t_state (tasks t i) = JRT_TASK_STATE_SUSPENDED" and "kernel_step\<^sup>*\<^sup>* t u"
  shows "t_state (tasks u i) = JRT_TASK_STATE_SUSPENDED
    \<or> (\<exists>v frame exc_return. kernel_step\<^sup>*\<^sup>* t v \<and> app_thread v \<and> svc_number frame v = 5 \<and> mem32 v frame = i
         \<and> kernel_step\<^sup>*\<^sup>* (svc_dispatch frame exc_return v) u)"
proof -
  let ?P = "\<lambda>v. i < task_count v \<and> t_state (tasks v i) = JRT_TASK_STATE_SUSPENDED"
  have "?P u \<or> (\<exists>v w. kernel_step\<^sup>*\<^sup>* t v \<and> kernel_step v w \<and> resumed_by v w i \<and> kernel_step\<^sup>*\<^sup>* w u)"
  proof (rule kernel_run.run_until [OF _ assms(5)])
    show "kernel_ok t \<and> wakeups_ok t" by (rule reachable_ok [OF assms(1,2)])
    show "?P w \<or> resumed_by v w i" if "kernel_ok v \<and> wakeups_ok v" "?P v" "kernel_step v w" for v w
      using kernel_step_outcome [OF that(3)] that(1,2) by (auto simp: outcome_def)
  qed (use assms(3,4) in simp)
  then show ?thesis by (auto elim!: resumed_by.cases)
qed

section \<open>The run instantiates them\<close>

theorem reachable_kernel_sound_witness:
  "\<exists>s t. initialised s \<and> kernel_step\<^sup>*\<^sup>* s t \<and> t_state (tasks t 1) = JRT_TASK_STATE_BLOCKED
     \<and> kernel_check_invariants_locked t = Some (Inr t)
     \<and> (\<exists>u. tick_tasks t = Some (Inr u) \<and> g_kernel_ticks u = g_kernel_ticks t + 1)"
proof -
  obtain s t u where r: "initialised s" "kernel_step\<^sup>*\<^sup>* s t" "kernel_step\<^sup>*\<^sup>* t u" "t_state (tasks u 1) = JRT_TASK_STATE_BLOCKED"
    using contended_run by metis
  have "kernel_step\<^sup>*\<^sup>* s u" using r(2,3) by (rule rtranclp_trans)
  with reachable_kernel_sound [OF r(1) this] r(1,4) show ?thesis by blast
qed


theorem reachable_tasks_typed_witness:
  "\<exists>s t. initialised s \<and> kernel_step\<^sup>*\<^sup>* s t \<and> t_state (tasks t 0) = JRT_TASK_STATE_SUSPENDED
     \<and> t_wait_object (tasks t 0) = NULL \<and> t_base_priority (tasks t 0) \<le> t_priority (tasks t 0)"
proof -
  obtain s t where r: "initialised s" "kernel_step\<^sup>*\<^sup>* s t" "t_state (tasks t 0) = JRT_TASK_STATE_SUSPENDED" "task_count t = 4"
    using contended_run by metis
  with reachable_tasks_typed [OF r(1,2), of 0] show ?thesis by auto
qed

theorem no_priority_inversion_witness:
  "\<exists>s t. initialised s \<and> kernel_step\<^sup>*\<^sup>* s t \<and> waits_for (mutexes t) (tasks t) 1 0
     \<and> t_priority (tasks t 1) \<le> t_priority (tasks t 0)"
proof -
  obtain s t u where r: "initialised s" "kernel_step\<^sup>*\<^sup>* s t" "kernel_step\<^sup>*\<^sup>* t u" "waits_for (mutexes u) (tasks u) 1 0"
    "task_count u = 4"
    using contended_run by metis
  have run: "kernel_step\<^sup>*\<^sup>* s u" using r(2,3) by (rule rtranclp_trans)
  have "(1 :: u32) < task_count u" by (simp add: r(5))
  with no_priority_inversion [OF r(1) run r_into_rtranclp [of "waits_for (mutexes u) (tasks u)", OF r(4)]] r(1,4) run
  show ?thesis by blast
qed

theorem suspended_until_resumed_witness:
  "\<exists>s t u. initialised s \<and> kernel_step\<^sup>*\<^sup>* s t \<and> kernel_step\<^sup>*\<^sup>* t u \<and> t_state (tasks t 0) = JRT_TASK_STATE_SUSPENDED
     \<and> t_state (tasks u 1) = JRT_TASK_STATE_BLOCKED
     \<and> (t_state (tasks u 0) = JRT_TASK_STATE_SUSPENDED
        \<or> (\<exists>v frame exc_return. kernel_step\<^sup>*\<^sup>* t v \<and> app_thread v \<and> svc_number frame v = 5 \<and> mem32 v frame = 0
             \<and> kernel_step\<^sup>*\<^sup>* (svc_dispatch frame exc_return v) u))"
proof -
  obtain s t u where r: "initialised s" "kernel_step\<^sup>*\<^sup>* s t" "kernel_step\<^sup>*\<^sup>* t u"
    "t_state (tasks t 0) = JRT_TASK_STATE_SUSPENDED" "t_state (tasks u 1) = JRT_TASK_STATE_BLOCKED" "task_count t = 4"
    using contended_run by metis
  have "(0 :: u32) < task_count t" by (simp add: r(6))
  with suspended_until_resumed [OF r(1,2) this r(4,3)] r(1-5) show ?thesis by blast
qed

end
