(* ===== verification/JRT_Messages.thy ===== *)
theory JRT_Messages
  imports JRT_Reachable
begin

text \<open>
  Queues while the kernel runs. A task that is woken in a queue call holds a promise, a slot or an
  item the queue has reserved for it (\<open>send_reservations\<close>, \<open>receive_reservations\<close>), until it runs again
  and collects it. The call it is in is a local of \<open>JRT_QueueSend\<close> and \<open>JRT_QueueReceive\<close>; here it is
  part of the state of a run, and so is the history of the successful calls. The reservation
  counters are exactly the numbers of the promises, in every reachable state, whatever else the
  kernel does in between.
\<close>

section \<open>Runs with queue calls\<close>

text \<open>The queue call a task is in, the queue and the side it waits on.\<close>

type_synonym calls = "u32 \<Rightarrow> (addr \<times> task_wait_kind_t) option"

text \<open>What happened at the queues so far: the calls that succeeded, with the items they moved.\<close>

type_synonym item = "u32 \<Rightarrow> u8"

datatype message = Created addr | Sent addr item | Received addr item

definition sent_event :: "addr \<Rightarrow> addr \<Rightarrow> int option \<Rightarrow> kstate \<Rightarrow> message list" where
  "sent_event ob item r s = (if r = Some 1 then [Sent ob (read_item (mem8 s) item (q_item_size (queues s ob)))] else [])"

definition received_event :: "addr \<Rightarrow> addr \<Rightarrow> int option \<Rightarrow> kstate \<Rightarrow> message list" where
  "received_event ob item r t = (if r = Some 1 then [Received ob (read_item (mem8 t) item (q_item_size (queues t ob)))] else [])"

definition new_queue :: "addr \<Rightarrow> u32 \<Rightarrow> u32 \<Rightarrow> JRT_Queue_t" where
  "new_queue storage capacity item_size = \<lparr>q_storage = storage, q_capacity = capacity, q_item_size = item_size,
     q_head = 0, q_tail = 0, q_count = 0, q_send_reservations = 0, q_receive_reservations = 0\<rparr>"

definition after_pass :: "u32 \<Rightarrow> addr \<Rightarrow> task_wait_kind_t \<Rightarrow> int option \<Rightarrow> calls \<Rightarrow> calls" where
  "after_pass i ob k r calls = calls(i := (if r = None then Some (ob, k) else None))"

text \<open>
  The bytes of a queue's storage. Application code does not write to them, queues do not share them,
  and the buffer of a receiver does not lie in them.
\<close>

definition storage_of :: "JRT_Queue_t \<Rightarrow> addr set" where
  "storage_of q = {slot_addr q k + i | k i. k < q_capacity q \<and> i < q_item_size q}"

definition spared :: "addr set \<Rightarrow> kstate \<Rightarrow> kstate \<Rightarrow> bool" where
  "spared made s t \<longleftrightarrow> (\<forall>ob \<in> made. \<forall>a \<in> storage_of (queues s ob). mem8 t a = mem8 s a)"

definition buffer_apart :: "addr set \<Rightarrow> addr \<Rightarrow> addr \<Rightarrow> kstate \<Rightarrow> bool" where
  "buffer_apart made ob item s \<longleftrightarrow>
     (\<forall>o' \<in> made. \<forall>a \<in> storage_of (queues s o'). \<not> a - item < q_item_size (queues s ob))"

text \<open>
  A state of a run is the kernel, the calls the tasks are in, the queues that were created and what
  happened at them. A task that is in a call does nothing but finish it.
\<close>

type_synonym run_state = "kstate \<times> calls \<times> addr set \<times> message list"

inductive queue_run :: "run_state \<Rightarrow> run_state \<Rightarrow> bool" where
  environment: "environment_step s t \<Longrightarrow> spared made s t \<Longrightarrow> queue_run (s, calls, made, es) (t, calls, made, es)"
| thread: "app_thread s \<Longrightarrow> calls (current_task s) = None \<Longrightarrow> thread_step s t \<Longrightarrow>
    queue_run (s, calls, made, es) (t, calls, made, es)"
| create: "ob \<noteq> NULL \<Longrightarrow> (\<And>i k. calls i \<noteq> Some (ob, k)) \<Longrightarrow> ring_ok (new_queue storage capacity item_size) \<Longrightarrow>
    (\<And>o'. o' \<in> made \<Longrightarrow> o' \<noteq> ob \<Longrightarrow> storage_of (new_queue storage capacity item_size) \<inter> storage_of (queues s o') = {}) \<Longrightarrow>
    queue_run (s, calls, made, es)
      (JRT_QueueCreateStatic ob storage capacity item_size s, calls, insert ob made, es @ [Created ob])"
| send: "app_thread s \<Longrightarrow> calls (current_task s) = None \<Longrightarrow> ob \<in> made \<Longrightarrow> item_apart ob item s \<Longrightarrow>
    queue_send_pass ob item timeout d 0 s = (r, t) \<Longrightarrow>
    queue_run (s, calls, made, es)
      (t, after_pass (current_task s) ob TASK_WAIT_QUEUE_SEND r calls, made, es @ sent_event ob item r s)"
| receive: "app_thread s \<Longrightarrow> calls (current_task s) = None \<Longrightarrow> ob \<in> made \<Longrightarrow> buffer_apart made ob item s \<Longrightarrow>
    queue_receive_pass ob item timeout d 0 s = (r, t) \<Longrightarrow>
    queue_run (s, calls, made, es)
      (t, after_pass (current_task s) ob TASK_WAIT_QUEUE_RECEIVE r calls, made, es @ received_event ob item r t)"
| send_resume: "app_thread s \<Longrightarrow> calls (current_task s) = Some (ob, TASK_WAIT_QUEUE_SEND) \<Longrightarrow> item_apart ob item s \<Longrightarrow>
    queue_send_resume ob item timeout d s = (r, t) \<Longrightarrow>
    queue_run (s, calls, made, es)
      (t, after_pass (current_task s) ob TASK_WAIT_QUEUE_SEND r calls, made, es @ sent_event ob item r s)"
| receive_resume: "app_thread s \<Longrightarrow> calls (current_task s) = Some (ob, TASK_WAIT_QUEUE_RECEIVE) \<Longrightarrow>
    buffer_apart made ob item s \<Longrightarrow> queue_receive_resume ob item timeout d s = (r, t) \<Longrightarrow>
    queue_run (s, calls, made, es)
      (t, after_pass (current_task s) ob TASK_WAIT_QUEUE_RECEIVE r calls, made, es @ received_event ob item r t)"
| send_isr: "ob \<in> made \<Longrightarrow> item_apart ob item s \<Longrightarrow> JRT_QueueSendFromISR ob item s = (r, t) \<Longrightarrow>
    queue_run (s, calls, made, es) (t, calls, made, es @ sent_event ob item (Some r) s)"

lemma storage_of_reservations [simp]:
  "storage_of (q\<lparr>q_send_reservations := n\<rparr>) = storage_of q" "storage_of (q\<lparr>q_receive_reservations := n\<rparr>) = storage_of q"
  by (simp_all add: storage_of_def slot_addr_def)

lemma buffer_item_apart:
  assumes "buffer_apart made ob item s" and "ob \<in> made" shows "item_apart ob item s"
proof -
  have "item + i \<noteq> slot_addr (queues s ob) k + j"
    if "k < q_capacity (queues s ob)" "i < q_item_size (queues s ob)" "j < q_item_size (queues s ob)" for i j k
  proof
    assume eq: "item + i = slot_addr (queues s ob) k + j"
    have "slot_addr (queues s ob) k + j \<in> storage_of (queues s ob)" using that by (auto simp: storage_of_def)
    then have "\<not> slot_addr (queues s ob) k + j - item < q_item_size (queues s ob)" using assms by (auto simp: buffer_apart_def)
    then show False using that(2) by (simp flip: eq)
  qed
  then show ?thesis unfolding item_apart_def disjoint_blocks_def by blast
qed

section \<open>Promises\<close>

text \<open>The tasks that were woken in a call on \<open>ob\<close> and have not run since.\<close>

definition promised :: "addr \<Rightarrow> task_wait_kind_t \<Rightarrow> calls \<Rightarrow> kstate \<Rightarrow> u32 set" where
  "promised ob k calls s = {i. i < task_count s \<and> calls i = Some (ob, k)
     \<and> t_state (tasks s i) \<noteq> JRT_TASK_STATE_BLOCKED \<and> t_wait_result (tasks s i) \<noteq> 0}"

definition reservations :: "task_wait_kind_t \<Rightarrow> JRT_Queue_t \<Rightarrow> u32" where
  "reservations k q = (if k = TASK_WAIT_QUEUE_SEND then q_send_reservations q else q_receive_reservations q)"

definition queues_ok :: "kstate \<Rightarrow> calls \<Rightarrow> addr set \<Rightarrow> bool" where
  "queues_ok s calls made \<longleftrightarrow> NULL \<notin> made
     \<and> (\<forall>ob \<in> made. queue_inv ob s \<and> (\<forall>k \<in> queue_kinds. unat (reservations k (queues s ob)) = card (promised ob k calls s)))
     \<and> (\<forall>i < task_count s. \<forall>ob. \<forall>k \<in> queue_kinds. waits_on ob k (tasks s i) \<longrightarrow> calls i = Some (ob, k))
     \<and> (\<forall>i ob k. calls i = Some (ob, k) \<longrightarrow> i < task_count s \<and> ob \<in> made \<and> k \<in> queue_kinds
          \<and> (t_state (tasks s i) = JRT_TASK_STATE_BLOCKED \<longrightarrow> waits_on ob k (tasks s i)))"

lemma queues_ok_call:
  "queues_ok s calls made \<Longrightarrow> calls i = Some (ob, k) \<Longrightarrow> i < task_count s \<and> ob \<in> made \<and> k \<in> queue_kinds
     \<and> (t_state (tasks s i) = JRT_TASK_STATE_BLOCKED \<longrightarrow> waits_on ob k (tasks s i))"
  unfolding queues_ok_def by blast

lemma queues_ok_wait:
  "queues_ok s calls made \<Longrightarrow> waits_on ob k (tasks s i) \<Longrightarrow> i < task_count s \<Longrightarrow> k \<in> queue_kinds \<Longrightarrow> calls i = Some (ob, k)"
  unfolding queues_ok_def by blast

lemma queues_ok_made:
  assumes "queues_ok s calls made" and "ob \<in> made"
  shows "queue_inv ob s" "k \<in> queue_kinds \<Longrightarrow> unat (reservations k (queues s ob)) = card (promised ob k calls s)" "ob \<noteq> NULL"
  using assms unfolding queues_ok_def by blast+

lemma queues_okI:
  assumes "NULL \<notin> made" and "\<And>ob. ob \<in> made \<Longrightarrow> queue_inv ob s"
    and "\<And>ob k. ob \<in> made \<Longrightarrow> k \<in> queue_kinds \<Longrightarrow> unat (reservations k (queues s ob)) = card (promised ob k calls s)"
    and "\<And>i ob k. waits_on ob k (tasks s i) \<Longrightarrow> i < task_count s \<Longrightarrow> k \<in> queue_kinds \<Longrightarrow> calls i = Some (ob, k)"
    and "\<And>i ob k. calls i = Some (ob, k) \<Longrightarrow> i < task_count s \<and> ob \<in> made \<and> k \<in> queue_kinds
       \<and> (t_state (tasks s i) = JRT_TASK_STATE_BLOCKED \<longrightarrow> waits_on ob k (tasks s i))"
  shows "queues_ok s calls made"
  using assms unfolding queues_ok_def by blast

lemma finite_promised [simp]: "finite (promised ob k calls s)"
  by simp

lemma queue_inv_less:
  assumes "queue_inv ob s" and "queues t ob = queues s ob"
    and "\<And>k. k \<in> queue_kinds \<Longrightarrow> kernel_waiters ob k t \<subseteq> kernel_waiters ob k s"
  shows "queue_inv ob t"
proof -
  have "kernel_waiters ob TASK_WAIT_QUEUE_SEND s \<noteq> {}" if "kernel_waiters ob TASK_WAIT_QUEUE_SEND t \<noteq> {}"
    using assms(3) [of TASK_WAIT_QUEUE_SEND] that by (auto simp: queue_kinds_def)
  moreover have "kernel_waiters ob TASK_WAIT_QUEUE_RECEIVE s \<noteq> {}" if "kernel_waiters ob TASK_WAIT_QUEUE_RECEIVE t \<noteq> {}"
    using assms(3) [of TASK_WAIT_QUEUE_RECEIVE] that by (auto simp: queue_kinds_def)
  ultimately show ?thesis using assms(1) unfolding queue_inv_def Let_def assms(2) by blast
qed

section \<open>Everything that is not a queue operation\<close>

text \<open>Such a step keeps the promises: it wakes nobody that waits for a queue except when the time is over.\<close>

lemma outcome_keeps_queues:
  assumes ok: "queues_ok s calls made" and out: "outcome {} C R s t" and same: "queues t = queues s"
    and C: "\<And>i. i \<in> C \<Longrightarrow> calls i = None"
  shows "queues_ok t calls made"
proof -
  have n: "task_count t = task_count s" using out by (simp add: outcome_def)
  have keep: "waits_on ob k (tasks t i) \<or> t_state (tasks t i) \<noteq> JRT_TASK_STATE_BLOCKED \<and> t_wait_result (tasks t i) = 0"
    if "i < task_count s" "k \<in> queue_kinds" "waits_on ob k (tasks s i)" for i ob k
    using out that by (auto simp: outcome_def keeps_wait_def)
  have less: "waits_on ob k (tasks s i)" if "i < task_count s" "k \<in> queue_kinds" "waits_on ob k (tasks t i)" for i ob k
    using out that by (auto simp: outcome_def waits_less_def)
  have free: "t_state (tasks t i) \<noteq> JRT_TASK_STATE_BLOCKED \<and> t_wait_result (tasks t i) = t_wait_result (tasks s i)"
    if "i < task_count s" "i \<notin> C" "t_state (tasks s i) \<noteq> JRT_TASK_STATE_BLOCKED" for i
    using out that by (auto simp: outcome_def undisturbed_def)
  have call: "i < task_count s" "ob \<in> made" "k \<in> queue_kinds" "i \<notin> C"
      "t_state (tasks s i) = JRT_TASK_STATE_BLOCKED \<Longrightarrow> waits_on ob k (tasks s i)" if c: "calls i = Some (ob, k)" for i ob k
    using queues_ok_call [OF ok c] C [of i] c by auto
  have iff: "t_state (tasks t i) \<noteq> JRT_TASK_STATE_BLOCKED \<and> t_wait_result (tasks t i) \<noteq> 0 \<longleftrightarrow>
      t_state (tasks s i) \<noteq> JRT_TASK_STATE_BLOCKED \<and> t_wait_result (tasks s i) \<noteq> 0" if c: "calls i = Some (ob, k)" for i ob k
    using keep [OF call(1,3) [OF c] call(5) [OF c]] free [OF call(1,4) [OF c]]
    by (cases "t_state (tasks s i) = JRT_TASK_STATE_BLOCKED") (auto simp: waits_on_def)
  have prom: "promised ob k calls t = promised ob k calls s" for ob k
    unfolding promised_def n using iff by blast
  have contract: "queue_inv ob t" if "ob \<in> made" for ob
  proof (rule queue_inv_less)
    show "queue_inv ob s" by (rule queues_ok_made(1) [OF ok that])
    show "kernel_waiters ob k t \<subseteq> kernel_waiters ob k s" if "k \<in> queue_kinds" for k
      using less that by (auto simp: kernel_waiters_def waiters_def n)
  qed (simp add: same)
  have still: "waits_on ob k (tasks t i)"
    if c: "calls i = Some (ob, k)" and b: "t_state (tasks t i) = JRT_TASK_STATE_BLOCKED" for i ob k
  proof (cases "t_state (tasks s i) = JRT_TASK_STATE_BLOCKED")
    case True
    then show ?thesis using keep [OF call(1,3) [OF c] call(5) [OF c]] b by blast
  next
    case False
    then show ?thesis using free [OF call(1,4) [OF c]] b by blast
  qed
  show ?thesis
  proof (rule queues_okI)
    show "NULL \<notin> made" using queues_ok_made(3) [OF ok] by blast
    show "unat (reservations k (queues t ob)) = card (promised ob k calls t)" if "ob \<in> made" "k \<in> queue_kinds" for ob k
      unfolding same prom by (rule queues_ok_made(2) [OF ok that])
    show "calls i = Some (ob, k)" if "waits_on ob k (tasks t i)" "i < task_count t" "k \<in> queue_kinds" for i ob k
      using queues_ok_wait [OF ok less [OF _ that(3,1)] _ that(3)] that(2) n by simp
    show "i < task_count t \<and> ob \<in> made \<and> k \<in> queue_kinds
       \<and> (t_state (tasks t i) = JRT_TASK_STATE_BLOCKED \<longrightarrow> waits_on ob k (tasks t i))" if "calls i = Some (ob, k)" for i ob k
      using call(1-3) [OF that] still [OF that] n by simp
  qed (rule contract)
qed

section \<open>Queue operations\<close>

text \<open>What a pass that serves the caller does to the reservations and to the tasks.\<close>

lemma copy_same:
  "tasks (queue_copy_in ob item res s) = tasks s" "task_count (queue_copy_in ob item res s) = task_count s"
  "tasks (queue_copy_out ob item res s) = tasks s" "task_count (queue_copy_out ob item res s) = task_count s"
  by (simp_all add: queue_copy_in_def queue_copy_out_def set_queue_def Let_def)

lemma woken_tasks_cong: "tasks t = tasks s \<Longrightarrow> task_count t = task_count s \<Longrightarrow> woken_tasks ob k t = woken_tasks ob k s"
  by (simp add: woken_tasks_def kernel_waiters_def best_waiter_def)

lemma sent_fields:
  fixes ob item :: addr and res :: u32 and s :: kstate
  defines "t \<equiv> wake_receiver ob (queue_copy_in ob item res s)"
  shows "tasks t = woken_tasks ob TASK_WAIT_QUEUE_RECEIVE s" "task_count t = task_count s"
    "queues t = (queues s)(ob := queues t ob)"
    "q_send_reservations (queues t ob) = q_send_reservations (queues s ob) - (if res \<noteq> 0 then 1 else 0)"
    "q_receive_reservations (queues t ob) = q_receive_reservations (queues s ob)
       + (if kernel_waiters ob TASK_WAIT_QUEUE_RECEIVE s = {} then 0 else 1)"
proof -
  note w = kernel_waiters_cong [OF copy_same(1,2) [of ob item res s]] woken_tasks_cong [OF copy_same(1,2) [of ob item res s]]
  show "tasks t = woken_tasks ob TASK_WAIT_QUEUE_RECEIVE s" "task_count t = task_count s"
    unfolding t_def wake_receiver_fields by (rule w, rule copy_same)
  show "queues t = (queues s)(ob := queues t ob)"
    "q_send_reservations (queues t ob) = q_send_reservations (queues s ob) - (if res \<noteq> 0 then 1 else 0)"
    "q_receive_reservations (queues t ob) = q_receive_reservations (queues s ob)
       + (if kernel_waiters ob TASK_WAIT_QUEUE_RECEIVE s = {} then 0 else 1)"
    unfolding t_def wake_receiver_fields w by (simp_all add: queue_copy_in_def set_queue_def Let_def)
qed

lemma taken_fields:
  fixes ob item :: addr and res :: u32 and s :: kstate
  defines "t \<equiv> wake_sender ob (queue_copy_out ob item res s)"
  shows "tasks t = woken_tasks ob TASK_WAIT_QUEUE_SEND s" "task_count t = task_count s"
    "queues t = (queues s)(ob := queues t ob)"
    "q_receive_reservations (queues t ob) = q_receive_reservations (queues s ob) - (if res \<noteq> 0 then 1 else 0)"
    "q_send_reservations (queues t ob) = q_send_reservations (queues s ob)
       + (if kernel_waiters ob TASK_WAIT_QUEUE_SEND s = {} then 0 else 1)"
proof -
  note w = kernel_waiters_cong [OF copy_same(3,4) [of ob item res s]] woken_tasks_cong [OF copy_same(3,4) [of ob item res s]]
  show "tasks t = woken_tasks ob TASK_WAIT_QUEUE_SEND s" "task_count t = task_count s"
    unfolding t_def wake_sender_fields by (rule w, rule copy_same)
  show "queues t = (queues s)(ob := queues t ob)"
    "q_receive_reservations (queues t ob) = q_receive_reservations (queues s ob) - (if res \<noteq> 0 then 1 else 0)"
    "q_send_reservations (queues t ob) = q_send_reservations (queues s ob)
       + (if kernel_waiters ob TASK_WAIT_QUEUE_SEND s = {} then 0 else 1)"
    unfolding t_def wake_sender_fields w by (simp_all add: queue_copy_out_def set_queue_def Let_def)
qed

lemma promise_below: "card (promised ob k calls s) \<le> unat (task_count s)"
  unfolding promised_def by (rule card_below_count)

text \<open>A queue call that serves its caller and hands the other side a promise.\<close>

lemma served_promises:
  assumes w: "woken \<Longrightarrow> w < task_count s \<and> waits_on ob k (tasks s w) \<and> calls w = Some (ob, k)"
    and c: "collected \<Longrightarrow> c \<in> promised ob k' calls s" and k: "k' \<noteq> k"
    and ts: "\<And>i. tasks t i = (if woken \<and> i = w then awake 1 (tasks s i) else tasks s i)" "task_count t = task_count s"
    and calls': "calls' = (if collected then calls(c := None) else calls)"
  shows "promised o' x calls' t =
      (if o' = ob \<and> x = k \<and> woken then insert w (promised o' x calls s)
       else if o' = ob \<and> x = k' \<and> collected then promised o' x calls s - {c} else promised o' x calls s)"
proof -
  have c': "calls c = Some (ob, k')" "t_state (tasks s c) \<noteq> JRT_TASK_STATE_BLOCKED" if collected
    using c [OF that] by (simp_all add: promised_def)
  show ?thesis
  proof (cases "o' = ob \<and> x = k \<and> woken")
    case True
    then show ?thesis using w c' k by (auto simp: promised_def calls' ts waits_on_def)
  next
    case False
    then have "i \<noteq> w" if "woken" "calls i = Some (o', x)" for i using that w by auto
    then show ?thesis using False c' k by (auto simp: promised_def calls' ts)
  qed
qed

lemma served_counts:
  assumes ok: "queues_ok s calls made" and kok: "kernel_ok s" and o': "o' \<in> made" "x \<in> queue_kinds"
    and k: "k \<in> queue_kinds" "k' \<in> queue_kinds" "k' \<noteq> k"
    and w: "woken \<Longrightarrow> w \<notin> promised ob k calls s" and c: "collected \<Longrightarrow> c \<in> promised ob k' calls s"
    and q: "reservations k q = reservations k (queues s ob) + (if woken then 1 else 0)"
      "reservations k' q = reservations k' (queues s ob) - (if collected then 1 else 0)"
    and prom: "promised o' x calls' t =
      (if o' = ob \<and> x = k \<and> woken then insert w (promised o' x calls s)
       else if o' = ob \<and> x = k' \<and> collected then promised o' x calls s - {c} else promised o' x calls s)"
  shows "unat (reservations x (((queues s)(ob := q)) o')) = card (promised o' x calls' t)"
proof -
  have old: "unat (reservations x (queues s o')) = card (promised o' x calls s)" by (rule queues_ok_made(2) [OF ok o'])
  consider (give) "o' = ob" "x = k" | (collect) "o' = ob" "x = k'" | (other) "o' \<noteq> ob"
    using o'(2) k by (auto simp: queue_kinds_def)
  then show ?thesis
  proof cases
    case give
    have "unat (reservations k (queues s ob)) \<le> unat (task_count s)" using old promise_below give by metis
    moreover have "task_count s < 0x80000000" using kok by (simp add: kernel_ok_def scheduler_inv_def)
    ultimately show ?thesis
      using give old k(3) q(1) w prom unat_suc_small [of "reservations k (queues s ob)"]
      by (cases woken) (auto simp: word_less_unat)
  next
    case collect
    show ?thesis
    proof (cases collected)
      case True
      then have "reservations k' (queues s ob) \<noteq> 0"
        using c [OF True] old collect by (auto simp: word_neq_0_unat card_gt_0_iff)
      then show ?thesis using True c [OF True] collect old q(2) k(3) prom
        by (simp add: unat_sub32 word_le_unat word_neq_0_unat)
    next
      case False
      then show ?thesis using collect old q(2) k(3) prom by simp
    qed
  next
    case other
    then show ?thesis using old prom by simp
  qed
qed

lemma served_keeps_queues:
  assumes ok: "queues_ok s calls made" and kok: "kernel_ok s" and ob: "ob \<in> made" and k: "k \<in> queue_kinds" "k' \<in> queue_kinds" "k' \<noteq> k"
    and ts: "tasks t = woken_tasks ob k s" "task_count t = task_count s" "queues t = (queues s)(ob := q)"
    and inv: "queue_inv ob t"
    and q: "reservations k q = reservations k (queues s ob) + (if kernel_waiters ob k s = {} then 0 else 1)"
      "reservations k' q = reservations k' (queues s ob) - (if collected then 1 else 0)"
    and c: "collected \<Longrightarrow> c \<in> promised ob k' calls s" and calls': "calls' = (if collected then calls(c := None) else calls)"
  shows "queues_ok t calls' made"
proof -
  let ?w = "best_waiter ob k s"
  define woken where "woken \<longleftrightarrow> kernel_waiters ob k s \<noteq> {}"
  have w: "?w < task_count s \<and> waits_on ob k (tasks s ?w) \<and> calls ?w = Some (ob, k)" if woken
    using best_waiter_in [of ob k s] that k(1) by (auto simp: woken_def kernel_waiters_def waiters_def intro: queues_ok_wait [OF ok])
  have tasks_t: "tasks t i = (if woken \<and> i = ?w then awake 1 (tasks s i) else tasks s i)" for i
    by (simp add: ts(1) woken_tasks_def woken_def)
  have less: "waits_on o' x (tasks s i)" if "waits_on o' x (tasks t i)" for o' x i
    using that by (auto simp: tasks_t waits_on_def split: if_splits)
  have c': "t_state (tasks s c) \<noteq> JRT_TASK_STATE_BLOCKED" if collected
    using c [OF that] by (simp add: promised_def)
  note prom = served_promises [OF w c k(3) tasks_t ts(2) calls']
  have count: "unat (reservations x (queues t o')) = card (promised o' x calls' t)" if "o' \<in> made" "x \<in> queue_kinds" for o' x
    unfolding ts(3)
  proof (rule served_counts [OF ok kok that k _ c _ q(2) prom])
    show "?w \<notin> promised ob k calls s" if woken using w [OF that] by (simp add: promised_def waits_on_def)
  qed (use q(1) in \<open>simp_all add: woken_def\<close>)
  have contract: "queue_inv o' t" if "o' \<in> made" for o'
  proof (cases "o' = ob")
    case False
    show ?thesis
    proof (rule queue_inv_less)
      show "queue_inv o' s" by (rule queues_ok_made(1) [OF ok that])
      show "queues t o' = queues s o'" using False by (simp add: ts(3))
      show "kernel_waiters o' x t \<subseteq> kernel_waiters o' x s" for x
        using less by (auto simp: kernel_waiters_def waiters_def ts(2))
    qed
  qed (use inv in simp)
  have wait': "calls' i = Some (o', x)" if "waits_on o' x (tasks t i)" "i < task_count s" "x \<in> queue_kinds" for o' x i
  proof -
    have "\<not> (collected \<and> i = c)" using less [OF that(1)] c' by (auto simp: waits_on_def)
    then show ?thesis using queues_ok_wait [OF ok less [OF that(1)] that(2,3)] by (auto simp: calls')
  qed
  have call': "i < task_count s \<and> o' \<in> made \<and> x \<in> queue_kinds
     \<and> (t_state (tasks t i) = JRT_TASK_STATE_BLOCKED \<longrightarrow> waits_on o' x (tasks t i))" if "calls' i = Some (o', x)" for i o' x
  proof -
    have "calls i = Some (o', x)" using that by (auto simp: calls' split: if_splits)
    then show ?thesis using queues_ok_call [OF ok, of i o' x] by (simp add: tasks_t)
  qed
  show ?thesis
  proof (rule queues_okI)
    show "NULL \<notin> made" using queues_ok_made(3) [OF ok] by blast
  qed (unfold ts(2), fact contract, fact count, fact wait', fact call')
qed

text \<open>A queue call that refuses or blocks its caller, and the creation of a queue nobody uses.\<close>

lemma same_keeps_queues:
  assumes ok: "queues_ok s calls made" and same: "tasks t = tasks s" "task_count t = task_count s" "queues t = queues s"
  shows "queues_ok t calls made"
proof -
  have prom: "promised ob k calls t = promised ob k calls s" for ob k using same by (simp add: promised_def)
  have inv: "queue_inv ob t = queue_inv ob s" for ob by (rule queue_inv_cong) (simp_all add: same)
  show ?thesis using ok unfolding queues_ok_def same prom inv .
qed

lemma blocked_keeps_queues:
  assumes ok: "queues_ok s calls made" and ob: "ob \<in> made" and k: "k \<in> queue_kinds" and free: "calls c = None" and c: "c < task_count s"
    and ts: "tasks t = (tasks s)(c := blocked_on ob k d (tasks s c))" "task_count t = task_count s" "queues t = queues s"
    and inv: "queue_inv ob t"
  shows "queues_ok t (calls(c := Some (ob, k))) made"
proof -
  let ?calls = "calls(c := Some (ob, k))"
  note w = kernel_waiters_blocked [OF ts(1,2) c]
  have prom: "promised o' x ?calls t = promised o' x calls s" for o' x
    using free by (auto simp: promised_def ts)
  show ?thesis
  proof (rule queues_okI)
    show "NULL \<notin> made" using queues_ok_made(3) [OF ok] by blast
    show "queue_inv o' t" if "o' \<in> made" for o'
    proof (cases "o' = ob")
      case False
      then show ?thesis by (intro queue_inv_less [OF queues_ok_made(1) [OF ok that]]) (auto simp: w ts(3))
    qed (use inv in simp)
    show "unat (reservations x (queues t o')) = card (promised o' x ?calls t)" if "o' \<in> made" "x \<in> queue_kinds" for o' x
      unfolding prom ts(3) by (rule queues_ok_made(2) [OF ok that])
    show "?calls i = Some (o', x)" if "waits_on o' x (tasks t i)" "i < task_count t" "x \<in> queue_kinds" for i o' x
    proof (cases "i = c")
      case True
      then show ?thesis using that(1) by (simp add: ts(1) waits_on_def)
    next
      case False
      then show ?thesis using queues_ok_wait [OF ok _ _ that(3), of o' i] that(1,2) by (simp add: ts)
    qed
    show "i < task_count t \<and> o' \<in> made \<and> x \<in> queue_kinds
       \<and> (t_state (tasks t i) = JRT_TASK_STATE_BLOCKED \<longrightarrow> waits_on o' x (tasks t i))" if "?calls i = Some (o', x)" for i o' x
    proof (cases "i = c")
      case True
      then show ?thesis using that ob k c by (simp add: ts waits_on_def)
    next
      case False
      then show ?thesis using queues_ok_call [OF ok, of i o' x] that by (simp add: ts)
    qed
  qed
qed

lemma created_keeps_queues:
  assumes ok: "queues_ok s calls made" and ob: "ob \<noteq> NULL" "\<And>i k. calls i \<noteq> Some (ob, k)"
    and ring: "ring_ok (new_queue storage capacity item_size)"
  shows "queues_ok (JRT_QueueCreateStatic ob storage capacity item_size s) calls (insert ob made)"
proof -
  let ?t = "JRT_QueueCreateStatic ob storage capacity item_size s"
  have t: "queues ?t = (queues s)(ob := new_queue storage capacity item_size)" "tasks ?t = tasks s" "task_count ?t = task_count s"
    by (simp_all add: JRT_QueueCreateStatic_def arch_critical_enter_eq new_queue_def Let_def)
  have prom: "promised o' x calls ?t = promised o' x calls s" for o' x by (simp add: promised_def t)
  have none: "promised ob x calls s = {}" for x using ob(2) by (auto simp: promised_def)
  have idle: "kernel_waiters ob x ?t = {}" if "x \<in> queue_kinds" for x
    using queues_ok_wait [OF ok _ _ that, of ob] ob(2) by (auto simp: kernel_waiters_def waiters_def t)
  have new: "queue_inv ob ?t" using ring idle by (simp add: queue_inv_def t(1) Let_def queue_kinds_def) (simp add: new_queue_def)
  show ?thesis
  proof (rule queues_okI)
    show "NULL \<notin> insert ob made" using queues_ok_made(3) [OF ok] ob(1) by blast
    show "queue_inv o' ?t" if "o' \<in> insert ob made" for o'
    proof (cases "o' = ob")
      case False
      then have "o' \<in> made" using that by simp
      then show ?thesis
        by (intro queue_inv_less [OF queues_ok_made(1) [OF ok]]) (use False in \<open>simp_all add: t kernel_waiters_def\<close>)
    qed (use new in simp)
    show "unat (reservations x (queues ?t o')) = card (promised o' x calls ?t)" if "o' \<in> insert ob made" "x \<in> queue_kinds" for o' x
      using queues_ok_made(2) [OF ok _ that(2), of o'] that
      by (cases "o' = ob") (simp_all add: prom none t(1) reservations_def new_queue_def)
    show "calls i = Some (o', x)" if "waits_on o' x (tasks ?t i)" "i < task_count ?t" "x \<in> queue_kinds" for i o' x
      using queues_ok_wait [OF ok _ _ that(3), of o' i] that(1,2) by (simp add: t)
    show "i < task_count ?t \<and> o' \<in> insert ob made \<and> x \<in> queue_kinds
       \<and> (t_state (tasks ?t i) = JRT_TASK_STATE_BLOCKED \<longrightarrow> waits_on o' x (tasks ?t i))" if "calls i = Some (o', x)" for i o' x
      using queues_ok_call [OF ok that] by (simp add: t)
  qed
qed

section \<open>The other operations leave the queues alone\<close>

text \<open>The queues are as they were, and so is the memory of their items.\<close>

abbreviation (input) same_queues :: "kstate \<Rightarrow> kstate \<Rightarrow> bool" where
  "same_queues t s \<equiv> queues t = queues s \<and> mem8 t = mem8 s"

lemma queues_simps [simp]:
  "same_queues (request_switch s) s" "same_queues (arch_yield s) s" "same_queues (set_task i u s) s"
  "same_queues (set_semaphore sem v s) s" "same_queues (set_event_bits g b s) s" "same_queues (set_record i r s) s"
  "same_queues (set_r0 frame v s) s" "same_queues (write_reg a v s) s"
  "same_queues (task_benchmark_release_locked i c s) s"
  "same_queues (task_benchmark_complete_locked i s) s" "same_queues (task_benchmark_coalesced_locked i s) s"
  "same_queues (task_wait_begin_until i ob k d s) s" "same_queues (task_wait_begin i ob k n s) s"
  "same_queues (task_wait_end i res c s) s" "same_queues (sleep_current n s) s" "same_queues (give_token sem s) s"
  "same_queues (bump s) s \<Longrightarrow> same_queues (count_context_misuse bump s) s"
  by (simp_all add: request_switch_def arch_yield_def set_task_def set_semaphore_def set_event_bits_def set_record_def
      set_r0_def write_reg_def release_frame complete_frame coalesced_frame task_wait_begin_until_eq task_wait_begin_eq
      task_wait_end_eq sleep_current_def give_token_def count_context_misuse_def task_wake_fields arch_critical_enter_eq case_prod_beta Let_def)

lemma semaphore_queues:
  "same_queues (JRT_SemaphoreCreateBinaryStatic sem v s) s" "same_queues (JRT_SemaphoreGive sem s) s"
  "same_queues (JRT_SemaphoreGiveFromISR sem s) s"
  "arch_in_isr s = 0 \<Longrightarrow> same_queues (snd (semaphore_take_from sem timeout d s)) s"
  by (simp_all add: JRT_SemaphoreCreateBinaryStatic_def JRT_SemaphoreGive_def JRT_SemaphoreGiveFromISR_def
      semaphore_take_from_def arch_critical_enter_eq task_block_until_locked_fields Let_def)

lemma event_queues:
  "same_queues (JRT_EventGroupCreateStatic g s) s" "same_queues (snd (event_group_set_bits_common g b isr s)) s"
  "same_queues (snd (JRT_EventGroupWaitBits g b w c timeout s)) s" "same_queues (snd (event_group_wait_resume g b s)) s"
  "same_queues (snd (task_notify_common i v isr s)) s" "same_queues (snd (JRT_TaskNotifyTake p timeout s)) s"
  "same_queues (snd (task_notify_resume s)) s"
proof -
  have f: "same_queues (for_upto n (event_wake_step g) u) u" for n u
    by (intro conjI for_upto_frame) (simp_all add: event_wake_step_def)
  show "same_queues (snd (event_group_set_bits_common g b isr s)) s"
    by (simp add: event_group_set_bits_common_def arch_critical_enter_eq Let_def f)
  show "same_queues (JRT_EventGroupCreateStatic g s) s" by (simp add: JRT_EventGroupCreateStatic_def)
  show "same_queues (snd (JRT_EventGroupWaitBits g b w c timeout s)) s"
    by (simp add: JRT_EventGroupWaitBits_def arch_critical_enter_eq Let_def)
  show "same_queues (snd (event_group_wait_resume g b s)) s"
    by (simp add: event_group_wait_resume_def arch_critical_enter_eq Let_def)
  show "same_queues (snd (task_notify_common i v isr s)) s"
    by (simp add: task_notify_common_def arch_critical_enter_eq Let_def)
  show "same_queues (snd (JRT_TaskNotifyTake p timeout s)) s"
    by (simp add: JRT_TaskNotifyTake_def arch_critical_enter_eq Let_def)
  show "same_queues (snd (task_notify_resume s)) s"
    by (simp add: task_notify_resume_def arch_critical_enter_eq Let_def)
qed

lemma service_queues:
  "same_queues (snd (kernel_task_suspend req s)) s" "same_queues (snd (kernel_task_resume req s)) s"
  "same_queues (JRT_MemoryPoolCreateStatic pool storage block_size block_count bitmap s) s"
  "same_queues (snd (JRT_MemoryPoolAllocate pool s)) s" "same_queues (snd (JRT_MemoryPoolFree pool block s)) s"
  "same_queues (snd (JRT_BenchmarkReset s)) s"
proof -
  have b: "same_queues (for_upto n (\<lambda>i s. set_record i (f s i) s) u) u" for n f u
    by (intro conjI for_upto_frame) simp_all
  show "same_queues (snd (JRT_BenchmarkReset s)) s"
    by (simp add: JRT_BenchmarkReset_def arch_critical_enter_eq Let_def b)
  show "same_queues (JRT_MemoryPoolCreateStatic pool storage block_size block_count bitmap s) s"
    by (simp add: JRT_MemoryPoolCreateStatic_def)
  show "same_queues (snd (JRT_MemoryPoolAllocate pool s)) s" "same_queues (snd (JRT_MemoryPoolFree pool block s)) s"
    by (simp_all add: JRT_MemoryPoolAllocate_def JRT_MemoryPoolFree_def arch_critical_enter_eq Let_def split: option.splits)
qed (simp_all add: suspend_eq resume_eq Let_def)

lemma query_queues:
  "same_queues (snd (snd (read_task out i get s))) s" "same_queues (snd (JRT_EventGroupGetBits g s)) s"
  "same_queues (snd (snd (JRT_BenchmarkGetInfo p s))) s" "same_queues (JRT_KernelSetTickHook hook s) s"
  "same_queues (snd (snd (JRT_BenchmarkGetTask i p info s))) s"
  by (simp_all add: read_task_def JRT_EventGroupGetBits_def JRT_BenchmarkGetInfo_def JRT_KernelSetTickHook_def
      JRT_BenchmarkGetTask_def JRT_TaskGetStackInfo_def arch_critical_enter_eq critical_enter_def critical_exit_def Let_def)

lemma beside_timers_queues: "P \<and> beside_timers t = beside_timers s \<Longrightarrow> same_queues t s"
  by (simp add: beside_timers_def)

lemma svc_queues: "same_queues (svc_dispatch frame exc_return s) s"
  by (simp add: svc_dispatch_def board_led_toggle_def service_queues case_prod_beta Let_def)

text \<open>Only a write of application code can change the bytes of a queue.\<close>

lemma environment_queues:
  assumes "environment_step s t" and ok: "kernel_ok s"
  shows "queues t = queues s \<and> (mem8 t = mem8 s \<or> (\<exists>m32 m8. t = s\<lparr>mem32 := m32, mem8 := m8\<rparr>))"
  using assms(1)
proof cases
  case memory
  then show ?thesis by auto
next
  case start
  then show ?thesis by (auto simp: JRT_KernelStart_def arch_tick_init_def tick_init_def Let_def split: if_splits)
next
  case tick_start
  then show ?thesis by (simp add: arch_tick_start_def)
next
  case (tick u)
  have "kernel_wf s" using ok by (simp add: kernel_ok_def)
  from tick_beside [OF this tick(2)] tick(1) show ?thesis by (simp add: beside_tick_def)
next
  case (switch sp r)
  then show ?thesis using pendsv_switch_still [of sp s r t] by (simp add: still_def)
next
  case (mutex_create ob)
  then show ?thesis using mutex_ops_beside(3) [of ob s t] by (simp add: beside_mutexes_def)
next
  case (event_set_isr g bits)
  then show ?thesis by (simp add: JRT_EventGroupSetBitsFromISR_def event_queues)
qed (simp_all add: semaphore_queues event_queues service_queues query_queues JRT_EventGroupSetBits_def JRT_TaskNotify_def
    JRT_TaskNotifyFromISR_def JRT_TaskGetState_def JRT_TaskGetStackInfo_def JRT_TaskGetName_def JRT_TaskGetPriority_def
    beside_timers_queues [OF timer_ops_quiet(1)] beside_timers_queues [OF timer_ops_quiet(2)]
    beside_timers_queues [OF timer_ops_quiet(3)] beside_timers_queues [OF timer_ops_quiet(4)]
    beside_timers_queues [OF timer_ops_quiet(5)] beside_timers_queues [OF timer_ops_quiet(6)]
    beside_timers_queues [OF timer_callback_quiet] beside_timers_queues [OF timer_dispatch_quiet])

lemma thread_queues:
  assumes "thread_step s t" and ok: "kernel_ok s" and app: "app_thread s"
  shows "same_queues t s"
proof -
  note ctx = app_threadD [OF app]
  note isr = thread_not_isr [OF ctx(1)]
  from assms(1) show ?thesis
  proof cases
    case (timer_claim claimed)
    have "ld_timer_service_wait_object (cfg s) \<noteq> NULL" using ok by (simp add: kernel_ok_def)
    from timer_claim_quiet [OF ctx(1) timer_claim(1) this timer_claim(2)] show ?thesis by (rule beside_timers_queues)
  next
    case (mutex_lock ob d timeout)
    then show ?thesis using mutex_ops_beside(1) [OF isr] by (simp add: beside_mutexes_def)
  next
    case (mutex_unlock ob)
    then show ?thesis using mutex_ops_beside(2) [OF isr] by (simp add: beside_mutexes_def)
  qed (simp_all add: semaphore_queues isr event_queues svc_queues)
qed

section \<open>Every step of a run\<close>

lemma pass_keeps_queues:
  assumes ok: "queues_ok s calls made" and kok: "kernel_ok s" and app: "app_thread s" and ob: "ob \<in> made" and apart: "item_apart ob item s"
    and call: "calls (current_task s) = (if reserved \<noteq> 0 then Some (ob, k) else None)"
    and prom: "reserved \<noteq> 0 \<Longrightarrow> current_task s \<in> promised ob k calls s"
  shows "k = TASK_WAIT_QUEUE_SEND \<Longrightarrow> queue_send_pass ob item timeout d reserved s = (r, t) \<Longrightarrow>
      queues_ok t (after_pass (current_task s) ob k r calls) made"
    and "k = TASK_WAIT_QUEUE_RECEIVE \<Longrightarrow> queue_receive_pass ob item timeout d reserved s = (r, t) \<Longrightarrow>
      queues_ok t (after_pass (current_task s) ob k r calls) made"
proof -
  let ?c = "current_task s"
  have cur: "?c < task_count s" by (rule current_below [OF app])
  have calls: "calls(?c := None) = (if reserved \<noteq> 0 then calls(?c := None) else calls)" using call by auto
  have res: "reserved \<noteq> 0 \<longrightarrow> reservations k (queues s ob) \<noteq> 0" if "k \<in> queue_kinds"
  proof
    assume "reserved \<noteq> 0"
    then have "card (promised ob k calls s) \<noteq> 0" using prom by (auto simp: card_eq_0_iff)
    then show "reservations k (queues s ob) \<noteq> 0" using queues_ok_made(2) [OF ok ob that] by (metis unat_0)
  qed
  have cs: "kernel_waiters ob' k' (cs_enter s) = kernel_waiters ob' k' s" "woken_tasks ob' k' (cs_enter s) = woken_tasks ob' k' s" for ob' k'
    by (simp_all add: kernel_waiters_def woken_tasks_def best_waiter_def)
  show "queues_ok t (after_pass ?c ob k r calls) made" if k: "k = TASK_WAIT_QUEUE_SEND"
    and pass: "queue_send_pass ob item timeout d reserved s = (r, t)"
    using queues_ok_made(1) [OF ok ob] apart cur res [unfolded k, simplified queue_kinds_def reservations_def, simplified] pass
  proof (cases rule: send_pass_cases)
    case sent
    note f = sent_fields [of ob item reserved "cs_enter s"]
    show ?thesis unfolding after_pass_def sent(2)
      by (simp, rule served_keeps_queues [OF ok kok ob, where k = TASK_WAIT_QUEUE_RECEIVE and k' = TASK_WAIT_QUEUE_SEND
          and collected = "reserved \<noteq> 0" and c = ?c and q = "queues t ob"])
        (use f sent(4) prom calls in \<open>simp_all add: sent(3) cs queue_kinds_def reservations_def k\<close>)
  next
    case refused
    then show ?thesis using call same_keeps_queues [OF ok refused(5,8,6)] calls by (simp add: after_pass_def)
  next
    case blocked
    show ?thesis unfolding after_pass_def blocked(4)
      by (simp, rule blocked_keeps_queues [OF ok ob _ _ cur])
        (use blocked call in \<open>simp_all add: k queue_kinds_def\<close>)
  qed
  show "queues_ok t (after_pass ?c ob k r calls) made" if k: "k = TASK_WAIT_QUEUE_RECEIVE"
    and pass: "queue_receive_pass ob item timeout d reserved s = (r, t)"
    using queues_ok_made(1) [OF ok ob] apart cur res [unfolded k, simplified queue_kinds_def reservations_def, simplified] pass
  proof (cases rule: receive_pass_cases)
    case taken
    note f = taken_fields [of ob item reserved "cs_enter s"]
    show ?thesis unfolding after_pass_def taken(2)
      by (simp, rule served_keeps_queues [OF ok kok ob, where k = TASK_WAIT_QUEUE_SEND and k' = TASK_WAIT_QUEUE_RECEIVE
          and collected = "reserved \<noteq> 0" and c = ?c and q = "queues t ob"])
        (use f taken(4) prom calls in \<open>simp_all add: taken(3) cs queue_kinds_def reservations_def k\<close>)
  next
    case refused
    then show ?thesis using call same_keeps_queues [OF ok refused(5,8,6)] calls by (simp add: after_pass_def)
  next
    case blocked
    show ?thesis unfolding after_pass_def blocked(4)
      by (simp, rule blocked_keeps_queues [OF ok ob _ _ cur])
        (use blocked call in \<open>simp_all add: k queue_kinds_def\<close>)
  qed
qed

text \<open>A task that runs again collects what it was promised; if its time was over it was promised nothing.\<close>

lemma block_resume_zero: "task_block_resume s = 0 \<longleftrightarrow> t_wait_result (tasks s (current_task s)) = 0"
  by (simp add: task_block_resume_def int32_def signed_eq_0_iff)

lemma resume_keeps_queues:
  assumes ok: "queues_ok s calls made" and kok: "kernel_ok s" and app: "app_thread s" and call: "calls (current_task s) = Some (ob, k)"
    and apart: "item_apart ob item s"
  shows "k = TASK_WAIT_QUEUE_SEND \<Longrightarrow> queue_send_resume ob item timeout d s = (r, t) \<Longrightarrow>
      queues_ok t (after_pass (current_task s) ob k r calls) made"
    and "k = TASK_WAIT_QUEUE_RECEIVE \<Longrightarrow> queue_receive_resume ob item timeout d s = (r, t) \<Longrightarrow>
      queues_ok t (after_pass (current_task s) ob k r calls) made"
proof -
  let ?c = "current_task s"
  note c = queues_ok_call [OF ok call]
  have run: "t_state (tasks s ?c) = JRT_TASK_STATE_RUNNING" by (rule running_thread [OF app_threadD(1) [OF app]])
  have iff: "task_block_resume s = 0 \<longleftrightarrow> t_wait_result (tasks s ?c) = 0" by (rule block_resume_zero)
  have promised: "?c \<in> promised ob k calls s" if "task_block_resume s \<noteq> 0"
    using that c call run by (simp add: promised_def iff)
  have late: "queues_ok s (calls(?c := None)) made" if "task_block_resume s = 0"
  proof (rule queues_okI)
    have none: "t_wait_result (tasks s ?c) = 0" using that by (simp add: iff)
    have prom: "promised o' x (calls(?c := None)) s = promised o' x calls s" for o' x using none by (auto simp: promised_def)
    show "unat (reservations x (queues s o')) = card (promised o' x (calls(?c := None)) s)" if "o' \<in> made" "x \<in> queue_kinds" for o' x
      unfolding prom by (rule queues_ok_made(2) [OF ok that])
    show "(calls(?c := None)) i = Some (o', x)" if "waits_on o' x (tasks s i)" "i < task_count s" "x \<in> queue_kinds" for i o' x
      using queues_ok_wait [OF ok that] that(1) run by (auto simp: waits_on_def)
    show "NULL \<notin> made" using queues_ok_made(3) [OF ok] by blast
    show "i < task_count s \<and> o' \<in> made \<and> x \<in> queue_kinds
       \<and> (t_state (tasks s i) = JRT_TASK_STATE_BLOCKED \<longrightarrow> waits_on o' x (tasks s i))" if "(calls(?c := None)) i = Some (o', x)" for i o' x
      by (rule queues_ok_call [OF ok]) (use that in \<open>simp split: if_splits\<close>)
  qed (rule queues_ok_made(1) [OF ok])
  have made: "ob \<in> made" using c by simp
  show "queues_ok t (after_pass ?c ob k r calls) made" if k: "k = TASK_WAIT_QUEUE_SEND" and r: "queue_send_resume ob item timeout d s = (r, t)"
  proof (cases "task_block_resume s = 0")
    case True
    then show ?thesis using r late by (auto simp: queue_send_resume_def after_pass_def)
  next
    case False
    then have pass: "queue_send_pass ob item timeout d 1 s = (r, t)" using r by (simp add: queue_send_resume_def)
    show ?thesis by (rule pass_keeps_queues(1) [OF ok kok app made apart _ _ k pass]) (use call promised False in simp_all)
  qed
  show "queues_ok t (after_pass ?c ob k r calls) made" if k: "k = TASK_WAIT_QUEUE_RECEIVE" and r: "queue_receive_resume ob item timeout d s = (r, t)"
  proof (cases "task_block_resume s = 0")
    case True
    then show ?thesis using r late by (auto simp: queue_receive_resume_def after_pass_def)
  next
    case False
    then have pass: "queue_receive_pass ob item timeout d 1 s = (r, t)" using r by (simp add: queue_receive_resume_def)
    show ?thesis by (rule pass_keeps_queues(2) [OF ok kok app made apart _ _ k pass]) (use call promised False in simp_all)
  qed
qed

lemma send_isr_keeps_queues:
  assumes ok: "queues_ok s calls made" and kok: "kernel_ok s" and ob: "ob \<in> made" and apart: "item_apart ob item s"
    and send: "JRT_QueueSendFromISR ob item s = (r, t)"
  shows "queues_ok t calls made"
proof (cases "ipsr s = 0")
  case True
  then have "tasks t = tasks s" "task_count t = task_count s" "queues t = queues s"
    using send by (auto simp: JRT_QueueSendFromISR_def arch_in_isr_def count_context_misuse_def Let_def)
  then show ?thesis by (rule same_keeps_queues [OF ok])
next
  case isr: False
  note inv = queues_ok_made(1) [OF ok ob]
  show ?thesis
  proof (cases "queue_send_ready (queues s ob) 0")
    case False
    then have "tasks t = tasks s" "task_count t = task_count s" "queues t = queues s"
      using send_from_isr_full [OF isr] send by auto
    then show ?thesis by (rule same_keeps_queues [OF ok])
  next
    case True
    let ?e = "(cs_enter s)\<lparr>g_isr_queue_send_attempted := g_isr_queue_send_attempted s + 1\<rparr>"
    let ?w = "wake_receiver ob (queue_copy_in ob item 0 ?e)"
    have ring: "ring_ok (queues s ob)" using inv by (simp add: queue_inv_def Let_def)
    obtain x y where t: "t = arch_request_switch (arch_critical_exit (primask s) (wake_receiver ob
        ((queue_copy_in ob item 0 ?e)\<lparr>g_isr_queue_send_accepted := x, g_isr_queue_count_high_water := y\<rparr>)))"
      using send_from_isr_room [OF ring apart isr True] send by auto
    have tf: "tasks t = tasks ?w" "task_count t = task_count ?w" "queues t = queues ?w"
      by (simp_all add: t wake_receiver_fields kernel_waiters_def woken_tasks_def best_waiter_def)
    have e: "queue_inv ob ?e" "item_apart ob item ?e" using inv apart queue_inv_cong [of ?e ob s] by (simp_all add: item_apart_def)
    have "queue_inv ob ?w" by (rule send_step(1) [OF e]) (use True in simp_all)
    then have "queue_inv ob t" using queue_inv_cong [of t ob ?w] tf by simp
    moreover note sent_fields [of ob item 0 ?e]
    moreover have "kernel_waiters ob k ?e = kernel_waiters ob k s" "woken_tasks ob k ?e = woken_tasks ob k s" for k
      by (simp_all add: kernel_waiters_def woken_tasks_def best_waiter_def)
    ultimately show ?thesis
      by (intro served_keeps_queues [OF ok kok ob, where k = TASK_WAIT_QUEUE_RECEIVE and k' = TASK_WAIT_QUEUE_SEND
          and collected = False and q = "queues t ob"]) (simp_all add: tf queue_kinds_def reservations_def)
  qed
qed

text \<open>The invariant of a run, and that a run is a run of the kernel.\<close>

definition run_ok :: "run_state \<Rightarrow> bool" where
  "run_ok x \<longleftrightarrow> (case x of (s, calls, made, es) \<Rightarrow> kernel_ok s \<and> wakeups_ok s \<and> queues_ok s calls made)"

lemma queue_run_kernel:
  assumes "queue_run (s, calls, made, es) (t, calls', made', es')" and ok: "queues_ok s calls made"
  shows "kernel_step s t \<or> t = s"
proof -
  have sends: "kernel_step s t" if "app_thread s" "ob \<in> made" "queue_send_pass ob item timeout d reserved s = (r, t)"
    for ob item timeout d reserved r
    using kernel_step.queue [OF queue_step.queue_send [OF that(1) queues_ok_made(3) [OF ok that(2)], of item timeout d reserved]]
    by (simp add: that(3))
  have receives: "kernel_step s t" if "app_thread s" "ob \<in> made" "queue_receive_pass ob item timeout d reserved s = (r, t)"
    for ob item timeout d reserved r
    using kernel_step.queue [OF queue_step.queue_receive [OF that(1) queues_ok_made(3) [OF ok that(2)], of item timeout d reserved]]
    by (simp add: that(3))
  from assms(1) show ?thesis
  proof cases
    case environment
    then show ?thesis by (simp add: kernel_step.environment)
  next
    case thread
    then show ?thesis by (simp add: kernel_step.thread)
  next
    case create
    then show ?thesis by (auto intro: kernel_step.queue queue_step.queue_create)
  next
    case (send ob item timeout d r)
    then show ?thesis using sends by blast
  next
    case (receive ob item timeout d r)
    then show ?thesis using receives by blast
  next
    case (send_isr ob item r)
    then show ?thesis using kernel_step.queue [OF queue_step.queue_send_isr [of s ob item]] by simp
  next
    case (send_resume ob item timeout d r)
    then show ?thesis using queues_ok_call [OF ok send_resume(5)] sends [of ob item timeout d 1 r]
      by (auto simp: queue_send_resume_def split: if_splits)
  next
    case (receive_resume ob item timeout d r)
    then show ?thesis using queues_ok_call [OF ok receive_resume(5)] receives [of ob item timeout d 1 r]
      by (auto simp: queue_receive_resume_def split: if_splits)
  qed
qed

lemma queue_run_keeps:
  assumes "queue_run (s, calls, made, es) (t, calls', made', es')" and kok: "kernel_ok s" and ok: "queues_ok s calls made"
  shows "queues_ok t calls' made'"
  using assms(1)
proof cases
  case environment
  show ?thesis unfolding environment
    by (rule outcome_keeps_queues [OF ok environment_outcome [OF environment(4) kok] conjunct1 [OF environment_queues [OF environment(4) kok]]]) simp
next
  case thread
  show ?thesis unfolding thread
    by (rule outcome_keeps_queues [OF ok thread_outcome [OF thread(6) kok thread(4)] conjunct1 [OF thread_queues [OF thread(6) kok thread(4)]]])
      (use thread(5) in simp)
next
  case (create ob storage capacity item_size)
  then show ?thesis using created_keeps_queues [OF ok create(5-7)] by simp
next
  case (send ob item timeout d r)
  show ?thesis unfolding send(1,2)
    by (rule pass_keeps_queues(1) [OF ok kok send(4,6,7) _ _ refl send(8)]) (use send(5) in simp_all)
next
  case (receive ob item timeout d r)
  show ?thesis unfolding receive(1,2)
    by (rule pass_keeps_queues(2) [OF ok kok receive(4,6) buffer_item_apart [OF receive(7,6)] _ _ refl receive(8)]) (use receive(5) in simp_all)
next
  case (send_isr ob item r)
  then show ?thesis using send_isr_keeps_queues [OF ok kok send_isr(4-6)] by simp
next
  case (send_resume ob item timeout d r)
  show ?thesis unfolding send_resume(1,2)
    by (rule resume_keeps_queues(1) [OF ok kok send_resume(4-6) refl send_resume(7)])
next
  case (receive_resume ob item timeout d r)
  show ?thesis unfolding receive_resume(1,2)
    using queues_ok_call [OF ok receive_resume(5)]
    by (intro resume_keeps_queues(2) [OF ok kok receive_resume(4,5) buffer_item_apart [OF receive_resume(6)] refl receive_resume(7)]) simp
qed

interpretation queue_runs: invariant_system queue_run run_ok
proof
  fix x y assume ok: "run_ok x" and step: "queue_run x y"
  obtain s calls made es t calls' made' es' where xy: "x = (s, calls, made, es)" "y = (t, calls', made', es')" by (metis prod_cases4)
  have s: "kernel_ok s" "wakeups_ok s" "queues_ok s calls made" using ok by (simp_all add: run_ok_def xy)
  have "kernel_ok t \<and> wakeups_ok t"
    using queue_run_kernel [OF step [unfolded xy] s(3)] kernel_run.step_inv [of s t] s(1,2) by blast
  then show "run_ok y" using queue_run_keeps [OF step [unfolded xy] s(1,3)] by (simp add: run_ok_def xy)
qed

lemma init_no_queue_wait:
  assumes "initialised t" and "i < task_count t" and "k \<in> queue_kinds"
  shows "\<not> waits_on ob k (tasks t i)"
proof -
  obtain s p x where b: "before_init s" and r: "JRT_KernelInit p x s = Inr (JRT_STATUS_OK, t)"
    using assms(1) by (auto simp: initialised_def)
  then have "t_state (tasks t i) = JRT_TASK_STATE_BLOCKED \<Longrightarrow> t_wait_kind (tasks t i) = TASK_WAIT_TIMER_SERVICE"
    using init_tasks_facts(6) [OF _ _ r _ assms(2)] by (simp add: before_init_def)
  then show ?thesis using assms(3) by (auto simp: waits_on_def queue_kinds_def)
qed

lemma run_start_ok:
  assumes "initialised s" shows "run_ok (s, (\<lambda>_. None), {}, [])"
proof -
  have "queues_ok s (\<lambda>_. None) {}" by (rule queues_okI) (use init_no_queue_wait [OF assms] in auto)
  then show ?thesis using init_kernel_ok [OF assms] by (simp add: run_ok_def)
qed

section \<open>Properties of queues in every reachable state\<close>

abbreviation (input) runs_to :: "kstate \<Rightarrow> run_state \<Rightarrow> bool" where
  "runs_to s x \<equiv> queue_run\<^sup>*\<^sup>* (s, (\<lambda>_. None), {}, []) x"

lemma runs_to_ok: "initialised s \<Longrightarrow> runs_to s x \<Longrightarrow> run_ok x"
  using queue_runs.run_inv run_start_ok by blast

lemma runs_to_kernel:
  assumes "initialised s" and "runs_to s (t, calls, made, es)" shows "kernel_step\<^sup>*\<^sup>* s t"
proof -
  have "kernel_step\<^sup>*\<^sup>* s (fst x) \<and> run_ok x" if "runs_to s x" for x
    using that
  proof (induction rule: rtranclp_induct)
    case base
    then show ?case using run_start_ok [OF assms(1)] by simp
  next
    case (step x y)
    obtain u c m e v c' m' e' where xy: "x = (u, c, m, e)" "y = (v, c', m', e')" by (metis prod_cases4)
    have "kernel_step u v \<or> v = u"
      by (rule queue_run_kernel [OF step.hyps(2) [unfolded xy]]) (use step.IH in \<open>simp add: xy run_ok_def\<close>)
    moreover have "run_ok y" using queue_runs.step_inv step by blast
    ultimately show ?case using step.IH steps by (auto simp: xy)
  qed
  from this [OF assms(2)] show ?thesis by simp
qed

text \<open>C7: in every reachable state the reservations of every queue are exactly its promises: the counters are the
  numbers of the tasks that were woken in a call on it and have not collected their slot or item yet, whatever
  interrupts, ticks, suspensions, timeouts and calls came in between; stored items and promised slots fit into the
  queue, every promised item is stored, and a task waits only while everything is promised to others.\<close>

theorem reservations_are_promises:
  assumes "initialised s" and "queue_run\<^sup>*\<^sup>* (s, (\<lambda>_. None), {}, []) (t, calls, made, es)" and "ob \<in> made"
  shows "queue_inv ob t
    \<and> unat (q_send_reservations (queues t ob)) = card (promised ob TASK_WAIT_QUEUE_SEND calls t)
    \<and> unat (q_receive_reservations (queues t ob)) = card (promised ob TASK_WAIT_QUEUE_RECEIVE calls t)
    \<and> kernel_step\<^sup>*\<^sup>* s t"
proof -
  have "queues_ok t calls made" using runs_to_ok [OF assms(1,2)] by (simp add: run_ok_def)
  note made = queues_ok_made [OF this assms(3)]
  show ?thesis
    using made(1) made(2) [of TASK_WAIT_QUEUE_SEND] made(2) [of TASK_WAIT_QUEUE_RECEIVE] runs_to_kernel [OF assms(1,2)]
    by (simp add: queue_kinds_def reservations_def)
qed

text \<open>C8: a promise is kept: a task that was woken in a queue call and runs again finishes the call at once. A
  sender's item is stored as the newest, a receiver gets the oldest item intact, and neither blocks a second time,
  whatever happened between the wake-up and now; a task that was not woken by the other side (its time is over)
  returns 0 and leaves the queue as it is.\<close>

theorem promise_is_kept:
  assumes "initialised s" and "queue_run\<^sup>*\<^sup>* (s, (\<lambda>_. None), {}, []) (t, calls, made, es)" and "app_thread t"
    and "calls (current_task t) = Some (ob, k)" and "item_apart ob item t"
  shows "if t_wait_result (tasks t (current_task t)) = 0
    then queue_send_resume ob item timeout d t = (Some 0, t) \<and> queue_receive_resume ob item timeout d t = (Some 0, t)
    else (k = TASK_WAIT_QUEUE_SEND \<longrightarrow> (\<exists>u. queue_send_resume ob item timeout d t = (Some 1, u) \<and> queue_inv ob u
           \<and> ring_contents (ring_of ob u) =
               ring_contents (ring_of ob t) @ [read_item (mem8 t) item (q_item_size (queues t ob))]))
       \<and> (k = TASK_WAIT_QUEUE_RECEIVE \<longrightarrow> (\<exists>u. queue_receive_resume ob item timeout d t = (Some 1, u) \<and> queue_inv ob u
           \<and> ring_contents (ring_of ob t) =
               read_item (mem8 u) item (q_item_size (queues t ob)) # ring_contents (ring_of ob u)))"
proof (cases "t_wait_result (tasks t (current_task t)) = 0")
  case True
  then show ?thesis by (simp add: queue_send_resume_def queue_receive_resume_def block_resume_zero)
next
  case False
  let ?c = "current_task t"
  have ok: "queues_ok t calls made" using runs_to_ok [OF assms(1,2)] by (simp add: run_ok_def)
  note c = queues_ok_call [OF ok assms(4)]
  have made: "ob \<in> made" and cur: "?c < task_count t" using c by simp_all
  note inv = queues_ok_made(1) [OF ok made]
  have "t_state (tasks t ?c) = JRT_TASK_STATE_RUNNING" by (rule running_thread [OF app_threadD(1) [OF assms(3)]])
  then have "?c \<in> promised ob k calls t" using c assms(4) False by (simp add: promised_def)
  then have "card (promised ob k calls t) \<noteq> 0" by (auto simp: card_eq_0_iff)
  then have res: "reservations k (queues t ob) \<noteq> 0" using queues_ok_made(2) [OF ok made, of k] c by (metis unat_0)
  have resume: "queue_send_resume ob item timeout d t = queue_send_pass ob item timeout d 1 t"
    "queue_receive_resume ob item timeout d t = queue_receive_pass ob item timeout d 1 t"
    using False by (simp_all add: queue_send_resume_def queue_receive_resume_def block_resume_zero)
  have "\<exists>u. queue_send_pass ob item timeout d 1 t = (Some 1, u) \<and> queue_inv ob u
      \<and> ring_contents (ring_of ob u) = ring_contents (ring_of ob t) @ [read_item (mem8 t) item (q_item_size (queues t ob))]"
    if k: "k = TASK_WAIT_QUEUE_SEND"
  proof -
    obtain r u where p: "queue_send_pass ob item timeout d 1 t = (r, u)" by fastforce
    have "(1 :: u32) \<noteq> 0 \<longrightarrow> q_send_reservations (queues t ob) \<noteq> 0" using res by (simp add: k reservations_def)
    from inv assms(5) cur this p show ?thesis by (cases rule: send_pass_cases) (simp_all add: p)
  qed
  moreover have "\<exists>u. queue_receive_pass ob item timeout d 1 t = (Some 1, u) \<and> queue_inv ob u
      \<and> ring_contents (ring_of ob t) = read_item (mem8 u) item (q_item_size (queues t ob)) # ring_contents (ring_of ob u)"
    if k: "k = TASK_WAIT_QUEUE_RECEIVE"
  proof -
    obtain r u where p: "queue_receive_pass ob item timeout d 1 t = (r, u)" by fastforce
    have "(1 :: u32) \<noteq> 0 \<longrightarrow> q_receive_reservations (queues t ob) \<noteq> 0" using res by (simp add: k reservations_def)
    from inv assms(5) cur this p show ?thesis by (cases rule: receive_pass_cases) (simp_all add: p)
  qed
  ultimately show ?thesis using False by (simp add: resume)
qed

section \<open>A run with a promise\<close>

text \<open>
  Task 0 creates a queue and waits for an item; an interrupt handler sends one, which wakes task 0, and the
  context switch lets it run again.
\<close>

lemma environment_runs: "environment_step\<^sup>*\<^sup>* s t \<Longrightarrow> queue_run\<^sup>*\<^sup>* (s, calls, {}, es) (t, calls, {}, es)"
  proof (induction rule: rtranclp_induct)
  case (step y z)
  have "spared {} y z" by (simp add: spared_def)
  then show ?case by (rule rtranclp.rtrancl_into_rtrancl [OF step.IH queue_run.environment [OF step.hyps(2)]])
qed simp

lemma run_steps: "queue_run\<^sup>*\<^sup>* x y \<Longrightarrow> queue_run y z \<Longrightarrow> queue_run\<^sup>*\<^sup>* x z"
  by (rule rtranclp.rtrancl_into_rtrancl)

lemma item_apart_queue:
  "queues t ob = q \<Longrightarrow> q_storage q = 0x600 \<Longrightarrow> q_capacity q = 2 \<Longrightarrow> q_item_size q = 4 \<Longrightarrow> item_apart ob 0x700 t"
proof -
  have "disjoint_blocks 0x700 0x600 4" "disjoint_blocks 0x700 0x604 4" by (auto simp: disjoint_blocks_def below_four)
  then show "queues t ob = q \<Longrightarrow> q_storage q = 0x600 \<Longrightarrow> q_capacity q = 2 \<Longrightarrow> q_item_size q = 4 \<Longrightarrow> ?thesis"
    by (auto simp: item_apart_def slot_addr_def below_two)
qed

lemma buffer_apart_queue:
  "queues t ob = q \<Longrightarrow> q_storage q = 0x600 \<Longrightarrow> q_capacity q = 2 \<Longrightarrow> q_item_size q = 4 \<Longrightarrow> buffer_apart {ob} ob 0x700 t"
  by (auto simp: buffer_apart_def storage_of_def slot_addr_def below_two below_four)

lemma waiting_run:
  obtains s t where "initialised s" "runs_to s (t, (\<lambda>_. None)(0 := Some (0x500, TASK_WAIT_QUEUE_RECEIVE)), {0x500}, [Created 0x500])"
    "queues t 0x500 = new_queue 0x600 2 4" "kernel_waiters 0x500 TASK_WAIT_QUEUE_RECEIVE t = {0}"
    "current_task t = 0" "g_current_task_index t = 0" "task_count t = 4"
    "t_state (tasks t 1) = JRT_TASK_STATE_READY" "t_state (tasks t 2) = JRT_TASK_STATE_BLOCKED"
    "t_state (tasks t 3) = JRT_TASK_STATE_READY" "t_priority (tasks t 1) < t_priority (tasks t 0)"
    "t_priority (tasks t 3) < t_priority (tasks t 0)" "stack_pointer_ok (tasks t 0) (t_sp (tasks t 0))"
proof -
  obtain s a where s: "initialised s" "environment_step\<^sup>*\<^sup>* s a" "stage a" by (rule started_stage) blast
  have r1: "runs_to s (a, (\<lambda>_. None), {}, [])" by (rule environment_runs [OF s(2)])
  let ?b = "JRT_QueueCreateStatic 0x500 0x600 2 4 a" and ?d = "make_deadline 0 JRT_WAIT_FOREVER"
  have ring: "ring_ok (new_queue 0x600 2 4)" by (simp add: ring_ok_def new_queue_def ring_slot_def)
  have b: "tasks ?b = tasks a" "task_count ?b = task_count a" "current_task ?b = current_task a"
    "g_current_task_index ?b = g_current_task_index a" "ipsr ?b = ipsr a" "queues ?b 0x500 = new_queue 0x600 2 4"
    "application_task_count ?b = application_task_count a" "kernel_initialized ?b = kernel_initialized a"
    "kernel_started ?b = kernel_started a"
    by (simp_all add: JRT_QueueCreateStatic_def new_queue_def arch_critical_enter_eq arch_critical_exit_eq cs_enter_def Let_def)
  have stage: "stage ?b" using s(3) by (simp add: stage_def b)
  have r2: "runs_to s (?b, (\<lambda>_. None), {0x500}, [Created 0x500])"
    by (rule run_steps [OF r1]) (use queue_run.create [of "0x500" "\<lambda>_. None" "0x600" 2 4 "{}" a "[]"] ring in simp)
  obtain r t where p: "queue_receive_pass 0x500 0x700 1 ?d 0 ?b = (r, t)" by fastforce
  have apart: "item_apart 0x500 0x700 ?b" by (rule item_apart_queue [OF b(6)]) (simp_all add: new_queue_def)
  have "run_ok (?b, (\<lambda>_. None), {0x500}, [Created 0x500])" by (rule runs_to_ok [OF s(1) r2])
  then have inv: "queue_inv 0x500 ?b" by (simp add: run_ok_def queues_ok_def)
  have cur: "current_task ?b < task_count ?b" using stage by (simp add: stage_def)
  have wait: "\<not> gives_up 1 ?d ?b" by (simp add: gives_up_def deadline_passed_def make_deadline_def)
  have none: "q_count (queues ?b 0x500) = q_receive_reservations (queues ?b 0x500)" by (simp add: b(6) new_queue_def)
  have "(0 :: u32) \<noteq> 0 \<longrightarrow> q_receive_reservations (queues ?b 0x500) \<noteq> 0" by simp
  from inv apart cur this p obtain t: "r = None" "queues t = queues ?b" "task_count t = task_count ?b"
    "tasks t = (tasks ?b)(current_task ?b := blocked_on 0x500 TASK_WAIT_QUEUE_RECEIVE ?d (tasks ?b (current_task ?b)))"
    by (cases rule: receive_pass_cases) (use wait none in auto)
  have app: "app_thread ?b" by (rule stage_thread [OF stage])
  have q: "basis t = basis ?b" using quiet_queue_pass(2) [OF app_threadD(1) [OF app], of "0x500" "0x700" 1 ?d 0] p by (simp add: quiet_def)
  note f = basis_fields [OF q]
  have c: "current_task ?b = 0" "task_count ?b = 4" using stage by (simp_all add: stage_def)
  have idle: "kernel_waiters 0x500 TASK_WAIT_QUEUE_RECEIVE ?b = {}"
  proof -
    have "run_ok (?b, (\<lambda>_. None), {0x500}, [Created 0x500])" by (rule runs_to_ok [OF s(1) r2])
    then have "queues_ok ?b (\<lambda>_. None) {0x500}" by (simp add: run_ok_def)
    from queues_ok_wait [OF this] show ?thesis by (auto simp: kernel_waiters_def waiters_def queue_kinds_def)
  qed
  have buffer: "buffer_apart {0x500} 0x500 0x700 ?b" by (rule buffer_apart_queue [OF b(6)]) (simp_all add: new_queue_def)
  have r3: "runs_to s (t, (\<lambda>_. None)(0 := Some (0x500, TASK_WAIT_QUEUE_RECEIVE)), {0x500}, [Created 0x500])"
    using run_steps [OF r2 queue_run.receive [OF app _ _ buffer p]] by (simp add: after_pass_def received_event_def t(1) c(1))
  show thesis
  proof (rule that [OF s(1) r3])
    show "kernel_waiters 0x500 TASK_WAIT_QUEUE_RECEIVE t = {0}"
      using kernel_waiters_blocked [OF t(4,3) cur] by (simp add: idle c)
    show "t_priority (tasks t 3) < t_priority (tasks t 0)" using stage by (auto simp: t c b stage_def)
  qed (use stage in \<open>simp_all add: t f c b stage_def stack_pointer_ok_def blocked_on_def\<close>)
qed

lemma woken_run:
  obtains s e m x where "initialised s" "runs_to s (e, (\<lambda>_. None)(0 := Some (0x500, TASK_WAIT_QUEUE_RECEIVE)), {0x500}, [Created 0x500, Sent 0x500 x])"
    "tasks e = m(0 := awake 1 (m 0))" "current_task e = 0" "g_current_task_index e = 0" "task_count e = 4" 
    "t_state (m 1) = JRT_TASK_STATE_READY" "t_state (m 2) = JRT_TASK_STATE_BLOCKED"
    "t_state (m 3) = JRT_TASK_STATE_READY" "t_priority (m 1) < t_priority (m 0)"
    "t_priority (m 3) < t_priority (m 0)" "stack_pointer_ok (m 0) (t_sp (m 0))"
    "q_storage (queues e 0x500) = 0x600" "q_capacity (queues e 0x500) = 2" "q_item_size (queues e 0x500) = 4"
proof -
  let ?calls = "(\<lambda>_. None)(0 := Some (0x500, TASK_WAIT_QUEUE_RECEIVE)) :: calls"
  obtain s a where a: "initialised s" "runs_to s (a, ?calls, {0x500}, [Created 0x500])"
    "queues a 0x500 = new_queue 0x600 2 4" "kernel_waiters 0x500 TASK_WAIT_QUEUE_RECEIVE a = {0}"
    "current_task a = 0" "g_current_task_index a = 0" "task_count a = 4"
    "t_state (tasks a 1) = JRT_TASK_STATE_READY" "t_state (tasks a 2) = JRT_TASK_STATE_BLOCKED"
    "t_state (tasks a 3) = JRT_TASK_STATE_READY" "t_priority (tasks a 1) < t_priority (tasks a 0)"
    "t_priority (tasks a 3) < t_priority (tasks a 0)" "stack_pointer_ok (tasks a 0) (t_sp (tasks a 0))"
    by (rule waiting_run)
  let ?b = "a\<lparr>ipsr := 15\<rparr>"
  have r1: "runs_to s (?b, ?calls, {0x500}, [Created 0x500])"
    by (rule run_steps [OF a(2) queue_run.environment [OF environment_step.interrupt]]) (simp add: spared_def)
  have apart: "item_apart 0x500 0x700 ?b" by (rule item_apart_queue [OF refl]) (simp_all add: a(3) new_queue_def)
  obtain r e where p: "JRT_QueueSendFromISR 0x500 0x700 ?b = (r, e)" by fastforce
  let ?x = "read_item (mem8 ?b) 0x700 (q_item_size (queues ?b 0x500))"
  have ready: "queue_send_ready (queues ?b 0x500) 0" and ring: "ring_ok (queues ?b 0x500)"
    by (simp_all add: a(3) queue_send_ready_def ring_ok_def ring_slot_def new_queue_def)
  let ?c = "(cs_enter ?b)\<lparr>g_isr_queue_send_attempted := g_isr_queue_send_attempted a + 1\<rparr>"
  obtain x y where e: "e = arch_request_switch (arch_critical_exit (primask ?b) (wake_receiver 0x500
      ((queue_copy_in 0x500 0x700 0 ?c)\<lparr>g_isr_queue_send_accepted := x, g_isr_queue_count_high_water := y\<rparr>)))"
    using send_from_isr_room [OF ring apart _ ready] p by auto
  have "r = 1" using send_from_isr_room [OF ring apart _ ready] p by auto
  then have r2: "runs_to s (e, ?calls, {0x500}, [Created 0x500, Sent 0x500 ?x])"
    using run_steps [OF r1 queue_run.send_isr [OF _ apart p]] by (simp add: sent_event_def)
  have kw: "kernel_waiters 0x500 TASK_WAIT_QUEUE_RECEIVE ?c = {0}" using a(4) by (simp add: kernel_waiters_def)
  have best: "best_waiter 0x500 TASK_WAIT_QUEUE_RECEIVE ?c = 0"
    using best_waiter_in [of "0x500" TASK_WAIT_QUEUE_RECEIVE ?c] by (simp add: kw)
  have te: "tasks e = (tasks a)(0 := awake 1 (tasks a 0))"
  proof -
    have "tasks e = woken_tasks 0x500 TASK_WAIT_QUEUE_RECEIVE ?c"
      unfolding e by (simp add: wake_receiver_fields) (rule woken_tasks_cong; simp add: copy_same)
    then show ?thesis by (simp add: woken_tasks_def kw best)
  qed
  have q: "basis e = basis a" using quiet_send_from_isr [of ?b "0x500" "0x700"] p by (simp add: quiet_def)
  note f = basis_fields [OF q]
  have storage: "q_storage (queues e 0x500) = 0x600" "q_capacity (queues e 0x500) = 2" "q_item_size (queues e 0x500) = 4"
    by (simp_all add: e wake_receiver_fields queue_copy_in_def set_queue_def Let_def a(3) new_queue_def)
  show thesis by (rule that [OF a(1) r2 te]) (simp_all add: storage f a(5-13))
qed

lemma promised_run:
  obtains s t x where "initialised s" "runs_to s (t, (\<lambda>_. None)(0 := Some (0x500, TASK_WAIT_QUEUE_RECEIVE)), {0x500}, [Created 0x500, Sent 0x500 x])"
    "app_thread t" "current_task t = 0" "t_wait_result (tasks t 0) = 1" "buffer_apart {0x500} 0x500 0x700 t"
proof -
  let ?calls = "(\<lambda>_. None)(0 := Some (0x500, TASK_WAIT_QUEUE_RECEIVE)) :: calls"
  obtain s e m x where a: "initialised s" "runs_to s (e, ?calls, {0x500}, [Created 0x500, Sent 0x500 x])"
    "tasks e = m(0 := awake 1 (m 0))" "current_task e = 0" "g_current_task_index e = 0" "task_count e = 4"
    "t_state (m 1) = JRT_TASK_STATE_READY" "t_state (m 2) = JRT_TASK_STATE_BLOCKED"
    "t_state (m 3) = JRT_TASK_STATE_READY" "t_priority (m 1) < t_priority (m 0)"
    "t_priority (m 3) < t_priority (m 0)" "stack_pointer_ok (m 0) (t_sp (m 0))"
    "q_storage (queues e 0x500) = 0x600" "q_capacity (queues e 0x500) = 2" "q_item_size (queues e 0x500) = 4"
    by (rule woken_run)
  have "run_ok (e, ?calls, {0x500}, [Created 0x500, Sent 0x500 x])" by (rule runs_to_ok [OF a(1,2)])
  then have kok: "kernel_ok e" by (simp add: run_ok_def)
  then have inv: "scheduler_inv e" "candidates e \<noteq> {}" using idle_candidate by (simp_all add: kernel_ok_def)
  have cand: "candidates e = {0, 1, 3}" by (auto simp: candidates_def a(3-9) below_four)
  have first: "x = 0" if "x \<in> best_candidates e" for x
  proof -
    have "x \<in> {0, 1, 3}" "t_priority (tasks e 0) \<le> t_priority (tasks e x)" using that by (simp_all add: best_candidates_def cand)
    then show ?thesis using a(10,11) by (auto simp: a(3))
  qed
  have sp: "stack_pointer_ok (tasks e (current_task e)) (t_sp (m 0))"
    using a(12) by (simp add: a(3,4) stack_pointer_ok_def awake_def)
  from pendsv_switch_steps [OF inv sp] obtain v mx h i ts where
    v: "pendsv_switch (t_sp (m 0)) e = Inr (t_sp (ts i), v)" "i \<in> best_candidates e"
      "tasks v = ts(i := running (ts i))" "current_task v = i" "g_current_task_index v = i" "task_count v = task_count e"
      "ts = (tasks e)(current_task e := switched_out (t_sp (m 0)) mx h (tasks e (current_task e)))"
    by blast
  have i: "i = 0" by (rule first [OF v(2)])
  have qv: "queues v = queues e" "mem8 v = mem8 e" using pendsv_switch_still [OF v(1)] by (simp_all add: still_def)
  let ?w = "v\<lparr>ipsr := 0\<rparr>"
  have r3: "runs_to s (?w, ?calls, {0x500}, [Created 0x500, Sent 0x500 x])"
    by (rule run_steps [OF run_steps [OF a(2) queue_run.environment [OF environment_step.switch [OF v(1)]]]
          queue_run.environment [OF environment_step.interrupt]]) (simp_all add: spared_def qv)
  show thesis
  proof (rule that [OF a(1) r3])
    show "app_thread ?w" using a(6) by (simp add: app_thread_def thread_context_def idle_index_def v(3-6) i)
    show "t_wait_result (tasks ?w 0) = 1" by (simp add: v(3,7) i a(3,4) running_def switched_out_def)
    show "buffer_apart {0x500} 0x500 0x700 ?w" by (rule buffer_apart_queue [OF refl]) (simp_all add: qv a(13-15))
  qed (simp add: v i)
qed

theorem reservations_are_promises_witness:
  "\<exists>s t calls made es. initialised s \<and> queue_run\<^sup>*\<^sup>* (s, (\<lambda>_. None), {}, []) (t, calls, made, es) \<and> 0x500 \<in> made
     \<and> 0 \<in> promised 0x500 TASK_WAIT_QUEUE_RECEIVE calls t \<and> q_receive_reservations (queues t 0x500) \<noteq> 0"
proof -
  let ?calls = "(\<lambda>_. None)(0 := Some (0x500, TASK_WAIT_QUEUE_RECEIVE)) :: calls"
  obtain s t x where r: "initialised s" "runs_to s (t, ?calls, {0x500}, [Created 0x500, Sent 0x500 x])" "app_thread t" "current_task t = 0" "t_wait_result (tasks t 0) = 1"
    using promised_run by metis
  have "t_state (tasks t 0) = JRT_TASK_STATE_RUNNING" "0 < task_count t"
    using running_thread [OF app_threadD(1) [OF r(3)]] current_below [OF r(3)] r(4) by simp_all
  then have mem: "0 \<in> promised 0x500 TASK_WAIT_QUEUE_RECEIVE ?calls t" using r(5) by (simp add: promised_def)
  then have "card (promised 0x500 TASK_WAIT_QUEUE_RECEIVE ?calls t) \<noteq> 0" by (auto simp: card_eq_0_iff)
  then have "q_receive_reservations (queues t 0x500) \<noteq> 0"
    using reservations_are_promises [OF r(1,2), of "0x500"] by auto
  with r(1,2) mem show ?thesis by blast
qed

theorem promise_is_kept_witness:
  "\<exists>s t u calls made es. initialised s \<and> queue_run\<^sup>*\<^sup>* (s, (\<lambda>_. None), {}, []) (t, calls, made, es)
     \<and> calls (current_task t) = Some (0x500, TASK_WAIT_QUEUE_RECEIVE)
     \<and> queue_receive_resume 0x500 0x700 1 (make_deadline 0 JRT_WAIT_FOREVER) t = (Some 1, u)"
proof -
  let ?calls = "(\<lambda>_. None)(0 := Some (0x500, TASK_WAIT_QUEUE_RECEIVE)) :: calls"
  obtain s t x where r: "initialised s" "runs_to s (t, ?calls, {0x500}, [Created 0x500, Sent 0x500 x])" "app_thread t" "current_task t = 0" "t_wait_result (tasks t 0) = 1"
    "buffer_apart {0x500} 0x500 0x700 t"
    using promised_run by metis
  have c: "?calls (current_task t) = Some (0x500, TASK_WAIT_QUEUE_RECEIVE)" by (simp add: r(4))
  obtain u where "queue_receive_resume 0x500 0x700 1 (make_deadline 0 JRT_WAIT_FOREVER) t = (Some 1, u)"
    using promise_is_kept [OF r(1-3) c buffer_item_apart [OF r(6)], of 1 "make_deadline 0 JRT_WAIT_FOREVER"] r(4,5) by auto
  with r(1,2) c show ?thesis by blast
qed

end
