(* ===== verification/JRT_Delivery.thy ===== *)
theory JRT_Delivery
  imports JRT_Messages
begin

text \<open>
  End-to-end delivery. The history of a run records every successful send and receive with the
  bytes it moved; in every reachable state the items sent to a queue are the items received from it
  followed by what the ring holds, whatever interrupts, blocking, timeouts and context switches came
  in between.
\<close>

section \<open>Histories\<close>

definition sent_items :: "addr \<Rightarrow> message list \<Rightarrow> item list" where
  "sent_items ob es = fold (\<lambda>e xs. case e of Created o' \<Rightarrow> if o' = ob then [] else xs
     | Sent o' x \<Rightarrow> if o' = ob then xs @ [x] else xs | Received o' x \<Rightarrow> xs) es []"

definition received_items :: "addr \<Rightarrow> message list \<Rightarrow> item list" where
  "received_items ob es = fold (\<lambda>e xs. case e of Created o' \<Rightarrow> if o' = ob then [] else xs
     | Sent o' x \<Rightarrow> xs | Received o' x \<Rightarrow> if o' = ob then xs @ [x] else xs) es []"

lemma history_simps [simp]:
  "sent_items ob [] = []" "received_items ob [] = []"
  "sent_items ob (es @ [Created o']) = (if o' = ob then [] else sent_items ob es)"
  "sent_items ob (es @ [Sent o' x]) = (if o' = ob then sent_items ob es @ [x] else sent_items ob es)"
  "sent_items ob (es @ [Received o' x]) = sent_items ob es"
  "received_items ob (es @ [Created o']) = (if o' = ob then [] else received_items ob es)"
  "received_items ob (es @ [Sent o' x]) = received_items ob es"
  "received_items ob (es @ [Received o' x]) = (if o' = ob then received_items ob es @ [x] else received_items ob es)"
  by (simp_all add: sent_items_def received_items_def)

text \<open>What was sent is what was received and what is stored; queues share no memory.\<close>

definition in_order :: "kstate \<Rightarrow> addr set \<Rightarrow> message list \<Rightarrow> bool" where
  "in_order s made es \<longleftrightarrow>
     (\<forall>ob \<in> made. sent_items ob es = received_items ob es @ ring_contents (ring_of ob s))
   \<and> (\<forall>a \<in> made. \<forall>b \<in> made. a \<noteq> b \<longrightarrow> storage_of (queues s a) \<inter> storage_of (queues s b) = {})"

lemma in_order_items:
  "in_order s made es \<Longrightarrow> ob \<in> made \<Longrightarrow> sent_items ob es = received_items ob es @ ring_contents (ring_of ob s)"
  by (simp add: in_order_def)

lemma in_order_apart:
  "in_order s made es \<Longrightarrow> a \<in> made \<Longrightarrow> b \<in> made \<Longrightarrow> a \<noteq> b \<Longrightarrow> p \<in> storage_of (queues s a) \<Longrightarrow> p \<notin> storage_of (queues s b)"
  unfolding in_order_def by blast

text \<open>The contents of a ring depend on the bytes of its storage only.\<close>

lemma ring_contents_memory:
  assumes ok: "ring_ok q" and same: "\<forall>a \<in> storage_of q. m' a = m a"
  shows "ring_contents (q, m') = ring_contents (q, m)"
proof -
  have "read_item m' (slot_addr q k) (q_item_size q) = read_item m (slot_addr q k) (q_item_size q)"
    if "k < q_capacity q" for k
    using same that by (auto simp: read_item_def fun_eq_iff storage_of_def)
  moreover have "ring_slot q j < q_capacity q" for j using ok by (simp add: ring_ok_def ring_slot_below)
  ultimately show ?thesis by (simp add: ring_contents_def)
qed

lemma made_ring_ok: "queues_ok s calls made \<Longrightarrow> ob \<in> made \<Longrightarrow> ring_ok (queues s ob)"
  using queues_ok_made(1) [of s calls made ob] by (simp add: queue_inv_def Let_def)

text \<open>A step that changes at most the queue \<open>ob\<close> keeps the order if \<open>ob\<close> is right afterwards.\<close>

lemma in_order_step:
  assumes ord: "in_order s made es" and ok: "queues_ok s calls made"
    and q: "\<And>o'. o' \<noteq> ob \<Longrightarrow> queues t o' = queues s o'" and same: "ob \<in> made \<Longrightarrow> storage_of (queues t ob) = storage_of (queues s ob)"
    and m: "\<And>o' a. o' \<in> made \<Longrightarrow> o' \<noteq> ob \<Longrightarrow> a \<in> storage_of (queues s o') \<Longrightarrow> mem8 t a = mem8 s a"
    and log: "\<And>o'. o' \<noteq> ob \<Longrightarrow> sent_items o' es' = sent_items o' es \<and> received_items o' es' = received_items o' es"
    and here: "ob \<in> made \<Longrightarrow> sent_items ob es' = received_items ob es' @ ring_contents (ring_of ob t)"
  shows "in_order t made es'"
proof -
  have "sent_items o' es' = received_items o' es' @ ring_contents (ring_of o' t)" if o': "o' \<in> made" for o'
  proof (cases "o' = ob")
    case False
    have "ring_contents (ring_of o' t) = ring_contents (ring_of o' s)"
      using ring_contents_memory [OF made_ring_ok [OF ok o']] m [OF o' False] q [OF False] by (simp add: ring_of_def)
    then show ?thesis using in_order_items [OF ord o'] log [OF False] by simp
  qed (use here o' in simp)
  moreover have "storage_of (queues t a) = storage_of (queues s a)" if "a \<in> made" for a
    using q [of a] same that by (cases "a = ob") simp_all
  ultimately show ?thesis using ord by (simp add: in_order_def)
qed

lemma in_order_same:
  assumes "in_order s made es" and "queues_ok s calls made" and "queues t = queues s" and "spared made s t"
  shows "in_order t made es"
proof -
  have m: "\<forall>a \<in> storage_of (queues s o'). mem8 t a = mem8 s a" if "o' \<in> made" for o'
    using assms(4) that by (simp add: spared_def)
  show ?thesis
  proof (rule in_order_step [OF assms(1,2), of NULL])
    show "sent_items NULL es = received_items NULL es @ ring_contents (ring_of NULL t)" if "NULL \<in> made"
      using queues_ok_made(3) [OF assms(2) that] by simp
  qed (use m assms(3) in auto)
qed

section \<open>Queue operations\<close>

lemma copy_in_memory:
  assumes "ring_ok (queues s ob)" and "item_apart ob item s" and "a \<notin> storage_of (queues s ob)"
  shows "mem8 (queue_copy_in ob item res s) a = mem8 s a"
proof -
  let ?q = "queues s ob"
  have "q_head ?q < q_capacity ?q" using assms(1) ring_slot_below by (auto simp: ring_ok_def)
  then have "\<not> a - slot_addr ?q (q_head ?q) < q_item_size ?q"
    using assms(3) unfolding storage_of_def mem_Collect_eq by (metis add_diff_cancel_left' diff_add_cancel add.commute)
  then show ?thesis
    using assms(1,2) by (simp add: queue_copy_in_ring ring_put_def release_send_def store_bytes_def slot_addr_def)
qed

lemma copy_out_memory:
  assumes "ring_ok (queues s ob)" and "item_apart ob item s" and "\<not> a - item < q_item_size (queues s ob)"
  shows "mem8 (queue_copy_out ob item res s) a = mem8 s a"
  using assms by (simp add: queue_copy_out_ring store_bytes_def)

lemma served_storage:
  "storage_of (queues (wake_receiver ob (queue_copy_in ob item res s)) ob) = storage_of (queues s ob)"
  "storage_of (queues (wake_sender ob (queue_copy_out ob item res s)) ob) = storage_of (queues s ob)"
  by (simp_all add: wake_receiver_fields wake_sender_fields queue_copy_in_def queue_copy_out_def set_queue_def Let_def
      storage_of_def slot_addr_def)

lemma served_item_size:
  "q_item_size (queues (wake_sender ob (queue_copy_out ob item res s)) ob) = q_item_size (queues s ob)"
  by (simp add: wake_sender_fields queue_copy_out_def set_queue_def Let_def)

text \<open>A send and a receive, of a task or of an interrupt handler.\<close>

lemma sent_in_order:
  assumes ord: "in_order s made es" and ok: "queues_ok s calls made" and ob: "ob \<in> made" and apart: "item_apart ob item s"
    and t: "queues t = queues (wake_receiver ob (queue_copy_in ob item res s))" "mem8 t = mem8 (queue_copy_in ob item res s)"
    and new: "ring_contents (ring_of ob t) = ring_contents (ring_of ob s) @ [read_item (mem8 s) item (q_item_size (queues s ob))]"
  shows "in_order t made (es @ sent_event ob item (Some 1) s)"
proof (rule in_order_step [OF ord ok, where ob = ob])
  show "queues t o' = queues s o'" if "o' \<noteq> ob" for o'
    using fun_cong [OF sent_fields(3) [of ob item res s], of o'] that by (simp add: t(1))
  show "mem8 t a = mem8 s a" if "o' \<in> made" "o' \<noteq> ob" "a \<in> storage_of (queues s o')" for o' a
    unfolding t(2) by (rule copy_in_memory [OF made_ring_ok [OF ok ob] apart in_order_apart [OF ord that(1) ob that(2,3)]])
qed (use in_order_items [OF ord ob] in \<open>simp_all add: t(1) served_storage sent_event_def new\<close>)

lemma taken_in_order:
  assumes ord: "in_order s made es" and ok: "queues_ok s calls made" and ob: "ob \<in> made" and apart: "buffer_apart made ob item s"
    and t: "queues t = queues (wake_sender ob (queue_copy_out ob item res s))" "mem8 t = mem8 (queue_copy_out ob item res s)"
    and new: "ring_contents (ring_of ob s) = read_item (mem8 t) item (q_item_size (queues s ob)) # ring_contents (ring_of ob t)"
  shows "in_order t made (es @ received_event ob item (Some 1) t)"
proof (rule in_order_step [OF ord ok, where ob = ob])
  show "queues t o' = queues s o'" if "o' \<noteq> ob" for o'
    using fun_cong [OF taken_fields(3) [of ob item res s], of o'] that by (simp add: t(1))
  show "mem8 t a = mem8 s a" if "o' \<in> made" "o' \<noteq> ob" "a \<in> storage_of (queues s o')" for o' a
    unfolding t(2)
    by (rule copy_out_memory [OF made_ring_ok [OF ok ob] buffer_item_apart [OF apart ob]])
      (use apart that in \<open>simp add: buffer_apart_def\<close>)
qed (use in_order_items [OF ord ob] in \<open>simp_all add: t(1) served_storage served_item_size received_event_def new\<close>)

text \<open>A pass of \<open>JRT_QueueSend\<close> or \<open>JRT_QueueReceive\<close>, the first or one with a reservation.\<close>

lemma pass_in_order:
  assumes ord: "in_order s made es" and ok: "queues_ok s calls made" and ob: "ob \<in> made" and cur: "current_task s < task_count s"
  shows "item_apart ob item s \<Longrightarrow> res \<noteq> 0 \<longrightarrow> q_send_reservations (queues s ob) \<noteq> 0 \<Longrightarrow>
      queue_send_pass ob item timeout d res s = (r, t) \<Longrightarrow> in_order t made (es @ sent_event ob item r s)"
    and "buffer_apart made ob item s \<Longrightarrow> res \<noteq> 0 \<longrightarrow> q_receive_reservations (queues s ob) \<noteq> 0 \<Longrightarrow>
      queue_receive_pass ob item timeout d res s = (r, t) \<Longrightarrow> in_order t made (es @ received_event ob item r t)"
proof -
  note inv = queues_ok_made(1) [OF ok ob]
  note same = in_order_same [OF ord ok]
  have enter: "in_order (cs_enter s) made es" "queues_ok (cs_enter s) calls made"
    using ord same_keeps_queues [OF ok, of "cs_enter s"] by (simp_all add: in_order_def ring_of_def)
  show "in_order t made (es @ sent_event ob item r s)" if apart: "item_apart ob item s"
    and res: "res \<noteq> 0 \<longrightarrow> q_send_reservations (queues s ob) \<noteq> 0" and pass: "queue_send_pass ob item timeout d res s = (r, t)"
    using inv apart cur res pass
  proof (cases rule: send_pass_cases)
    case sent
    then have "in_order t made (es @ sent_event ob item (Some 1) (cs_enter s))"
      using apart by (intro sent_in_order [OF enter ob, where res = res]) (simp_all add: wake_receiver_fields)
    then show ?thesis using sent(2) by (simp add: sent_event_def)
  qed (use same [of t] in \<open>simp_all add: spared_def sent_event_def\<close>)
  show "in_order t made (es @ received_event ob item r t)" if apart: "buffer_apart made ob item s"
    and res: "res \<noteq> 0 \<longrightarrow> q_receive_reservations (queues s ob) \<noteq> 0" and pass: "queue_receive_pass ob item timeout d res s = (r, t)"
    using inv buffer_item_apart [OF apart ob] cur res pass
  proof (cases rule: receive_pass_cases)
    case taken
    then have "in_order t made (es @ received_event ob item (Some 1) t)"
      using apart by (intro taken_in_order [OF enter ob, where res = res]) (simp_all add: wake_sender_fields buffer_apart_def)
    then show ?thesis using taken(2) by simp
  qed (use same [of t] in \<open>simp_all add: spared_def received_event_def\<close>)
qed

section \<open>Every step of a run\<close>

lemma resume_in_order:
  assumes ord: "in_order s made es" and ok: "queues_ok s calls made" and app: "app_thread s"
    and call: "calls (current_task s) = Some (ob, k)"
  shows "k = TASK_WAIT_QUEUE_SEND \<Longrightarrow> item_apart ob item s \<Longrightarrow> queue_send_resume ob item timeout d s = (r, t) \<Longrightarrow>
      in_order t made (es @ sent_event ob item r s)"
    and "k = TASK_WAIT_QUEUE_RECEIVE \<Longrightarrow> buffer_apart made ob item s \<Longrightarrow> queue_receive_resume ob item timeout d s = (r, t) \<Longrightarrow>
      in_order t made (es @ received_event ob item r t)"
proof -
  note c = queues_ok_call [OF ok call]
  have res: "reservations k (queues s ob) \<noteq> 0" if "task_block_resume s \<noteq> 0"
  proof -
    have "current_task s \<in> promised ob k calls s"
      using that c call running_thread [OF app_threadD(1) [OF app]] by (simp add: promised_def block_resume_zero)
    then have "card (promised ob k calls s) \<noteq> 0" by (auto simp: card_eq_0_iff)
    then show ?thesis using queues_ok_made(2) [OF ok, of ob k] c by (metis unat_0)
  qed
  note pass = pass_in_order [OF ord ok _ current_below [OF app], where res = 1]
  show "in_order t made (es @ sent_event ob item r s)" if "k = TASK_WAIT_QUEUE_SEND" "item_apart ob item s"
    and r: "queue_send_resume ob item timeout d s = (r, t)"
    using pass(1) [OF _ that(2), of timeout d r t] res c r that(1) ord
    by (auto simp: queue_send_resume_def reservations_def sent_event_def split: if_splits)
  show "in_order t made (es @ received_event ob item r t)" if "k = TASK_WAIT_QUEUE_RECEIVE" "buffer_apart made ob item s"
    and r: "queue_receive_resume ob item timeout d s = (r, t)"
    using pass(2) [OF _ that(2), of timeout d r t] res c r that(1) ord
    by (auto simp: queue_receive_resume_def reservations_def received_event_def split: if_splits)
qed

lemma send_isr_refused:
  assumes "ipsr s = 0 \<or> \<not> queue_send_ready (queues s ob) 0" and "JRT_QueueSendFromISR ob item s = (r, t)"
  shows "r = 0 \<and> same_queues t s"
proof (cases "ipsr s = 0")
  case True
  then show ?thesis using assms(2) by (auto simp: JRT_QueueSendFromISR_def arch_in_isr_def count_context_misuse_def)
next
  case False
  then show ?thesis using assms send_from_isr_full [of s ob item] by auto
qed

lemma send_isr_in_order:
  assumes ord: "in_order s made es" and ok: "queues_ok s calls made" and ob: "ob \<in> made" and apart: "item_apart ob item s"
    and send: "JRT_QueueSendFromISR ob item s = (r, t)"
  shows "in_order t made (es @ sent_event ob item (Some r) s)"
proof (cases "ipsr s = 0 \<or> \<not> queue_send_ready (queues s ob) 0")
  case True
  from send_isr_refused [OF this send] have "r = 0" "same_queues t s" by simp_all
  then show ?thesis using in_order_same [OF ord ok] by (simp add: spared_def sent_event_def)
next
  case False
  let ?e = "(cs_enter s)\<lparr>g_isr_queue_send_attempted := g_isr_queue_send_attempted s + 1\<rparr>"
  let ?w = "wake_receiver ob (queue_copy_in ob item 0 ?e)"
  note inv = queues_ok_made(1) [OF ok ob]
  have r: "r = 1" and t: "queues t = queues ?w" "mem8 t = mem8 (queue_copy_in ob item 0 ?e)"
    using send_from_isr_room [OF made_ring_ok [OF ok ob] apart, of] False send
    by (auto simp: wake_receiver_fields kernel_waiters_def)
  have e: "in_order ?e made es" "queues_ok ?e calls made" "item_apart ob item ?e" "queue_inv ob ?e"
    using ord apart same_keeps_queues [OF ok, of ?e] inv queue_inv_cong [of ?e ob s]
    by (simp_all add: in_order_def ring_of_def item_apart_def)
  have "ring_contents (ring_of ob ?w) = ring_contents (ring_of ob s) @ [read_item (mem8 s) item (q_item_size (queues s ob))]"
    using send_step(2) [OF e(4,3), of 0] False by (simp add: ring_of_def)
  then have "in_order t made (es @ sent_event ob item (Some 1) ?e)"
    by (intro sent_in_order [OF e(1,2) ob e(3) t]) (simp add: ring_of_def t wake_receiver_fields)
  then show ?thesis by (simp add: r sent_event_def)
qed

lemma created_in_order:
  assumes ord: "in_order s made es" and ok: "queues_ok s calls made"
    and own: "\<And>o'. o' \<in> made \<Longrightarrow> o' \<noteq> ob \<Longrightarrow> storage_of (new_queue storage capacity item_size) \<inter> storage_of (queues s o') = {}"
  shows "in_order (JRT_QueueCreateStatic ob storage capacity item_size s) (insert ob made) (es @ [Created ob])"
proof -
  let ?t = "JRT_QueueCreateStatic ob storage capacity item_size s"
  have t: "queues ?t = (queues s)(ob := new_queue storage capacity item_size)" "mem8 ?t = mem8 s"
    by (simp_all add: JRT_QueueCreateStatic_def arch_critical_enter_eq new_queue_def Let_def)
  have "ring_contents (new_queue storage capacity item_size, m) = []" for m
    by (simp add: ring_contents_def new_queue_def)
  then have "sent_items o' (es @ [Created ob]) = received_items o' (es @ [Created ob]) @ ring_contents (ring_of o' ?t)"
    if "o' \<in> insert ob made" for o'
    using in_order_items [OF ord, of o'] that by (auto simp: ring_of_def t)
  moreover have "storage_of (queues ?t a) \<inter> storage_of (queues ?t b) = {}" if "a \<in> insert ob made" "b \<in> insert ob made" "a \<noteq> b" for a b
    using own [of a] own [of b] in_order_apart [OF ord, of a b] that by (auto simp: t)
  ultimately show ?thesis by (simp add: in_order_def)
qed

lemma queue_run_in_order:
  assumes "queue_run (s, calls, made, es) (t, calls', made', es')" and kok: "kernel_ok s" and ok: "queues_ok s calls made"
    and ord: "in_order s made es"
  shows "in_order t made' es'"
  using assms(1)
proof cases
  case environment
  then show ?thesis using in_order_same [OF ord ok] environment_queues [OF environment(4) kok] by simp
next
  case thread
  then show ?thesis using in_order_same [OF ord ok] thread_queues [OF thread(6) kok thread(4)] by (simp add: spared_def)
next
  case (create ob storage capacity item_size)
  then show ?thesis using created_in_order [OF ord ok create(8)] by simp
next
  case (send ob item timeout d r)
  then show ?thesis using pass_in_order(1) [OF ord ok send(6) current_below [OF send(4)] send(7) _ send(8)] by simp
next
  case (receive ob item timeout d r)
  then show ?thesis using pass_in_order(2) [OF ord ok receive(6) current_below [OF receive(4)] receive(7) _ receive(8)] by simp
next
  case (send_resume ob item timeout d r)
  then show ?thesis using resume_in_order(1) [OF ord ok send_resume(4,5) refl send_resume(6,7)] by simp
next
  case (receive_resume ob item timeout d r)
  then show ?thesis using resume_in_order(2) [OF ord ok receive_resume(4,5) refl receive_resume(6,7)] by simp
next
  case (send_isr ob item r)
  then show ?thesis using send_isr_in_order [OF ord ok send_isr(4-6)] by simp
qed

definition run_in_order :: "run_state \<Rightarrow> bool" where
  "run_in_order x \<longleftrightarrow> (case x of (s, calls, made, es) \<Rightarrow> run_ok x \<and> in_order s made es)"

interpretation deliveries: invariant_system queue_run run_in_order
proof
  fix x y assume ord: "run_in_order x" and step: "queue_run x y"
  obtain s calls made es t calls' made' es' where xy: "x = (s, calls, made, es)" "y = (t, calls', made', es')"
    by (metis prod_cases4)
  have "run_ok y" using queue_runs.step_inv [OF _ step] ord by (simp add: run_in_order_def xy)
  moreover have "in_order t made' es'"
    using queue_run_in_order [OF step [unfolded xy]] ord by (simp add: run_in_order_def run_ok_def xy)
  ultimately show "run_in_order y" by (simp add: run_in_order_def xy)
qed

section \<open>Delivery in every reachable state\<close>

text \<open>C6: every queue delivers: in every reachable state the items that successful sends put into a queue, by tasks or by
  interrupt handlers, are exactly the items that successful receives took from it, in the same order and byte for
  byte, followed by the at most \<open>capacity\<close> items the ring holds. Nothing is lost, duplicated, reordered or altered,
  however calls on this and other queues, ticks, timeouts and switches interleave.\<close>

theorem messages_in_order:
  assumes "initialised s" and "queue_run\<^sup>*\<^sup>* (s, (\<lambda>_. None), {}, []) (t, calls, made, es)" and "ob \<in> made"
  shows "sent_items ob es = received_items ob es @ ring_contents (ring_of ob t)
    \<and> length (sent_items ob es) = length (received_items ob es) + unat (q_count (queues t ob))
    \<and> q_count (queues t ob) \<le> q_capacity (queues t ob)"
proof -
  have "run_in_order (s, (\<lambda>_. None), {}, [])" using run_start_ok [OF assms(1)] by (simp add: run_in_order_def in_order_def)
  then have "run_in_order (t, calls, made, es)" using deliveries.run_inv [OF assms(2)] by blast
  then have "in_order t made es" "queues_ok t calls made" by (simp_all add: run_in_order_def run_ok_def)
  then show ?thesis using in_order_items [of t made es ob] made_ring_ok [of t calls made ob] assms(3)
    by (simp add: ring_of_def ring_ok_def)
qed

text \<open>The run of \<open>JRT_Messages\<close>: an interrupt handler has sent one item, and task 0 has not collected it yet.\<close>

theorem messages_in_order_witness:
  "\<exists>s t calls made es x. initialised s \<and> queue_run\<^sup>*\<^sup>* (s, (\<lambda>_. None), {}, []) (t, calls, made, es)
     \<and> sent_items 0x500 es = [x] \<and> received_items 0x500 es = [] \<and> ring_contents (ring_of 0x500 t) = [x]"
proof -
  let ?calls = "(\<lambda>_. None)(0 := Some (0x500, TASK_WAIT_QUEUE_RECEIVE)) :: calls"
  obtain s t x where r: "initialised s"
    "queue_run\<^sup>*\<^sup>* (s, (\<lambda>_. None), {}, []) (t, ?calls, {0x500}, [Created 0x500, Sent 0x500 x])"
    using promised_run by metis
  have h: "sent_items 0x500 [Created 0x500, Sent 0x500 x] = [x]" "received_items 0x500 [Created 0x500, Sent 0x500 x] = []"
    by (simp_all add: sent_items_def received_items_def)
  have "ring_contents (ring_of 0x500 t) = [x]" using messages_in_order [OF r, of "0x500"] by (simp add: h)
  with r h show ?thesis by blast
qed

end
