(* ===== verification/JRT_Application.thy ===== *)
theory JRT_Application
  imports JRT_Svc JRT_Init
begin

text \<open>
  What runs on the kernel: the unprivileged call stubs (\<open>arch/cortex_m/svc_stubs_cm7.c\<close>) with the entries of
  \<open>SVC_Handler\<close> and of the fault handlers, the bodies of the kernel's own tasks (\<open>kernel/task.c\<close>), the macros that build task
  definitions (\<open>kernel/kernel.h\<close>) and the example (\<open>examples/simple.c\<close>) up to the start of the kernel.
\<close>

section \<open>The stubs\<close>

text \<open>
  \<open>SVC_Handler\<close> takes the frame from the stack \<open>EXC_RETURN\<close> names; only service 0 from the main
  stack starts the first task (\<open>Inl\<close>), everything else goes to \<open>svc_dispatch\<close> (\<open>Inr\<close>).
\<close>

definition SVC_Handler :: "u32 \<Rightarrow> addr \<Rightarrow> addr \<Rightarrow> context_regs \<Rightarrow> kstate \<Rightarrow> (context_regs \<times> u32 \<times> kstate) + kstate" where
  "SVC_Handler lr msp psp regs s =
    (let r0 = (if lr AND 4 = 0 then msp else psp);
         r2 = svc_number r0 s
     in if r2 \<noteq> 0 then Inr (svc_dispatch r0 lr s)
        else if lr AND 4 = 0 then Inl (start_first_task regs s)
        else Inr (svc_dispatch r0 lr s))"

text \<open>
  The exception entry of an \<open>svc number\<close> executed by a task: the processor stacks \<open>r0\<close> and the
  return address \<open>pc\<close> in the frame; the instruction itself is in memory before \<open>pc\<close>.
\<close>

definition svc_entry :: "u8 \<Rightarrow> u32 \<Rightarrow> addr \<Rightarrow> addr \<Rightarrow> kstate \<Rightarrow> kstate" where
  "svc_entry number r0 frame pc s =
     s\<lparr>mem32 := (mem32 s)(frame := r0, frame + 24 := pc), mem8 := (mem8 s)(pc - 2 := number)\<rparr>"

text \<open>The call and the \<open>r0\<close> it returns; \<open>frame\<close>, \<open>pc\<close> and \<open>lr\<close> are what the processor chose.\<close>

definition svc_call :: "u8 \<Rightarrow> u32 \<Rightarrow> addr \<Rightarrow> addr \<Rightarrow> u32 \<Rightarrow> kstate \<Rightarrow> u32 \<times> kstate" where
  "svc_call number r0 frame pc lr s =
    (let s = svc_dispatch frame lr (svc_entry number r0 frame pc s) in (mem32 s frame, s))"

definition JRT_TaskYield :: "u32 \<Rightarrow> addr \<Rightarrow> addr \<Rightarrow> u32 \<Rightarrow> kstate \<Rightarrow> kstate" where
  "JRT_TaskYield r0 frame pc lr s = snd (svc_call 1 r0 frame pc lr s)"

definition svc_TaskDelay :: "u32 \<Rightarrow> addr \<Rightarrow> addr \<Rightarrow> u32 \<Rightarrow> kstate \<Rightarrow> kstate" where
  "svc_TaskDelay ticks frame pc lr s = snd (svc_call 2 ticks frame pc lr s)"

definition JRT_BoardLedToggle :: "u32 \<Rightarrow> addr \<Rightarrow> addr \<Rightarrow> u32 \<Rightarrow> kstate \<Rightarrow> kstate" where
  "JRT_BoardLedToggle r0 frame pc lr s = snd (svc_call 3 r0 frame pc lr s)"

definition JRT_TaskSuspend :: "u32 \<Rightarrow> addr \<Rightarrow> addr \<Rightarrow> u32 \<Rightarrow> kstate \<Rightarrow> u32 \<times> kstate" where
  "JRT_TaskSuspend task_id frame pc lr s = svc_call 4 task_id frame pc lr s"

definition JRT_TaskResume :: "u32 \<Rightarrow> addr \<Rightarrow> addr \<Rightarrow> u32 \<Rightarrow> kstate \<Rightarrow> u32 \<times> kstate" where
  "JRT_TaskResume task_id frame pc lr s = svc_call 5 task_id frame pc lr s"

lemma svc_entry_simps [simp]:
  "svc_number frame (svc_entry n r0 frame pc s) = n" "mem32 (svc_entry n r0 frame pc s) frame = r0"
  "tasks (svc_entry n r0 frame pc s) = tasks s" "primask (svc_entry n r0 frame pc s) = primask s"
  by (simp_all add: svc_entry_def svc_number_def)

lemma suspend_entry:
  "fst (kernel_task_suspend i (svc_entry n r0 frame pc s)) = fst (kernel_task_suspend i s)"
  "tasks (snd (kernel_task_suspend i (svc_entry n r0 frame pc s))) = tasks (snd (kernel_task_suspend i s))"
  "fst (kernel_task_resume i (svc_entry n r0 frame pc s)) = fst (kernel_task_resume i s)"
  "tasks (snd (kernel_task_resume i (svc_entry n r0 frame pc s))) = tasks (snd (kernel_task_resume i s))"
  by (auto simp: suspend_eq resume_eq svc_entry_def Let_def set_task_def complete_frame release_frame
      arch_critical_exit_eq cs_enter_def)

lemma svc_call_eqs:
  assumes "lr AND 8 \<noteq> 0" and "lr AND 4 \<noteq> 0"
  shows "svc_dispatch frame lr (svc_entry 0 r0 frame pc s) =
      (svc_entry 0 r0 frame pc s)\<lparr>g_svc_invalid_service := g_svc_invalid_service s + 1\<rparr>"
    and "tasks (snd (svc_call 1 r0 frame pc lr s)) = tasks s"
    and "snd (svc_call 2 r0 frame pc lr s) = request_switch (sleep_current r0 (svc_entry 2 r0 frame pc s))"
    and "tasks (snd (svc_call 3 r0 frame pc lr s)) = tasks s"
    and "svc_call 4 r0 frame pc lr s = (let (status, t) = kernel_task_suspend r0 (svc_entry 4 r0 frame pc s)
      in (status_code status, request_switch (set_r0 frame (status_code status) t)))"
    and "svc_call 5 r0 frame pc lr s = (let (status, t) = kernel_task_resume r0 (svc_entry 5 r0 frame pc s)
      in (status_code status, request_switch (set_r0 frame (status_code status) t)))"
proof -
  have b: "lr AND push_bit 3 1 \<noteq> 0" "lr AND push_bit 2 1 \<noteq> 0" using assms by simp_all
  have z: "g_svc_invalid_service (svc_entry 0 r0 frame pc s) = g_svc_invalid_service s" by (simp add: svc_entry_def)
  show "svc_dispatch frame lr (svc_entry 0 r0 frame pc s) =
      (svc_entry 0 r0 frame pc s)\<lparr>g_svc_invalid_service := g_svc_invalid_service s + 1\<rparr>"
    using b by (simp add: svc_dispatch_def z)
  note call = svc_call_def svc_dispatch_def Let_def
  show "tasks (snd (svc_call 1 r0 frame pc lr s)) = tasks s" "tasks (snd (svc_call 3 r0 frame pc lr s)) = tasks s"
    using b by (simp_all add: call request_switch_def board_led_toggle_def write_reg_def)
  show "snd (svc_call 2 r0 frame pc lr s) = request_switch (sleep_current r0 (svc_entry 2 r0 frame pc s))"
    using b by (simp add: call)
  show "svc_call 4 r0 frame pc lr s = (let (status, t) = kernel_task_suspend r0 (svc_entry 4 r0 frame pc s)
      in (status_code status, request_switch (set_r0 frame (status_code status) t)))"
    using b by (simp add: call case_prod_beta) (simp add: set_r0_def request_switch_def)
  show "svc_call 5 r0 frame pc lr s = (let (status, t) = kernel_task_resume r0 (svc_entry 5 r0 frame pc s)
      in (status_code status, request_switch (set_r0 frame (status_code status) t)))"
    using b by (simp add: call case_prod_beta) (simp add: set_r0_def request_switch_def)
qed



section \<open>The start of the first task\<close>

text \<open>
  \<open>arch_start_first_task\<close> clears CONTROL, so that \<open>svc 0\<close> is taken from the main stack with a basic
  frame (\<open>EXC_RETURN\<close> \<open>0xFFFFFFF9\<close>), and enables interrupts; \<open>msp\<close> is where the frame is put.
\<close>

definition arch_start_first_task :: "addr \<Rightarrow> addr \<Rightarrow> context_regs \<Rightarrow> kstate \<Rightarrow> (context_regs \<times> u32 \<times> kstate) + kstate" where
  "arch_start_first_task msp pc regs s =
    (let s = s\<lparr>primask := 0\<rparr> in SVC_Handler 0xFFFFFFF9 msp (x_psp regs) regs (svc_entry 0 0 msp pc s))"

lemma load_words_eight: "load_words a 8 m = map (\<lambda>j. m (a + 4 * word_of_nat j)) [0..<8]"
  by (simp add: numeral_nat upt_conv_Cons algebra_simps)

text \<open>C12: the way from configuration to application code. After a successful \<open>JRT_KernelInit\<close>, \<open>JRT_KernelStart\<close> and
  \<open>arch_start_first_task\<close> leave the processor ready to run task 0: it returns to Thread mode on the process stack
  with a basic frame that holds the task's argument in r0, its entry point and the Thumb bit, with r4 to r11 cleared, at
  the privilege its flags ask for, with interrupts enabled and the tick running. The boot frame is put outside the task's.\<close>

theorem boot_enters_first_task:
  assumes "config_checks (cfg s)" and "linked_storage (cfg s)" and "stacks_linked_apart (cfg s) k"
    and "JRT_KernelInit p k s = Inr (JRT_STATUS_OK, t)"
    and "\<And>j. j < 17 \<Longrightarrow> t_sp (tasks t 0) + 4 * word_of_nat j \<notin> {msp, msp + 24}"
  shows "\<exists>u r control v. JRT_KernelStart t = Inr u \<and> arch_start_first_task msp pc regs u = Inl (r, control, v)
    \<and> x_lr r = 0xFFFFFFFD \<and> x_r4_r11 r = replicate 8 0 \<and> x_psp r = t_sp (tasks t 0) + 36
    \<and> control = (if d_flags (k_tasks k 0) AND 1 \<noteq> 0 then 3 else 2)
    \<and> mem32 v (x_psp r) = d_argument (k_tasks k 0) \<and> mem32 v (x_psp r + 24) = d_entry (k_tasks k 0) AND NOT 1
    \<and> mem32 v (x_psp r + 28) = 0x01000000
    \<and> primask v = 0 \<and> kernel_started v = 1 \<and> mmio v SYST_CSR = 7"
proof -
  let ?sp = "t_sp (tasks t 0)"
  obtain T: "0 < task_count t" "current_task t = 0" "tasks t 0 = running (app_task (k_tasks k 0) (tasks s 0))"
  proof (rule init_task_cases [OF assms(1,2,4)])
    assume n: "task_count t = k_task_count k + 2" "unat (k_task_count k) + 3 < 4294967296"
    have "unat (k_task_count k + 2) = unat (k_task_count k) + 2" using n(2) unat_add_small [of "k_task_count k" 2] by simp
    then have "0 < task_count t" by (simp add: n(1) word_less_unat)
    moreover assume "current_task t = 0" "tasks t 0 = running (app_task (k_tasks k 0) (tasks s 0))"
    ultimately show thesis by (rule that)
  qed
  have f: "t_flags (tasks t 0) = d_flags (k_tasks k 0)" "t_argument (tasks t 0) = d_argument (k_tasks k 0)"
    "t_entry (tasks t 0) = d_entry (k_tasks k 0)"
    by (simp_all add: T(3) running_def app_task_def prepared_def)
  have r: "ready_to_start (ld_task_exit_trap (cfg s)) (mem32 t) (tasks t 0)" by (rule init_ready_to_start [OF assms(1-4) T(1)])
  define u where "u = (arch_tick_init t)\<lparr>kernel_started := 1\<rparr>"
  have start: "JRT_KernelStart t = Inr u" using kernel_init_ok(4) [OF assms(1,2,4)] by (simp add: JRT_KernelStart_def u_def Let_def)
  have u: "mem32 u = mem32 t" "tasks u = tasks t" "current_task u = 0" "cfg u = cfg t" "kernel_started u = 1"
    by (simp_all add: u_def arch_tick_init_def tick_init_def write_reg_def Let_def T(2))
  define v where "v = arch_tick_start (svc_entry 0 0 msp pc (u\<lparr>primask := 0\<rparr>))"
  have v: "tasks v = tasks t" "current_task v = 0" "kernel_started v = 1" "primask v = 0" "mmio v SYST_CSR = 7"
    by (simp_all add: v_def arch_tick_start_def svc_entry_def write_reg_def Let_def u)
  have mem: "mem32 v (?sp + 4 * word_of_nat j) = rev (frame_words (ld_task_exit_trap (cfg s)) (t_entry (tasks t 0)) (t_argument (tasks t 0))) ! j"
    if "j < 17" for j
    using r assms(5) [OF that] that
    by (simp add: v_def arch_tick_start_def svc_entry_def write_reg_def Let_def u ready_to_start_def frame_ok_def)
  have fr: "rev (frame_words x e a) = [0xFFFFFFFD, 0, 0, 0, 0, 0, 0, 0, 0, a, 0, 0, 0, 0, x OR 1, e AND NOT 1, 0x01000000]" for x e a
    by (simp add: frame_words_def numeral_nat)
  have m: "mem32 v ?sp = 0xFFFFFFFD" "mem32 v (?sp + 36) = d_argument (k_tasks k 0)"
    "mem32 v (?sp + 60) = d_entry (k_tasks k 0) AND NOT 1" "mem32 v (?sp + 64) = 0x01000000"
    using mem [of 0] mem [of 9] mem [of 15] mem [of 16] unfolding fr f by simp_all
  have zero: "mem32 v (?sp + 4 + 4 * word_of_nat j) = 0" if "j < 8" for j
  proof -
    have "mem32 v (?sp + 4 + 4 * word_of_nat j) = rev (frame_words (ld_task_exit_trap (cfg s)) (t_entry (tasks t 0)) (t_argument (tasks t 0))) ! Suc j"
      using mem [of "Suc j"] that by (simp add: algebra_simps)
    also have "\<dots> = replicate 8 0 ! j" using that by (simp add: frame_words_def nth_append)
    finally show ?thesis using that by simp
  qed
  let ?r = "regs\<lparr>x_lr := 0xFFFFFFFD, x_r4_r11 := replicate 8 0, x_psp := ?sp + 36\<rparr>"
  have "load_words (?sp + 4) 8 (mem32 v) = replicate 8 0"
    unfolding load_words_eight by (rule nth_equalityI) (simp_all add: zero)
  then have "restore_context c ?sp (mem32 v) regs = ?r" for c
    by (simp add: restore_context_def m(1) fp_frame_def Let_def)
  then have go: "start_first_task regs (svc_entry 0 0 msp pc (u\<lparr>primask := 0\<rparr>)) = (?r, task_current_control v, v)"
    by (simp add: start_first_task_def task_current_sp_def v(1,2) fp_frame_def Let_def flip: v_def)
  have "arch_start_first_task msp pc regs u = Inl (?r, task_current_control v, v)"
    using go by (simp add: arch_start_first_task_def SVC_Handler_def)
  moreover have "task_current_control v = (if d_flags (k_tasks k 0) AND 1 \<noteq> 0 then 3 else 2)"
    by (simp add: task_current_control_def v(1,2) f)
  ultimately show ?thesis
    using start m(2-4) v(3-5)
    by - (rule exI [of _ u], rule exI [of _ ?r], rule exI [of _ "task_current_control v"], rule exI [of _ v],
        simp add: add.commute)
qed

theorem boot_enters_first_task_witness:
  "\<exists>t u r control v. JRT_KernelInit 0x40 two_tasks (reset_state default_config) = Inr (JRT_STATUS_OK, t)
     \<and> JRT_KernelStart t = Inr u \<and> arch_start_first_task 0x2000F000 0x1300 some_regs u = Inl (r, control, v)
     \<and> mem32 v (x_psp r) = 7 \<and> mem32 v (x_psp r + 24) = 0x8000 \<and> control = 2"
proof -
  have c: "cfg (reset_state default_config) = default_config" by (simp add: reset_state_def)
  note d = config_checks_default linked_default
  obtain t where t: "JRT_KernelInit 0x40 two_tasks (reset_state default_config) = Inr (JRT_STATUS_OK, t)"
    by (rule two_tasks_init)
  obtain T: "tasks t 0 = running (app_task (k_tasks two_tasks 0) (tasks (reset_state default_config) 0))"
    by (rule init_task_cases [OF _ _ t, unfolded c, OF d], rule that)
  have sp: "t_sp (tasks t 0) = 0x200040DC"
    by (simp add: T running_def app_task_def prepared_def two_tasks_def task_a_def)
  have "0x200040DC + 4 * word_of_nat j \<notin> {0x2000F000, 0x2000F000 + 24 :: u32}" if "j < 17" for j :: nat
  proof -
    have "unat (4 * word_of_nat j :: u32) = 4 * j" using that by (simp add: unat_mult_small unat_of_nat32)
    then have "unat (0x200040DC + 4 * word_of_nat j :: u32) = 0x200040DC + 4 * j" using that by (simp add: unat_add_small)
    then show ?thesis using that by (auto simp: word_eq_unat)
  qed
  then show ?thesis
    using boot_enters_first_task [OF _ _ _ t, of "0x2000F000" "0x1300" some_regs, unfolded c, OF d stacks_apart_two] t
    by (fastforce simp: sp two_tasks_def task_a_def)
qed

section \<open>The fault handlers\<close>

text \<open>\<open>DEFINE_FAULT_HANDLER\<close>: the frame is on the stack \<open>EXC_RETURN\<close> names.\<close>

definition fault_handler :: "u32 \<Rightarrow> u32 \<Rightarrow> addr \<Rightarrow> addr \<Rightarrow> kstate \<Rightarrow> unit halting" where
  "fault_handler fault_type lr msp psp s = fault_capture (if lr AND 4 = 0 then msp else psp) lr fault_type s"

definition HardFault_Handler :: "u32 \<Rightarrow> addr \<Rightarrow> addr \<Rightarrow> kstate \<Rightarrow> unit halting" where
  "HardFault_Handler = fault_handler 1"

definition MemManage_Handler :: "u32 \<Rightarrow> addr \<Rightarrow> addr \<Rightarrow> kstate \<Rightarrow> unit halting" where
  "MemManage_Handler = fault_handler 2"

definition BusFault_Handler :: "u32 \<Rightarrow> addr \<Rightarrow> addr \<Rightarrow> kstate \<Rightarrow> unit halting" where
  "BusFault_Handler = fault_handler 3"

definition UsageFault_Handler :: "u32 \<Rightarrow> addr \<Rightarrow> addr \<Rightarrow> kstate \<Rightarrow> unit halting" where
  "UsageFault_Handler = fault_handler 4"

text \<open>
  Every fault halts the kernel with interrupts masked, the reason recorded and the faulting program
  counter taken from the stack that was in use; no task, object or timer changes.
\<close>

theorem fault_handler_halts:
  "\<exists>h. fault_handler fault_type lr msp psp s = Inl h \<and> primask h = 1 \<and> g_fault_active h = 1 \<and> g_fatal_reason h = 1
     \<and> fr_pc (g_fault_record h) = mem32 s ((if lr AND 4 = 0 then msp else psp) + 24)
     \<and> fr_exc_return (g_fault_record h) = lr \<and> fr_fault_type (g_fault_record h) = fault_type
     \<and> tasks h = tasks s \<and> mutexes h = mutexes s \<and> timers h = timers s"
  by (simp add: fault_handler_def fault_capture_def kernel_fatal_def kdefs Let_def)

section \<open>The kernel's own tasks\<close>

text \<open>One turn of \<open>idle_body\<close>, up to its wait for an interrupt.\<close>

definition idle_turn :: "kstate \<Rightarrow> kstate" where
  "idle_turn s = s\<lparr>g_idle_kicks := g_idle_kicks s + 1\<rparr>"

text \<open>
  \<open>timer_service_body\<close> up to the yield in which it blocks: the callbacks it has called, with their arguments, and the
  state. \<open>run\<close> stands for the application's callbacks; \<open>None\<close>: the service never blocks.
\<close>

partial_function (option) timer_service_body ::
  "(addr \<Rightarrow> addr \<Rightarrow> kstate \<Rightarrow> kstate) \<Rightarrow> (addr \<times> addr) list \<Rightarrow> kstate \<Rightarrow> ((addr \<times> addr) list \<times> kstate) option" where
  "timer_service_body run calls s =
    (case kernel_timer_service_claim s of
       None \<Rightarrow> None
     | Some (claimed, s) \<Rightarrow>
        (case claimed of
           Some (callback, argument) \<Rightarrow> timer_service_body run (calls @ [(callback, argument)]) (run callback argument s)
         | None \<Rightarrow> Some (calls, s)))"

text \<open>Callbacks that keep away from the timers and from the service task.\<close>

definition callbacks_local :: "(addr \<Rightarrow> addr \<Rightarrow> kstate \<Rightarrow> kstate) \<Rightarrow> bool" where
  "callbacks_local run \<longleftrightarrow> (\<forall>callback argument s. let t = run callback argument s in
     timers t = timers s \<and> timer_list t = timer_list s \<and> cfg t = cfg s \<and> current_task t = current_task s
   \<and> timer_service_task_index t = timer_service_task_index s
   \<and> tasks t (timer_service_task_index s) = tasks s (timer_service_task_index s))"

text \<open>What a timer still has to call.\<close>

definition due_calls :: "JRT_Timer_t \<Rightarrow> (addr \<times> addr) list" where
  "due_calls t = (if tm_callback t = NULL then [] else replicate (unat (tm_expirations t)) (tm_callback t, tm_argument t))"

definition served :: "JRT_Timer_t \<Rightarrow> JRT_Timer_t" where
  "served t = (if tm_callback t = NULL then t else t\<lparr>tm_expirations := 0\<rparr>)"

lemma due_none: "\<not> servable t \<longleftrightarrow> due_calls t = []"
  by (auto simp: servable_def due_calls_def unat_eq_0)

lemma due_step:
  assumes "servable t"
  shows "due_calls t = (tm_callback t, tm_argument t) # due_calls (t\<lparr>tm_expirations := tm_expirations t - 1\<rparr>)"
    and "served (t\<lparr>tm_expirations := tm_expirations t - 1\<rparr>) = served t"
proof -
  have "unat (tm_expirations t - 1) = unat (tm_expirations t) - 1" "0 < unat (tm_expirations t)"
    using assms by (simp_all add: servable_def unat_minus_one word_neq_0_unat)
  then show "due_calls t = (tm_callback t, tm_argument t) # due_calls (t\<lparr>tm_expirations := tm_expirations t - 1\<rparr>)"
    using assms by (cases "unat (tm_expirations t)") (simp_all add: due_calls_def servable_def)
qed (use assms in \<open>simp add: served_def servable_def\<close>)

lemma served_none: "\<not> servable t \<Longrightarrow> served t = t"
  by (auto simp: served_def servable_def)

lemma claim_cases:
  assumes "linked_timers s xs"
  shows "kernel_timer_service_claim s = (case find (\<lambda>a. servable (timers s a)) xs of
      None \<Rightarrow> Some (None, task_timer_service_block_locked (primask s) (cs_enter s))
    | Some a \<Rightarrow> (let t = timers s a in Some (Some (tm_callback t, tm_argument t), arch_critical_exit (primask s)
        (set_timer a (t\<lparr>tm_expirations := tm_expirations t - 1\<rparr>) (cs_enter s)))))"
proof -
  have "timer_claim_loop (timers s) (timer_list s) = Some (find (\<lambda>a. servable (timers s a)) xs)"
    using assms timer_claim_list by (simp add: linked_timers_list)
  then show ?thesis by (simp add: kernel_timer_service_claim_def arch_critical_enter_eq Let_def split: option.splits)
qed

lemma find_split: "find P xs = Some a \<Longrightarrow> \<exists>ys zs. xs = ys @ a # zs \<and> P a \<and> (\<forall>y \<in> set ys. \<not> P y)"
proof (induction xs)
  case (Cons x xs)
  show ?case
  proof (cases "P x")
    case True
    then show ?thesis using Cons.prems by (intro exI [of _ "[]"] exI [of _ xs]) simp
  next
    case False
    with Cons obtain ys zs where "xs = ys @ a # zs" "P a" "\<forall>y \<in> set ys. \<not> P y" by auto
    then show ?thesis using False by (intro exI [of _ "x # ys"] exI [of _ zs]) simp
  qed
qed simp

lemma due_calls_step:
  assumes "distinct xs" and "find (\<lambda>a. servable (ts a)) xs = Some a"
  defines "us \<equiv> ts(a := (ts a)\<lparr>tm_expirations := tm_expirations (ts a) - 1\<rparr>)"
  shows "concat (map (\<lambda>a. due_calls (ts a)) xs) = (tm_callback (ts a), tm_argument (ts a)) # concat (map (\<lambda>a. due_calls (us a)) xs)"
    and "served (us b) = served (ts b)"
proof -
  obtain ys zs where xs: "xs = ys @ a # zs" "\<forall>y \<in> set ys. \<not> servable (ts y)" "servable (ts a)"
    using find_split [OF assms(2)] by blast
  have none: "concat (map (\<lambda>a. due_calls (ts a)) ys) = []" "concat (map (\<lambda>a. due_calls (us a)) ys) = []"
    using xs assms(1) due_none by (auto simp: us_def)
  have rest: "map (\<lambda>a. due_calls (us a)) zs = map (\<lambda>a. due_calls (ts a)) zs" using xs(1) assms(1) by (auto simp: us_def)
  have "due_calls (ts a) = (tm_callback (ts a), tm_argument (ts a)) # due_calls (us a)"
    using due_step(1) [OF xs(3)] by (simp add: us_def)
  then show "concat (map (\<lambda>a. due_calls (ts a)) xs) = (tm_callback (ts a), tm_argument (ts a)) # concat (map (\<lambda>a. due_calls (us a)) xs)"
    unfolding xs(1) map_append list.map concat_append concat.simps none rest by simp
  show "served (us b) = served (ts b)" using due_step(2) [OF xs(3)] by (simp add: us_def)
qed

lemma service_body_run:
  assumes "callbacks_local run" and "linked_timers s xs" and "current_task s = timer_service_task_index s"
    and "length (concat (map (\<lambda>a. due_calls (timers s a)) xs)) = n"
  shows "\<exists>t. timer_service_body run calls s = Some (calls @ concat (map (\<lambda>a. due_calls (timers s a)) xs), t)
    \<and> timer_service_waiting t \<and> timers t = (\<lambda>a. if a \<in> set xs then served (timers s a) else timers s a)
    \<and> timer_list t = timer_list s"
  using assms(2-4)
proof (induction n arbitrary: s calls)
  case 0
  have un: "\<not> servable (timers s a)" if "a \<in> set xs" for a using 0(3) that due_none by auto
  then have f: "find (\<lambda>a. servable (timers s a)) xs = None" by (simp add: find_None_iff)
  let ?t = "task_timer_service_block_locked (primask s) (cs_enter s)"
  have "timer_service_body run calls s = Some (calls, ?t)"
    by (subst timer_service_body.simps) (simp add: claim_cases [OF 0(1)] f)
  moreover have "timer_service_waiting ?t" "timers ?t = timers s" "timer_list ?t = timer_list s"
    using timer_service_block_fields [of "cs_enter s" "primask s"] 0(2) by simp_all
  moreover have "timers s = (\<lambda>a. if a \<in> set xs then served (timers s a) else timers s a)" using un served_none by auto
  ultimately show ?case using 0(3) by simp
next
  case (Suc n)
  have d: "distinct xs" using Suc.prems(1) list_at_distinct by (auto simp: linked_timers_list)
  obtain a where a: "find (\<lambda>a. servable (timers s a)) xs = Some a"
  proof (cases "find (\<lambda>a. servable (timers s a)) xs")
    case None
    then have "\<forall>x \<in> set xs. due_calls (timers s x) = []" by (simp add: find_None_iff due_none)
    then have "concat (map (\<lambda>a. due_calls (timers s a)) xs) = []" by simp
    with Suc.prems(3) show ?thesis by (simp only: list.size nat.distinct)
  qed (rule that)
  let ?t = "timers s a"
  let ?u = "arch_critical_exit (primask s) (set_timer a (?t\<lparr>tm_expirations := tm_expirations ?t - 1\<rparr>) (cs_enter s))"
  let ?v = "run (tm_callback ?t) (tm_argument ?t) ?u"
  have v: "timers ?v = (timers s)(a := ?t\<lparr>tm_expirations := tm_expirations ?t - 1\<rparr>)" "timer_list ?v = timer_list s"
    "current_task ?v = timer_service_task_index ?v"
    using assms(1) Suc.prems(2) by (simp_all add: callbacks_local_def Let_def set_timer_def arch_critical_exit_eq cs_enter_def)
  note step = due_calls_step [OF d a, folded v(1)]
  have l: "linked_timers ?v xs" using Suc.prems(1) by (subst linked_timers_cong [of _ s]) (simp_all add: v)
  have body: "timer_service_body run calls s = timer_service_body run (calls @ [(tm_callback ?t, tm_argument ?t)]) ?v"
    by (subst timer_service_body.simps) (simp add: claim_cases [OF Suc.prems(1)] a Let_def)
  have "length (concat (map (\<lambda>a. due_calls (timers ?v a)) xs)) = n" using Suc.prems(3) step(1) by simp
  from Suc.IH [OF l v(3) this, of "calls @ [(tm_callback ?t, tm_argument ?t)]"]
  obtain t where t: "timer_service_body run (calls @ [(tm_callback ?t, tm_argument ?t)]) ?v =
      Some ((calls @ [(tm_callback ?t, tm_argument ?t)]) @ concat (map (\<lambda>a. due_calls (timers ?v a)) xs), t)"
    "timer_service_waiting t" "timers t = (\<lambda>a. if a \<in> set xs then served (timers ?v a) else timers ?v a)"
    "timer_list t = timer_list ?v" by blast
  have "a \<in> set xs" using a by (auto simp: find_Some_iff)
  then have "timers t = (\<lambda>a. if a \<in> set xs then served (timers s a) else timers s a)"
    unfolding t(3) step(2) by (auto simp: v(1))
  then show ?case using t body step(1) v(2) by (intro exI [of _ t]) simp
qed


text \<open>Two expired timers: the second has expired twice.\<close>

definition expired_state :: kstate where
  "expired_state = timer_state\<lparr>current_task := 1, timer_list := 0x100,
     timers := (\<lambda>_. zero_timer)(0x100 := zero_timer\<lparr>tm_callback := 0x9000, tm_argument := 1, tm_expirations := 1, tm_next := 0x200\<rparr>,
       0x200 := zero_timer\<lparr>tm_callback := 0x9100, tm_argument := 2, tm_expirations := 2\<rparr>)\<rparr>"


section \<open>Task definitions\<close>

text \<open>
  The macros of \<open>kernel.h\<close>. A stack is named by the address of its structure: the guard comes first, the words
  after it. The period field exists only with the benchmark; it is 0 otherwise.
\<close>

definition JRT_TASK_STACK_BUFFER :: "addr \<Rightarrow> addr" where
  "JRT_TASK_STACK_BUFFER name = name + 4 * JRT_TASK_GUARD_WORDS"

definition JRT_TASK_STACK_GUARD :: "addr \<Rightarrow> addr" where
  "JRT_TASK_STACK_GUARD name = name"

definition JRT_TASK_BENCHMARK_PERIOD_INITIALIZER :: "jrt_config \<Rightarrow> u32 \<Rightarrow> u32" where
  "JRT_TASK_BENCHMARK_PERIOD_INITIALIZER c period_ticks = (if JRT_ENABLE_TASK_BENCHMARK c \<noteq> 0 then period_ticks else 0)"

definition JRT_TASK_DEFINITION_WITH_PRIVATE_DATA_AND_PERIOD ::
  "jrt_config \<Rightarrow> addr \<Rightarrow> addr \<Rightarrow> addr \<times> u32 \<Rightarrow> u32 \<Rightarrow> string \<Rightarrow> u32 \<Rightarrow> addr \<times> u32 \<Rightarrow> u32 \<Rightarrow> JRT_TaskDefinition_t" where
  "JRT_TASK_DEFINITION_WITH_PRIVATE_DATA_AND_PERIOD c entry argument stack priority name flags private_object period_ticks =
    \<lparr>d_entry = entry, d_argument = argument, d_stack_buffer = JRT_TASK_STACK_BUFFER (fst stack), d_stack_words = snd stack,
     d_stack_guard = JRT_TASK_STACK_GUARD (fst stack), d_priority = priority, d_name = name, d_flags = flags,
     d_private_data_base = fst private_object, d_private_data_size = snd private_object,
     d_benchmark_period_ticks = JRT_TASK_BENCHMARK_PERIOD_INITIALIZER c period_ticks\<rparr>"

definition JRT_TASK_DEFINITION_WITH_PRIVATE_DATA ::
  "jrt_config \<Rightarrow> addr \<Rightarrow> addr \<Rightarrow> addr \<times> u32 \<Rightarrow> u32 \<Rightarrow> string \<Rightarrow> u32 \<Rightarrow> addr \<times> u32 \<Rightarrow> JRT_TaskDefinition_t" where
  "JRT_TASK_DEFINITION_WITH_PRIVATE_DATA c entry argument stack priority name flags private_object =
    \<lparr>d_entry = entry, d_argument = argument, d_stack_buffer = JRT_TASK_STACK_BUFFER (fst stack), d_stack_words = snd stack,
     d_stack_guard = JRT_TASK_STACK_GUARD (fst stack), d_priority = priority, d_name = name, d_flags = flags,
     d_private_data_base = fst private_object, d_private_data_size = snd private_object,
     d_benchmark_period_ticks = JRT_TASK_BENCHMARK_PERIOD_INITIALIZER c 0\<rparr>"

definition JRT_TASK_DEFINITION_WITH_PERIOD ::
  "jrt_config \<Rightarrow> addr \<Rightarrow> addr \<Rightarrow> addr \<times> u32 \<Rightarrow> u32 \<Rightarrow> string \<Rightarrow> u32 \<Rightarrow> u32 \<Rightarrow> JRT_TaskDefinition_t" where
  "JRT_TASK_DEFINITION_WITH_PERIOD c entry argument stack priority name flags period_ticks =
    \<lparr>d_entry = entry, d_argument = argument, d_stack_buffer = JRT_TASK_STACK_BUFFER (fst stack), d_stack_words = snd stack,
     d_stack_guard = JRT_TASK_STACK_GUARD (fst stack), d_priority = priority, d_name = name, d_flags = flags,
     d_private_data_base = 0, d_private_data_size = 0,
     d_benchmark_period_ticks = JRT_TASK_BENCHMARK_PERIOD_INITIALIZER c period_ticks\<rparr>"

definition JRT_TASK_DEFINITION ::
  "jrt_config \<Rightarrow> addr \<Rightarrow> addr \<Rightarrow> addr \<times> u32 \<Rightarrow> u32 \<Rightarrow> string \<Rightarrow> u32 \<Rightarrow> JRT_TaskDefinition_t" where
  "JRT_TASK_DEFINITION c entry argument stack priority name flags =
    \<lparr>d_entry = entry, d_argument = argument, d_stack_buffer = JRT_TASK_STACK_BUFFER (fst stack), d_stack_words = snd stack,
     d_stack_guard = JRT_TASK_STACK_GUARD (fst stack), d_priority = priority, d_name = name, d_flags = flags,
     d_private_data_base = 0, d_private_data_size = 0,
     d_benchmark_period_ticks = JRT_TASK_BENCHMARK_PERIOD_INITIALIZER c 0\<rparr>"

section \<open>The example\<close>

record simple_data =
  sr_state :: u32
  sr_runs :: u32
  sr_pass :: u32
  sr_fail :: u32
  sr_done :: u32
  g_simple_worker_runs :: u32
  g_simple_observer_runs :: u32

text \<open>Where the linker places the example: its tasks, their stacks, the array and the configuration.\<close>

record simple_link =
  sl_worker_task :: addr
  sl_observer_task :: addr
  sl_worker_stack :: addr
  sl_observer_stack :: addr
  sl_tasks :: addr
  sl_config :: addr

definition simple_tasks :: "simple_link \<Rightarrow> jrt_config \<Rightarrow> u32 \<Rightarrow> JRT_TaskDefinition_t" where
  "simple_tasks l c i =
    (if i = 0 then JRT_TASK_DEFINITION c (sl_worker_task l) 0 (sl_worker_stack l, JRT_DEFAULT_TASK_STACK_WORDS c) 1
        ''simple-worker'' JRT_TASK_FLAG_UNPRIVILEGED
     else JRT_TASK_DEFINITION c (sl_observer_task l) 0 (sl_observer_stack l, JRT_DEFAULT_TASK_STACK_WORDS c) 1
        ''simple-observer'' JRT_TASK_FLAG_UNPRIVILEGED)"

text \<open>One turn of each task's loop, up to the call that gives up the processor; the worker's first turn sets its state.\<close>

definition simple_worker_turn :: "kstate \<times> simple_data \<Rightarrow> kstate \<times> simple_data" where
  "simple_worker_turn p =
    (let d = (snd p)\<lparr>g_simple_worker_runs := g_simple_worker_runs (snd p) + 1\<rparr> in (JRT_TaskDelay 10 (fst p), d))"

definition simple_worker_task :: "kstate \<times> simple_data \<Rightarrow> kstate \<times> simple_data" where
  "simple_worker_task p = simple_worker_turn (fst p, (snd p)\<lparr>sr_state := 1\<rparr>)"

definition simple_observer_turn :: "addr \<Rightarrow> addr \<Rightarrow> u32 \<Rightarrow> kstate \<times> simple_data \<Rightarrow> kstate \<times> simple_data" where
  "simple_observer_turn frame pc lr p =
    (let d = (snd p)\<lparr>g_simple_observer_runs := g_simple_observer_runs (snd p) + 1\<rparr>
     in (JRT_TaskYield 0 frame pc lr (fst p), d))"

text \<open>
  The start: it returns after a rejected configuration, and otherwise ends at the start of the first task
  or, when the kernel cannot go on, in an endless loop.
\<close>

datatype start_outcome = Returned kstate | Started kstate | Looping kstate

definition simple_example_start :: "simple_link \<Rightarrow> kstate \<Rightarrow> start_outcome \<times> simple_data" where
  "simple_example_start l s =
    (let config = \<lparr>k_tasks_ptr = sl_tasks l, k_tasks = simple_tasks l (cfg s), k_task_count = 2\<rparr>;
         d = \<lparr>sr_state = 0, sr_runs = 0, sr_pass = 0, sr_fail = 0, sr_done = 0,
              g_simple_worker_runs = 0, g_simple_observer_runs = 0\<rparr>
     in case JRT_KernelInit (sl_config l) config s of
          Inl t \<Rightarrow> (Looping t, d)
        | Inr (status, t) \<Rightarrow>
            if status \<noteq> JRT_STATUS_OK then (Returned t, d\<lparr>sr_fail := 1\<rparr>)
            else (case JRT_KernelStart t of Inl u \<Rightarrow> (Looping u, d) | Inr u \<Rightarrow> (Started u, d)))"

text \<open>What the linker promises: addresses in use, stacks aligned, inside the address space and apart from each other.\<close>

definition example_linked :: "simple_link \<Rightarrow> jrt_config \<Rightarrow> bool" where
  "example_linked l c \<longleftrightarrow> sl_worker_task l \<noteq> NULL \<and> sl_observer_task l \<noteq> NULL \<and> sl_tasks l \<noteq> NULL \<and> sl_config l \<noteq> NULL
     \<and> (\<forall>a \<in> {sl_worker_stack l, sl_observer_stack l}. a \<noteq> NULL \<and> placed a (JRT_DEFAULT_TASK_STACK_WORDS c))
     \<and> byte_range (sl_worker_stack l) (internal_end (sl_worker_stack l) (JRT_DEFAULT_TASK_STACK_WORDS c))
       \<inter> byte_range (sl_observer_stack l) (internal_end (sl_observer_stack l) (JRT_DEFAULT_TASK_STACK_WORDS c)) = {}"

lemma placed_fits:
  assumes "placed a (JRT_DEFAULT_TASK_STACK_WORDS c)" and "a \<noteq> NULL" and "config_checks c"
  shows "stack_fits c (JRT_TASK_DEFINITION c entry 0 (a, JRT_DEFAULT_TASK_STACK_WORDS c) 1 nm fl)"
proof -
  have "unat (internal_stack a) = unat a + 32" by (rule placed_nat [OF assms(1)])
  then have "unat (a + 32) = unat a + 32" by (simp add: internal_stack_def)
  moreover have "stack_words_check c (JRT_DEFAULT_TASK_STACK_WORDS c)" using assms(3) by (simp add: config_checks_def)
  moreover have "even (unat (JRT_DEFAULT_TASK_STACK_WORDS c)) \<and> JRT_MINIMUM_TASK_STACK_WORDS c \<le> JRT_DEFAULT_TASK_STACK_WORDS c"
    using calculation(2) and_low_mask [of 1 "JRT_DEFAULT_TASK_STACK_WORDS c"]
    by (simp add: stack_words_check_def not_less)
  ultimately show ?thesis
    using assms(1,2)
    by (simp add: stack_fits_def JRT_TASK_DEFINITION_def JRT_TASK_STACK_BUFFER_def JRT_TASK_STACK_GUARD_def placed_def)
qed

lemma example_accepted:
  assumes "config_checks c" and "example_linked l c" and "2 \<le> JRT_MAX_APPLICATION_TASKS c"
  shows "accepts c \<lparr>k_tasks_ptr = sl_tasks l, k_tasks = simple_tasks l c, k_task_count = 2\<rparr>"
proof -
  have p: "stack_fits c (simple_tasks l c i)" "no_private (simple_tasks l c i)" "private_bytes (simple_tasks l c i) = {}"
    "d_entry (simple_tasks l c i) \<noteq> NULL" "d_priority (simple_tasks l c i) = 1" for i
    using placed_fits [OF _ _ assms(1)] assms(2)
    by (simp_all add: simple_tasks_def example_linked_def)
      (simp_all add: JRT_TASK_DEFINITION_def no_private_def private_bytes_def private_end_def byte_range_def)
  have s: "stack_bytes (simple_tasks l c i) =
      (let a = (if i = 0 then sl_worker_stack l else sl_observer_stack l) in byte_range a (internal_end a (JRT_DEFAULT_TASK_STACK_WORDS c)))" for i
    by (simp add: stack_bytes_def simple_tasks_def JRT_TASK_DEFINITION_def stack_start_def stack_end_def internal_end_def
        internal_stack_def JRT_TASK_STACK_BUFFER_def JRT_TASK_STACK_GUARD_def mult.commute Let_def)
  have "1 \<le> JRT_MAX_TASK_PRIORITY c" using assms(1) by (simp add: config_checks_def word_le_unat word_neq_0_unat)
  moreover have "stack_bytes (simple_tasks l c 0) \<inter> stack_bytes (simple_tasks l c 1) = {}"
    using assms(2) by (simp add: s example_linked_def Let_def)
  ultimately show ?thesis
    using assms(2,3) p unfolding accepts_def by (auto simp: example_linked_def below_two_cases)
qed

text \<open>The shipped example starts. With a configuration that compiles, room for two tasks and stacks placed by the
  linker, \<open>JRT_KernelInit\<close> never rejects it, so it never returns nor sets its failure flag; without an MPU it
  starts the kernel, with four tasks, the worker running and the observer ready at the same priority, and no run counted.\<close>

theorem simple_example_starts:
  assumes "config_checks (cfg s)" and "linked_storage (cfg s)" and "example_linked l (cfg s)"
    and "2 \<le> JRT_MAX_APPLICATION_TASKS (cfg s)"
  shows "(\<forall>t. fst (simple_example_start l s) \<noteq> Returned t) \<and> sr_fail (snd (simple_example_start l s)) = 0
    \<and> (JRT_ARCH_HAS_MPU (cfg s) = 0 \<longrightarrow> (\<exists>t. fst (simple_example_start l s) = Started t \<and> kernel_started t = 1 \<and> task_count t = 4
        \<and> t_state (tasks t 0) = JRT_TASK_STATE_RUNNING \<and> t_entry (tasks t 0) = sl_worker_task l
        \<and> t_state (tasks t 1) = JRT_TASK_STATE_READY \<and> t_entry (tasks t 1) = sl_observer_task l
        \<and> t_priority (tasks t 0) = 1 \<and> t_priority (tasks t 1) = 1))"
proof -
  let ?k = "\<lparr>k_tasks_ptr = sl_tasks l, k_tasks = simple_tasks l (cfg s), k_task_count = 2\<rparr>"
  have ok: "JRT_KernelInit (sl_config l) ?k s = init_commit ?k s"
    using kernel_init_cases [OF assms(1,2), of "sl_config l" ?k] example_accepted [OF assms(1,3,4)] assms(3)
    by (simp add: example_linked_def)
  have "kernel_initialized t = 1" "st = JRT_STATUS_OK" if "JRT_KernelInit (sl_config l) ?k s = Inr (st, t)" for st t
    using init_commit_status [of ?k s] that unfolding ok by auto
  then have start: "fst (simple_example_start l s) = (case init_commit ?k s of Inl t \<Rightarrow> Looping t
      | Inr (st, t) \<Rightarrow> Started ((arch_tick_init t)\<lparr>kernel_started := 1\<rparr>))"
    and fail: "sr_fail (snd (simple_example_start l s)) = 0"
    unfolding simple_example_start_def Let_def ok
    by (auto simp: JRT_KernelStart_def Let_def split: sum.splits)
  have "\<exists>t. fst (simple_example_start l s) = Started t \<and> kernel_started t = 1 \<and> task_count t = 4
        \<and> t_state (tasks t 0) = JRT_TASK_STATE_RUNNING \<and> t_entry (tasks t 0) = sl_worker_task l
        \<and> t_state (tasks t 1) = JRT_TASK_STATE_READY \<and> t_entry (tasks t 1) = sl_observer_task l
        \<and> t_priority (tasks t 0) = 1 \<and> t_priority (tasks t 1) = 1" if mpu: "JRT_ARCH_HAS_MPU (cfg s) = 0"
  proof -
    obtain t where t: "init_commit ?k s = Inr (JRT_STATUS_OK, t)" using init_commit_without_mpu [OF mpu, of ?k] by auto
    then have "JRT_KernelInit (sl_config l) ?k s = Inr (JRT_STATUS_OK, t)" by (simp add: ok)
    then obtain T: "task_count t = 4" "tasks t 0 = running (app_task (simple_tasks l (cfg s) 0) (tasks s 0))"
      "tasks t 1 = app_task (simple_tasks l (cfg s) 1) (tasks s 1)"
      by (rule init_task_cases [OF assms(1,2)]) simp
    have f: "task_count (arch_tick_init t) = task_count t" "tasks (arch_tick_init t) = tasks t"
      by (simp_all add: arch_tick_init_def tick_init_def write_reg_def Let_def)
    show ?thesis unfolding start t by (simp add: f T running_def app_task_def simple_tasks_def JRT_TASK_DEFINITION_def prepared_def)
  qed
  then show ?thesis unfolding fail by (simp add: start split: sum.splits)
qed

definition default_link :: simple_link where
  "default_link = \<lparr>sl_worker_task = 0x2001, sl_observer_task = 0x2101, sl_worker_stack = 0x20004000, sl_observer_stack = 0x20004400,
     sl_tasks = 0x2440, sl_config = 0x2460\<rparr>"

theorem simple_example_witness:
  "\<exists>t. fst (simple_example_start default_link (reset_state default_config)) = Started t \<and> kernel_started t = 1
     \<and> t_entry (tasks t 0) = 0x2001"
proof -
  have c: "cfg (reset_state default_config) = default_config" by (simp add: reset_state_def)
  have "example_linked default_link default_config"
    by (auto simp: example_linked_def default_link_def default_config_def placed_def byte_range_def internal_end_def internal_stack_def)
      (simp add: word_le_unat word_less_unat)
  with simple_example_starts [of "reset_state default_config" default_link, unfolded c] config_checks_default linked_default
  show ?thesis by (auto simp: no_mpu_default default_link_def)
qed

end
