(* ===== verification/JRT_Startup.thy ===== *)
theory JRT_Startup
  imports JRT_Init
begin

text \<open>
  Start-up of the S32K312 (\<open>platform/s32k312/system.c\<close>): \<open>init_data_bss\<close> fills the initialised and the zeroed
  sections from the tables the linker built. The loops are shown to do exactly that for any tables whose
  sections do not overlap.
\<close>

section \<open>Initialised and zeroed data\<close>

text \<open>
  Memory is a map from addresses to bytes, words are little-endian. \<open>len\<close>, the entries and the bytes are read
  where the code reads them, from memory that the loops have already written.
\<close>

definition load32 :: "(addr \<Rightarrow> u8) \<Rightarrow> addr \<Rightarrow> u32" where
  "load32 m a = ucast (m a) OR push_bit 8 (ucast (m (a + 1))) OR push_bit 16 (ucast (m (a + 2)))
     OR push_bit 24 (ucast (m (a + 3)))"

definition copy_section :: "addr \<Rightarrow> (addr \<Rightarrow> u8) \<Rightarrow> addr \<Rightarrow> u8" where
  "copy_section entry m =
    (let rom = load32 m (entry + 4);
         ram = load32 m entry;
         bytes = load32 m (entry + 8) - load32 m (entry + 4)
     in for_upto bytes (\<lambda>j m. m(ram + j := m (rom + j))) m)"

definition zero_section :: "addr \<Rightarrow> (addr \<Rightarrow> u8) \<Rightarrow> addr \<Rightarrow> u8" where
  "zero_section entry m =
    (let ram = load32 m entry;
         bytes = load32 m (entry + 4) - load32 m entry
     in for_upto bytes (\<lambda>j m. m(ram + j := 0)) m)"

definition init_data_bss :: "addr \<Rightarrow> addr \<Rightarrow> (addr \<Rightarrow> u8) \<Rightarrow> addr \<Rightarrow> u8" where
  "init_data_bss init_table zero_table m =
    (let len = load32 m init_table;
         m = for_upto len (\<lambda>i m. copy_section (init_table + 4 + 12 * i) m) m;
         len = load32 m zero_table
     in for_upto len (\<lambda>i m. zero_section (zero_table + 4 + 8 * i) m) m)"

text \<open>A range of \<open>n\<close> bytes, as the loops run through it.\<close>

definition bytes_of :: "addr \<Rightarrow> u32 \<Rightarrow> addr set" where
  "bytes_of base n = {a. a - base < n}"

lemma copy_loop:
  assumes "\<And>j. j < n \<Longrightarrow> src + j \<notin> bytes_of dst n"
  shows "for_upto n (\<lambda>j m. m(dst + j := m (src + j))) m = (\<lambda>a. if a \<in> bytes_of dst n then m (src + (a - dst)) else m a)"
proof -
  have "\<forall>a. for_upto n (\<lambda>j m. m(dst + j := m (src + j))) m a = (if unat (a - dst) < unat n then m (src + (a - dst)) else m a)"
  proof (rule for_upto_induct [where P = "\<lambda>k s. \<forall>a. s a = (if unat (a - dst) < k then m (src + (a - dst)) else m a)"])
    fix k s
    let ?j = "word_of_nat k :: u32"
    assume k: "k < unat n" "?j < n" "unat ?j = k" and s: "\<forall>a. s a = (if unat (a - dst) < k then m (src + (a - dst)) else m a)"
    have "\<not> unat (src + ?j - dst) < unat n" using assms [OF k(2)] by (simp add: bytes_of_def word_less_unat)
    then have v: "s (src + ?j) = m (src + ?j)" using s k(1) by simp
    show "\<forall>a. (s(dst + ?j := s (src + ?j))) a = (if unat (a - dst) < Suc k then m (src + (a - dst)) else m a)"
    proof
      fix a
      have "a = dst + ?j \<longleftrightarrow> unat (a - dst) = k" using k(3) by (auto simp: word_eq_unat [symmetric])
      then show "(s(dst + ?j := s (src + ?j))) a = (if unat (a - dst) < Suc k then m (src + (a - dst)) else m a)"
        using s v by (auto simp: less_Suc_eq)
    qed
  qed simp
  then show ?thesis by (auto simp: bytes_of_def word_less_unat)
qed

lemma zero_loop: "for_upto n (\<lambda>j m. m(dst + j := 0)) m = (\<lambda>a. if a \<in> bytes_of dst n then 0 else m a)"
proof -
  have "\<forall>a. for_upto n (\<lambda>j m. m(dst + j := 0)) m a = (if unat (a - dst) < unat n then 0 else m a)"
  proof (rule for_upto_induct [where P = "\<lambda>k s. \<forall>a. s a = (if unat (a - dst) < k then 0 else m a)"])
    fix k s
    let ?j = "word_of_nat k :: u32"
    assume k: "unat ?j = k" and s: "\<forall>a. s a = (if unat (a - dst) < k then 0 else m a)"
    show "\<forall>a. (s(dst + ?j := 0)) a = (if unat (a - dst) < Suc k then 0 else m a)"
    proof
      fix a
      have "a = dst + ?j \<longleftrightarrow> unat (a - dst) = k" using k by (auto simp: word_eq_unat [symmetric])
      then show "(s(dst + ?j := 0)) a = (if unat (a - dst) < Suc k then 0 else m a)" using s by (auto simp: less_Suc_eq)
    qed
  qed simp
  then show ?thesis by (auto simp: bytes_of_def word_less_unat)
qed

text \<open>The ranges the tables name, and what the linker promises of them.\<close>

definition copy_bytes_count :: "(addr \<Rightarrow> u8) \<Rightarrow> addr \<Rightarrow> u32" where
  "copy_bytes_count m entry = load32 m (entry + 8) - load32 m (entry + 4)"

definition copy_target :: "(addr \<Rightarrow> u8) \<Rightarrow> addr \<Rightarrow> u32 \<Rightarrow> addr set" where
  "copy_target m t i = bytes_of (load32 m (t + 4 + 12 * i)) (copy_bytes_count m (t + 4 + 12 * i))"

definition copy_source :: "(addr \<Rightarrow> u8) \<Rightarrow> addr \<Rightarrow> u32 \<Rightarrow> addr set" where
  "copy_source m t i = bytes_of (load32 m (t + 4 + 12 * i + 4)) (copy_bytes_count m (t + 4 + 12 * i))"

definition zero_target :: "(addr \<Rightarrow> u8) \<Rightarrow> addr \<Rightarrow> u32 \<Rightarrow> addr set" where
  "zero_target m t i = bytes_of (load32 m (t + 4 + 8 * i)) (load32 m (t + 4 + 8 * i + 4) - load32 m (t + 4 + 8 * i))"

definition table_bytes :: "addr \<Rightarrow> u32 \<Rightarrow> u32 \<Rightarrow> addr set" where
  "table_bytes t width len = bytes_of t 4 \<union> (\<Union>i \<in> {i. i < len}. bytes_of (t + 4 + width * i) width)"

definition sections_apart :: "addr \<Rightarrow> addr \<Rightarrow> (addr \<Rightarrow> u8) \<Rightarrow> bool" where
  "sections_apart t z m \<longleftrightarrow> (\<forall>i < load32 m t. \<forall>a \<in> copy_target m t i.
       a \<notin> table_bytes t 12 (load32 m t) \<and> a \<notin> table_bytes z 8 (load32 m z)
     \<and> (\<forall>k < load32 m t. a \<notin> copy_source m t k \<and> (k \<noteq> i \<longrightarrow> a \<notin> copy_target m t k)))
   \<and> (\<forall>i < load32 m z. \<forall>a \<in> zero_target m z i. a \<notin> table_bytes z 8 (load32 m z))"

lemma load32_cong: "(\<And>a. a \<in> bytes_of b 4 \<Longrightarrow> m' a = m a) \<Longrightarrow> load32 m' b = load32 m b"
  by (simp add: load32_def bytes_of_def)

lemma load32_part:
  assumes "\<And>a. a \<in> bytes_of entry w \<Longrightarrow> m' a = m a" and "unat d + 4 \<le> unat w"
  shows "load32 m' (entry + d) = load32 m (entry + d)"
proof (rule load32_cong [OF assms(1)])
  fix a assume "a \<in> bytes_of (entry + d) 4"
  then have "unat (a - (entry + d)) < 4" by (simp add: bytes_of_def word_less_unat)
  then have "unat (a - (entry + d) + d) < unat w" using assms(2) unat_lt32 [of w] unat_add_small [of "a - (entry + d)" d] by simp
  moreover have "a - (entry + d) + d = a - entry" by (simp add: algebra_simps)
  ultimately show "a \<in> bytes_of entry w" by (simp add: bytes_of_def word_less_unat)
qed

lemma copy_section_eq:
  assumes "\<And>a. a \<in> bytes_of entry 12 \<Longrightarrow> m' a = m a"
    and "\<And>a. a \<in> bytes_of (load32 m (entry + 4)) (copy_bytes_count m entry) \<Longrightarrow>
      a \<notin> bytes_of (load32 m entry) (copy_bytes_count m entry) \<and> m' a = m a"
  shows "copy_section entry m' = (\<lambda>a. if a \<in> bytes_of (load32 m entry) (copy_bytes_count m entry)
      then m (load32 m (entry + 4) + (a - load32 m entry)) else m' a)"
proof -
  note part = load32_part [where m = m and m' = m' and w = 12, OF assms(1)]
  have l: "load32 m' entry = load32 m entry" "load32 m' (entry + 4) = load32 m (entry + 4)"
    "load32 m' (entry + 8) = load32 m (entry + 8)"
    using part [of entry 0] part [of entry 4] part [of entry 8] by simp_all
  let ?n = "copy_bytes_count m entry" let ?src = "load32 m (entry + 4)" let ?dst = "load32 m entry"
  have src: "?src + j \<in> bytes_of ?src ?n" if "j < ?n" for j using that by (simp add: bytes_of_def)
  have "copy_section entry m' = for_upto ?n (\<lambda>j m. m(?dst + j := m (?src + j))) m'"
    by (simp add: copy_section_def l copy_bytes_count_def Let_def)
  also have "\<dots> = (\<lambda>a. if a \<in> bytes_of ?dst ?n then m' (?src + (a - ?dst)) else m' a)"
    by (rule copy_loop) (use src assms(2) in blast)
  also have "\<dots> = (\<lambda>a. if a \<in> bytes_of ?dst ?n then m (?src + (a - ?dst)) else m' a)"
    using src assms(2) by (auto simp: bytes_of_def)
  finally show ?thesis .
qed

lemma zero_section_eq:
  assumes "\<And>a. a \<in> bytes_of entry 8 \<Longrightarrow> m' a = m a"
  shows "zero_section entry m' = (\<lambda>a. if a \<in> bytes_of (load32 m entry) (load32 m (entry + 4) - load32 m entry) then 0 else m' a)"
proof -
  note part = load32_part [where m = m and m' = m' and w = 8, OF assms]
  have l: "load32 m' entry = load32 m entry" "load32 m' (entry + 4) = load32 m (entry + 4)"
    using part [of entry 0] part [of entry 4] by simp_all
  show ?thesis by (simp add: zero_section_def l zero_loop Let_def)
qed

lemma tables_kept:
  assumes "sections_apart t z m" and "j < load32 m t" and "a \<in> copy_target m t j"
  shows "i < load32 m t \<Longrightarrow> a \<notin> bytes_of (t + 4 + 12 * i) 12" and "a \<notin> table_bytes z 8 (load32 m z)"
proof -
  have "a \<notin> table_bytes t 12 (load32 m t)" "a \<notin> table_bytes z 8 (load32 m z)"
    using assms unfolding sections_apart_def by blast+
  then show "i < load32 m t \<Longrightarrow> a \<notin> bytes_of (t + 4 + 12 * i) 12" "a \<notin> table_bytes z 8 (load32 m z)"
    by (auto simp: table_bytes_def)
qed

text \<open>The first loop: what it has copied after \<open>k\<close> entries.\<close>

definition copied :: "(addr \<Rightarrow> u8) \<Rightarrow> addr \<Rightarrow> nat \<Rightarrow> (addr \<Rightarrow> u8) \<Rightarrow> bool" where
  "copied m t n r \<longleftrightarrow> (\<forall>i. unat i < n \<longrightarrow> (\<forall>a \<in> copy_target m t i.
       r a = m (load32 m (t + 4 + 12 * i + 4) + (a - load32 m (t + 4 + 12 * i)))))
   \<and> (\<forall>a. (\<forall>i. unat i < n \<longrightarrow> a \<notin> copy_target m t i) \<longrightarrow> r a = m a)"

lemma copy_loop_copied:
  assumes "sections_apart t z m"
  shows "copied m t (unat (load32 m t)) (for_upto (load32 m t) (\<lambda>i. copy_section (t + 4 + 12 * i)) m)"
proof (rule for_upto_induct [where P = "copied m t"])
  fix k r
  let ?i = "word_of_nat k :: u32" and ?n = "load32 m t"
  let ?e = "t + 4 + 12 * ?i"
  assume k: "?i < ?n" "unat ?i = k" and r: "copied m t k r"
  have below: "j < ?n" if "unat j \<le> k" for j using that k by (simp add: word_less_unat)
  have same: "r a = m a" if "\<And>j. j < ?n \<Longrightarrow> a \<notin> copy_target m t j" for a
    using r that below by (auto simp: copied_def)
  have c: "copy_section ?e r = (\<lambda>a. if a \<in> copy_target m t ?i
      then m (load32 m (?e + 4) + (a - load32 m ?e)) else r a)"
    unfolding copy_target_def
  proof (rule copy_section_eq)
    show "r a = m a" if "a \<in> bytes_of ?e 12" for a
      using that tables_kept(1) [OF assms _ _ k(1)] by (intro same) blast
    show "a \<notin> bytes_of (load32 m ?e) (copy_bytes_count m ?e) \<and> r a = m a"
      if "a \<in> bytes_of (load32 m (?e + 4)) (copy_bytes_count m ?e)" for a
    proof -
      have "a \<in> copy_source m t ?i" using that by (simp add: copy_source_def)
      then have no: "a \<notin> copy_target m t j" if "j < ?n" for j using that k(1) assms unfolding sections_apart_def by blast
      from no [OF k(1)] same [OF no] show ?thesis by (simp add: copy_target_def)
    qed
  qed
  have apart: "a \<notin> copy_target m t ?i" if "a \<in> copy_target m t j" "unat j < k" for a j
  proof -
    have "j < ?n" "?i \<noteq> j" using below [of j] that k by auto
    then show ?thesis using that k assms unfolding sections_apart_def by blast
  qed
  have last: "unat j < Suc k \<Longrightarrow> unat j < k \<or> j = ?i" for j using k(2) by (auto simp: word_eq_unat less_Suc_eq)
  have old: "r a = m (load32 m (t + 4 + 12 * j + 4) + (a - load32 m (t + 4 + 12 * j)))"
    if "a \<in> copy_target m t j" "unat j < k" for a j using r that by (simp add: copied_def)
  have rest: "r a = m a" if "\<And>j. unat j < k \<Longrightarrow> a \<notin> copy_target m t j" for a using r that by (simp add: copied_def)
  show "copied m t (Suc k) (copy_section ?e r)"
    unfolding copied_def
  proof (intro conjI allI impI ballI)
    show "copy_section ?e r a = m (load32 m (t + 4 + 12 * j + 4) + (a - load32 m (t + 4 + 12 * j)))"
      if "unat j < Suc k" "a \<in> copy_target m t j" for j a
      using last [OF that(1)] apart [OF that(2)] old [OF that(2)] that(2) unfolding c by metis
    show "copy_section ?e r a = m a" if out: "\<forall>j. unat j < Suc k \<longrightarrow> a \<notin> copy_target m t j" for a
    proof -
      have "a \<notin> copy_target m t ?i" "\<And>j. unat j < k \<Longrightarrow> a \<notin> copy_target m t j" using out k(2) by auto
      then show ?thesis unfolding c using rest by simp
    qed
  qed
qed (simp add: copied_def)

text \<open>The second loop.\<close>

lemma zero_loop_zeroed:
  assumes "\<And>a. a \<in> table_bytes z 8 n \<Longrightarrow> r a = m a"
    and "\<And>i a. i < n \<Longrightarrow> a \<in> zero_target m z i \<Longrightarrow> a \<notin> table_bytes z 8 n"
  shows "for_upto n (\<lambda>i. zero_section (z + 4 + 8 * i)) r = (\<lambda>a. if \<exists>i < n. a \<in> zero_target m z i then 0 else r a)"
proof -
  let ?Z = "\<lambda>k u. u = (\<lambda>a. if \<exists>i. unat i < k \<and> a \<in> zero_target m z i then 0 else r a)"
  have "?Z (unat n) (for_upto n (\<lambda>i. zero_section (z + 4 + 8 * i)) r)"
  proof (rule for_upto_induct [where P = ?Z])
    fix k u
    let ?i = "word_of_nat k :: u32" let ?e = "z + 4 + 8 * ?i"
    assume k: "k < unat n" "?i < n" "unat ?i = k" and u: "?Z k u"
    have last: "unat j < Suc k \<longleftrightarrow> unat j < k \<or> j = ?i" for j using k(3) by (auto simp: word_eq_unat less_Suc_eq)
    have "u a = m a" if e: "a \<in> bytes_of ?e 8" for a
    proof -
      have t: "a \<in> table_bytes z 8 n" using e k(2) by (auto simp: table_bytes_def)
      have "a \<notin> zero_target m z i" if "unat i < k" for i
        using assms(2) [of i a] t that k(1) by (auto simp: word_less_unat)
      then show ?thesis using u assms(1) [OF t] by auto
    qed
    then have "zero_section ?e u = (\<lambda>a. if a \<in> zero_target m z ?i then 0 else u a)"
      unfolding zero_target_def by (rule zero_section_eq)
    then have "zero_section ?e u a = (if \<exists>i. unat i < Suc k \<and> a \<in> zero_target m z i then 0 else r a)" for a
      using u last by (cases "a \<in> zero_target m z ?i") auto
    then show "?Z (Suc k) (zero_section ?e u)" by (rule ext)
  qed simp
  then show ?thesis by (simp add: word_less_unat)
qed

text \<open>C37: the start-up code of the S32K312 fills memory exactly as the linker's tables ask. When no section it
  writes overlaps a table, the image in flash of any section or another copied section, every byte of a
  zeroed section is 0, every other byte of a copied section is the byte of its image, at its offset, and no
  other byte of memory changes, whatever the number, order and sizes of the sections.\<close>

theorem init_data_bss_exact:
  assumes "sections_apart t z m"
  shows "let r = init_data_bss t z m; zeroed = (\<lambda>a. \<exists>i < load32 m z. a \<in> zero_target m z i) in
    (\<forall>a. zeroed a \<longrightarrow> r a = 0)
  \<and> (\<forall>i < load32 m t. \<forall>a \<in> copy_target m t i. \<not> zeroed a \<longrightarrow>
       r a = m (load32 m (t + 4 + 12 * i + 4) + (a - load32 m (t + 4 + 12 * i))))
  \<and> (\<forall>a. \<not> zeroed a \<longrightarrow> (\<forall>i < load32 m t. a \<notin> copy_target m t i) \<longrightarrow> r a = m a)"
proof -
  let ?r = "for_upto (load32 m t) (\<lambda>i. copy_section (t + 4 + 12 * i)) m"
  define zeroed where "zeroed = (\<lambda>a. \<exists>i < load32 m z. a \<in> zero_target m z i)"
  have r: "copied m t (unat (load32 m t)) ?r" by (rule copy_loop_copied [OF assms])
  have c: "?r a = m (load32 m (t + 4 + 12 * i + 4) + (a - load32 m (t + 4 + 12 * i)))"
    if "i < load32 m t" "a \<in> copy_target m t i" for i a
    using r that by (simp add: copied_def word_less_unat)
  have keep: "?r a = m a" if "\<And>i. i < load32 m t \<Longrightarrow> a \<notin> copy_target m t i" for a
    using r that by (simp add: copied_def word_less_unat)
  have table: "?r a = m a" if "a \<in> table_bytes z 8 (load32 m z)" for a
    using tables_kept(2) [OF assms] that by (intro keep) blast
  have len: "load32 ?r z = load32 m z"
    by (rule load32_cong) (simp add: table table_bytes_def)
  have i: "init_data_bss t z m = (\<lambda>a. if zeroed a then 0 else ?r a)"
    unfolding init_data_bss_def Let_def len zeroed_def
    by (rule zero_loop_zeroed [OF table]) (use assms in \<open>auto simp: sections_apart_def\<close>)
  show ?thesis
    unfolding zeroed_def [symmetric] i Let_def
  proof (intro conjI allI impI ballI)
    show "(if zeroed a then 0 else ?r a) = m (load32 m (t + 4 + 12 * i + 4) + (a - load32 m (t + 4 + 12 * i)))"
      if "i < load32 m t" "a \<in> copy_target m t i" "\<not> zeroed a" for i a using c that by simp
    show "(if zeroed a then 0 else ?r a) = m a" if "\<not> zeroed a" "\<forall>i < load32 m t. a \<notin> copy_target m t i" for a
      using keep that by simp
  qed simp
qed

text \<open>Two bytes at \<open>0x80\<close> are the image of a section at \<open>0x40\<close>, the word at \<open>0x50\<close> is zeroed.\<close>

definition flash_image :: "addr \<Rightarrow> u8" where
  "flash_image = (\<lambda>_. 0xFF)(0 := 1, 1 := 0, 2 := 0, 3 := 0, 4 := 0x40, 5 := 0, 6 := 0, 7 := 0,
     8 := 0x80, 9 := 0, 10 := 0, 11 := 0, 12 := 0x82, 13 := 0, 14 := 0, 15 := 0,
     0x20 := 1, 0x21 := 0, 0x22 := 0, 0x23 := 0, 0x24 := 0x50, 0x25 := 0, 0x26 := 0, 0x27 := 0,
     0x28 := 0x54, 0x29 := 0, 0x2A := 0, 0x2B := 0, 0x80 := 11, 0x81 := 22)"

theorem init_data_bss_witness:
  "sections_apart 0 0x20 flash_image \<and> init_data_bss 0 0x20 flash_image 0x41 = 22 \<and> init_data_bss 0 0x20 flash_image 0x50 = 0
   \<and> init_data_bss 0 0x20 flash_image 0x43 = 0xFF"
proof -
  have l: "load32 flash_image 0 = 1" "load32 flash_image 0x20 = 1" "load32 flash_image 4 = 0x40" "load32 flash_image 8 = 0x80"
    "load32 flash_image 12 = 0x82" "load32 flash_image 0x24 = 0x50" "load32 flash_image 0x28 = 0x54"
    by (simp_all add: load32_def flash_image_def)
  have t: "copy_target flash_image 0 0 = bytes_of 0x40 2" "copy_source flash_image 0 0 = bytes_of 0x80 2"
    "zero_target flash_image 0x20 0 = bytes_of 0x50 4"
    by (simp_all add: copy_target_def copy_source_def zero_target_def copy_bytes_count_def l)
  have b: "bytes_of 0x40 2 = {0x40, 0x41}" "bytes_of 0x50 4 = {0x50, 0x51, 0x52, 0x53}"
    by (auto simp: bytes_of_def below_two_cases below_four diff_eq_eq)
  have "sections_apart 0 0x20 flash_image"
    by (simp add: sections_apart_def l t b) (simp add: bytes_of_def table_bytes_def)
  moreover have "flash_image 0x81 = 22" "flash_image 0x43 = 0xFF" by (simp_all add: flash_image_def)
  ultimately show ?thesis using init_data_bss_exact [of 0 "0x20" flash_image] by (simp add: l t b Let_def)
qed

end
