(* ===== verification/JRT_Boards.thy ===== *)
theory JRT_Boards
  imports Main "HOL-Library.Word" JRT_Prelude
begin

text \<open>
  Bring-up of the boards (\<open>platform/*/board/board.c\<close>). The peripherals are not under \<open>src/\<close>: a device is any
  function from the accesses made so far to the value the next read of a register returns, and the state of
  the code is the sequence of its accesses. Every access of the code is one access here, in its order.
\<close>

section \<open>Registers of a device\<close>

datatype access = Read addr | Write addr u32

type_synonym device = "access list \<Rightarrow> addr \<Rightarrow> u32"

definition read_dev :: "device \<Rightarrow> addr \<Rightarrow> access list \<Rightarrow> u32 \<times> access list" where
  "read_dev dev r h = (dev h r, h @ [Read r])"

definition write_dev :: "addr \<Rightarrow> u32 \<Rightarrow> access list \<Rightarrow> access list" where
  "write_dev r v h = h @ [Write r v]"

text \<open>\<open>r |= bits\<close>\<close>

definition or_dev :: "device \<Rightarrow> addr \<Rightarrow> u32 \<Rightarrow> access list \<Rightarrow> access list" where
  "or_dev dev r bits h = (let (v, h) = read_dev dev r h in write_dev r (v OR bits) h)"

section \<open>S32K312\<close>

abbreviation (input) SIUL2_MSCR_BASE :: addr where "SIUL2_MSCR_BASE \<equiv> 0x40290240"
abbreviation (input) SIUL2_MSCR_GPIO_BIDIR :: u32 where "SIUL2_MSCR_GPIO_BIDIR \<equiv> push_bit 19 1 OR push_bit 21 1"
abbreviation (input) MC_ME_CTL_KEY :: addr where "MC_ME_CTL_KEY \<equiv> 0x402DC000"
abbreviation (input) MC_ME_PRTN1_PCONF :: addr where "MC_ME_PRTN1_PCONF \<equiv> 0x402DC300"
abbreviation (input) MC_ME_PRTN1_PUPD :: addr where "MC_ME_PRTN1_PUPD \<equiv> 0x402DC304"
abbreviation (input) MC_ME_PRTN1_COFB2_STAT :: addr where "MC_ME_PRTN1_COFB2_STAT \<equiv> 0x402DC318"
abbreviation (input) MC_ME_PRTN1_COFB2_CLKEN :: addr where "MC_ME_PRTN1_COFB2_CLKEN \<equiv> 0x402DC338"
abbreviation (input) MC_ME_PRTN1_COFB2_REQ73 :: u32 where "MC_ME_PRTN1_COFB2_REQ73 \<equiv> push_bit 9 1"

definition SIUL2_MSCR :: "u32 \<Rightarrow> addr" where
  "SIUL2_MSCR index = SIUL2_MSCR_BASE + index * 4"

text \<open>The condition of the polling loop; the clock status is read only when the update is over.\<close>

definition update_pending :: "device \<Rightarrow> access list \<Rightarrow> bool \<times> access list" where
  "update_pending dev h =
    (let (pupd, h) = read_dev dev MC_ME_PRTN1_PUPD h
     in if pupd AND push_bit 0 1 \<noteq> 0 then (True, h)
        else let (stat, h) = read_dev dev MC_ME_PRTN1_COFB2_STAT h
             in (stat AND MC_ME_PRTN1_COFB2_REQ73 = 0, h))"

partial_function (option) poll_update :: "device \<Rightarrow> access list \<Rightarrow> access list option" where
  "poll_update dev h =
    (let (pending, h) = update_pending dev h in if pending then poll_update dev h else Some h)"

text \<open>\<open>None\<close>: the polling loop does not end.\<close>

definition enable_siul2_clock :: "device \<Rightarrow> access list \<Rightarrow> access list option" where
  "enable_siul2_clock dev h =
    (let (stat, h) = read_dev dev MC_ME_PRTN1_COFB2_STAT h
     in if stat AND MC_ME_PRTN1_COFB2_REQ73 \<noteq> 0 then Some h
        else
          let h = or_dev dev MC_ME_PRTN1_PCONF (push_bit 0 1) h;
              h = or_dev dev MC_ME_PRTN1_COFB2_CLKEN MC_ME_PRTN1_COFB2_REQ73 h;
              h = or_dev dev MC_ME_PRTN1_PUPD (push_bit 0 1) h;
              h = write_dev MC_ME_CTL_KEY 0x5AF0 h;
              h = write_dev MC_ME_CTL_KEY 0xA50F h
          in poll_update dev h)"

definition board_init :: "device \<Rightarrow> access list \<Rightarrow> access list option" where
  "board_init dev h =
    (case enable_siul2_clock dev h of
       None \<Rightarrow> None
     | Some h \<Rightarrow> Some (write_dev (SIUL2_MSCR 50) SIUL2_MSCR_GPIO_BIDIR h))"

section \<open>QEMU MPS2 AN385\<close>

abbreviation (input) UART0_DATA :: addr where "UART0_DATA \<equiv> 0x40004000"
abbreviation (input) UART0_STATE :: addr where "UART0_STATE \<equiv> 0x40004004"
abbreviation (input) UART0_CTRL :: addr where "UART0_CTRL \<equiv> 0x40004008"

definition qemu_board_init :: "access list \<Rightarrow> access list" where
  "qemu_board_init h = write_dev UART0_CTRL (push_bit 0 1) h"

definition tx_full :: "device \<Rightarrow> access list \<Rightarrow> bool \<times> access list" where
  "tx_full dev h = (let (v, h) = read_dev dev UART0_STATE h in (v AND push_bit 0 1 \<noteq> 0, h))"

partial_function (option) wait_tx :: "device \<Rightarrow> access list \<Rightarrow> access list option" where
  "wait_tx dev h = (let (full, h) = tx_full dev h in if full then wait_tx dev h else Some h)"

text \<open>The first component is the static \<open>led_state\<close>.\<close>

definition qemu_board_led_toggle :: "device \<Rightarrow> u32 \<times> access list \<Rightarrow> (u32 \<times> access list) option" where
  "qemu_board_led_toggle dev b =
    (case wait_tx dev (snd b) of
       None \<Rightarrow> None
     | Some h \<Rightarrow>
         let led_state = fst b XOR 1
         in Some (led_state, write_dev UART0_DATA (if led_state \<noteq> 0 then 0x58 else 0x2E) h))"

section \<open>Polling\<close>

text \<open>A polling loop that ends: \<open>test\<close> reads the device and says whether to go on.\<close>

locale polling =
  fixes test :: "access list \<Rightarrow> bool \<times> access list" and poll :: "access list \<Rightarrow> access list option"
  assumes poll_unfold: "poll h = (if fst (test h) then poll (snd (test h)) else Some (snd (test h)))"
    and poll_ends: "poll h = Some h' \<Longrightarrow> \<exists>n. \<not> fst (test (((snd \<circ> test) ^^ n) h))"
begin

definition after :: "nat \<Rightarrow> access list \<Rightarrow> access list" where
  "after n h = ((snd \<circ> test) ^^ n) h"

lemma after_0 [simp]: "after 0 h = h"
  by (simp add: after_def)

lemma after_Suc: "after (Suc n) h = after n (snd (test h))"
  unfolding after_def by (simp add: funpow_swap1)

lemma poll_after: "\<not> fst (test (after n h)) \<Longrightarrow> (\<And>k. k < n \<Longrightarrow> fst (test (after k h))) \<Longrightarrow> poll h = Some (after (Suc n) h)"
proof (induction n arbitrary: h)
  case 0
  then show ?case by (subst poll_unfold) (simp add: after_Suc)
next
  case (Suc n)
  have "fst (test (after k (snd (test h))))" if "k < n" for k using Suc.prems(2) [of "Suc k"] that by (simp add: after_Suc)
  then have "poll (snd (test h)) = Some (after (Suc n) (snd (test h)))"
    using Suc.IH [of "snd (test h)"] Suc.prems(1) by (simp add: after_Suc)
  then show ?case using Suc.prems(2) [of 0] by (subst poll_unfold) (simp add: after_Suc)
qed

lemma poll_exact:
  "poll h = (if \<exists>n. \<not> fst (test (after n h)) then Some (after (Suc (LEAST n. \<not> fst (test (after n h)))) h) else None)"
proof (cases "\<exists>n. \<not> fst (test (after n h))")
  case True
  then show ?thesis using poll_after LeastI_ex [OF True] not_less_Least by (metis (mono_tags, lifting))
next
  case False
  then show ?thesis using poll_ends [of h] by (cases "poll h") (auto simp: after_def)
qed

end

lemma poll_update_ends: "poll_update dev h = Some h' \<Longrightarrow> \<exists>n. \<not> fst (update_pending dev (((snd \<circ> update_pending dev) ^^ n) h))"
proof (rule poll_update.raw_induct [where P = "\<lambda>dev h h'. \<exists>n. \<not> fst (update_pending dev (((snd \<circ> update_pending dev) ^^ n) h))"])
  fix poll dev h h'
  assume hyp: "\<And>dev h h'. poll dev h = Some h' \<Longrightarrow> \<exists>n. \<not> fst (update_pending dev (((snd \<circ> update_pending dev) ^^ n) h))"
    and run: "(let (go, h) = update_pending dev h in if go then poll dev h else Some h) = Some h'"
  show "\<exists>n. \<not> fst (update_pending dev (((snd \<circ> update_pending dev) ^^ n) h))"
  proof (cases "fst (update_pending dev h)")
    case True
    then have "poll dev (snd (update_pending dev h)) = Some h'" using run by (simp add: case_prod_beta Let_def)
    from hyp [OF this] obtain n where n: "\<not> fst (update_pending dev (((snd \<circ> update_pending dev) ^^ n) (snd (update_pending dev h))))" by blast
    have "((snd \<circ> update_pending dev) ^^ Suc n) h = ((snd \<circ> update_pending dev) ^^ n) (snd (update_pending dev h))" by (simp add: funpow_swap1)
    with n show ?thesis by metis
  qed (intro exI [of _ 0], simp)
qed

lemma wait_tx_ends: "wait_tx dev h = Some h' \<Longrightarrow> \<exists>n. \<not> fst (tx_full dev (((snd \<circ> tx_full dev) ^^ n) h))"
proof (rule wait_tx.raw_induct [where P = "\<lambda>dev h h'. \<exists>n. \<not> fst (tx_full dev (((snd \<circ> tx_full dev) ^^ n) h))"])
  fix poll dev h h'
  assume hyp: "\<And>dev h h'. poll dev h = Some h' \<Longrightarrow> \<exists>n. \<not> fst (tx_full dev (((snd \<circ> tx_full dev) ^^ n) h))"
    and run: "(let (go, h) = tx_full dev h in if go then poll dev h else Some h) = Some h'"
  show "\<exists>n. \<not> fst (tx_full dev (((snd \<circ> tx_full dev) ^^ n) h))"
  proof (cases "fst (tx_full dev h)")
    case True
    then have "poll dev (snd (tx_full dev h)) = Some h'" using run by (simp add: case_prod_beta Let_def)
    from hyp [OF this] obtain n where n: "\<not> fst (tx_full dev (((snd \<circ> tx_full dev) ^^ n) (snd (tx_full dev h))))" by blast
    have "((snd \<circ> tx_full dev) ^^ Suc n) h = ((snd \<circ> tx_full dev) ^^ n) (snd (tx_full dev h))" by (simp add: funpow_swap1)
    with n show ?thesis by metis
  qed (intro exI [of _ 0], simp)
qed

interpretation siul2: polling "update_pending dev" "poll_update dev" for dev
  by unfold_locales (subst poll_update.simps, simp add: case_prod_beta Let_def, rule poll_update_ends)

interpretation uart: polling "tx_full dev" "wait_tx dev" for dev
  by unfold_locales (subst wait_tx.simps, simp add: case_prod_beta Let_def, rule wait_tx_ends)

section \<open>What the bring-up does\<close>

text \<open>The accesses that request the clock.\<close>

definition clock_request :: "device \<Rightarrow> access list \<Rightarrow> access list" where
  "clock_request dev h =
    (let h = h @ [Read MC_ME_PRTN1_COFB2_STAT];
         h = h @ [Read MC_ME_PRTN1_PCONF, Write MC_ME_PRTN1_PCONF (dev h MC_ME_PRTN1_PCONF OR 1)];
         h = h @ [Read MC_ME_PRTN1_COFB2_CLKEN, Write MC_ME_PRTN1_COFB2_CLKEN (dev h MC_ME_PRTN1_COFB2_CLKEN OR 0x200)];
         h = h @ [Read MC_ME_PRTN1_PUPD, Write MC_ME_PRTN1_PUPD (dev h MC_ME_PRTN1_PUPD OR 1)]
     in h @ [Write MC_ME_CTL_KEY 0x5AF0, Write MC_ME_CTL_KEY 0xA50F])"

text \<open>
  The accesses before the \<open>n\<close>th poll of the request: a poll reads the update bit, and the clock status only
  when the update is over. The clock runs when the status then has its bit.
\<close>

fun polls :: "device \<Rightarrow> access list \<Rightarrow> nat \<Rightarrow> access list" where
  "polls dev h 0 = h"
| "polls dev h (Suc n) = polls dev h n @ Read MC_ME_PRTN1_PUPD #
     (if dev (polls dev h n) MC_ME_PRTN1_PUPD AND 1 \<noteq> 0 then [] else [Read MC_ME_PRTN1_COFB2_STAT])"

definition clock_runs :: "device \<Rightarrow> access list \<Rightarrow> nat \<Rightarrow> bool" where
  "clock_runs dev h n \<longleftrightarrow> (let g = polls dev h n in dev g MC_ME_PRTN1_PUPD AND 1 = 0
     \<and> dev (g @ [Read MC_ME_PRTN1_PUPD]) MC_ME_PRTN1_COFB2_STAT AND 0x200 \<noteq> 0)"

lemma update_polled: "siul2.after dev n h = polls dev h n" "\<not> fst (update_pending dev (polls dev h n)) \<longleftrightarrow> clock_runs dev h n"
proof -
  have "snd (update_pending dev g) = g @ Read MC_ME_PRTN1_PUPD #
      (if dev g MC_ME_PRTN1_PUPD AND 1 \<noteq> 0 then [] else [Read MC_ME_PRTN1_COFB2_STAT])" for g
    by (simp add: update_pending_def read_dev_def Let_def)
  then show "siul2.after dev n h = polls dev h n"
    unfolding siul2.after_def by (induction n) simp_all
  show "\<not> fst (update_pending dev (polls dev h n)) \<longleftrightarrow> clock_runs dev h n"
    by (simp add: update_pending_def read_dev_def clock_runs_def Let_def)
qed

text \<open>C38: bringing up the S32K312 board makes exactly the accesses the clock controller asks for, on any device. A
  clock that already runs is left alone. Otherwise the partition, the clock and the update are requested, in that order
  and keeping the other bits, the two keys follow, and the code polls until it sees the update over and the clock of
  the port running; only then is the pin configured. The call returns if and only if the device ever reports that.\<close>

theorem board_init_exact:
  "board_init dev h =
    (if dev h MC_ME_PRTN1_COFB2_STAT AND 0x200 \<noteq> 0
     then Some (h @ [Read MC_ME_PRTN1_COFB2_STAT, Write 0x40290308 0x280000])
     else let g = clock_request dev h in if \<exists>n. clock_runs dev g n
     then Some (polls dev g (Suc (LEAST n. clock_runs dev g n)) @ [Write 0x40290308 0x280000])
     else None)"
proof (cases "dev h MC_ME_PRTN1_COFB2_STAT AND 0x200 \<noteq> 0")
  case True
  then show ?thesis by (simp add: board_init_def enable_siul2_clock_def read_dev_def write_dev_def SIUL2_MSCR_def Let_def)
next
  case False
  let ?g = "clock_request dev h"
  have "enable_siul2_clock dev h = poll_update dev ?g"
    using False by (simp add: enable_siul2_clock_def clock_request_def read_dev_def write_dev_def or_dev_def Let_def)
  also have "\<dots> = (if \<exists>n. clock_runs dev ?g n then Some (polls dev ?g (Suc (LEAST n. clock_runs dev ?g n))) else None)"
    using siul2.poll_exact [of dev ?g] unfolding update_polled .
  finally show ?thesis
    using False by (simp only: board_init_def write_dev_def SIUL2_MSCR_def Let_def) simp
qed

text \<open>The QEMU board toggles its state and writes its character once the transmitter is ready.\<close>

theorem qemu_led_toggle_exact:
  "qemu_board_led_toggle dev (led, h) =
    (if \<exists>n. dev (h @ replicate n (Read UART0_STATE)) UART0_STATE AND 1 = 0
     then Some (led XOR 1, h @ replicate (Suc (LEAST n. dev (h @ replicate n (Read UART0_STATE)) UART0_STATE AND 1 = 0)) (Read UART0_STATE)
       @ [Write UART0_DATA (if led = 1 then 0x2E else 0x58)])
     else None)"
proof -
  have a: "uart.after dev n h = h @ replicate n (Read UART0_STATE)" for n
    by (induction n arbitrary: h) (simp_all add: uart.after_Suc tx_full_def read_dev_def)
  have "(led XOR 1) XOR 1 = led" by (simp only: xor.assoc xor_self_eq xor.right_neutral)
  then have x: "led XOR 1 = 0 \<longleftrightarrow> led = 1" by (auto simp only: xor.left_neutral xor_self_eq)
  have full: "fst (tx_full dev h) \<longleftrightarrow> dev h UART0_STATE AND 1 \<noteq> 0" for h by (simp add: tx_full_def read_dev_def)
  have "wait_tx dev h = (if \<exists>n. dev (h @ replicate n (Read UART0_STATE)) UART0_STATE AND 1 = 0
     then Some (h @ replicate (Suc (LEAST n. dev (h @ replicate n (Read UART0_STATE)) UART0_STATE AND 1 = 0)) (Read UART0_STATE))
     else None)"
    using uart.poll_exact [of dev h] unfolding a full not_not .
  moreover have "qemu_board_led_toggle dev (led, h) = map_option (\<lambda>k. (led XOR 1, k @ [Write UART0_DATA (if led = 1 then 0x2E else 0x58)]))
      (wait_tx dev h)"
    using x by (cases "wait_tx dev h") (auto simp: qemu_board_led_toggle_def write_dev_def Let_def)
  ultimately show ?thesis by (simp only: option.map if_distrib [of "map_option f" for f] append_assoc)
qed

end
