(* ===== verification/Spec2Isabelle.thy ===== *)
theory Spec2Isabelle
  imports JRT_Scheduler JRT_Mutex JRT_Queue JRT_Mempool JRT_Tick JRT_Svc JRT_Reachable JRT_Delivery JRT_Application JRT_Startup JRT_Boards
begin

text \<open>
  justRT is a preemptive real-time kernel for ARM Cortex-M: statically configured tasks with
  priorities, semaphores, recursive mutexes with priority inheritance, queues, event groups,
  notifications, software timers and memory pools, and an MPU port that keeps unprivileged tasks apart.
  This development models its C code (\<open>kernel/\<close>, \<open>arch/cortex_m/\<close>, \<open>platform/\<close>, \<open>examples/\<close>) function by
  function and proves it correct, up to the properties of every state the running kernel can reach.

  \<^bold>\<open>How the program is put together.\<close> The application describes its tasks in a constant array and calls
  \<open>JRT_KernelInit\<close>, which validates the description, fills the stacks and prepares the task table, and
  then \<open>JRT_KernelStart\<close>, which starts the tick and enters the first task through \<open>svc 0\<close>. From then on
  tasks call the services directly (privileged tasks) or through the stubs of \<open>svc_stubs_cm7.c\<close>
  (unprivileged ones); a service changes kernel data inside a critical section (PRIMASK) and pends
  PendSV; SysTick counts the ticks, expires timers and waits and checks the kernel's data; PendSV saves
  the context, lets \<open>pendsv_switch\<close> select a task and restores its context. All state is static; one
  record, \<open>kstate\<close>, holds it.

  \<^bold>\<open>Conventions.\<close> A \<open>uint32_t\<close> is a \<open>32 word\<close> and wraps as in C; an address is a word and null is 0; a C
  \<open>int\<close> that is a flag is an \<open>int\<close>. A definition has the name of the C function it models; a loop
  \<open>for (i = 0; i < n; i++)\<close> is \<open>for_upto n\<close>, a loop over a linked list or a hardware register that may not end is
  a \<open>partial_function (option)\<close>, where \<open>None\<close> is the loop that does not end. A function that may reach
  \<open>kernel_fatal\<close> returns \<open>Inl s\<close> when the processor is in the halt loop in state \<open>s\<close>. A function that may block
  is modelled up to its yield, where its result is \<open>None\<close>, and a second definition (\<open>_resume\<close>, or a further pass
  of a queue operation) is the rest, which runs when the task runs again. Objects (mutexes, queues, timers, pools)
  are stores from addresses to records; task stacks and bitmaps are words of \<open>mem32\<close>, queue items bytes of
  \<open>mem8\<close>; registers of the core are the map \<open>mmio\<close>. Settings and linker symbols are the record
  \<open>jrt_config\<close>, and \<open>config_checks\<close> is what the \<open>#error\<close> checks of \<open>kernel.h\<close> accept.

  \<^bold>\<open>The theories.\<close>

  \<^item> \<open>JRT_Prelude\<close>: words and counting loops. \<open>JRT_Types\<close>: the types of \<open>kernel.h\<close>, \<open>sync.h\<close>, \<open>timer.h\<close>, \<open>mempool.h\<close>
    and the settings of \<open>JRTConfig.h\<close>. \<open>JRT_State\<close>: the static variables, one record level per source file.
  \<^item> \<open>JRT_Port\<close> (\<open>port_cm7.c\<close>, \<open>fatal.c\<close>, \<open>fault.c\<close>): critical sections, initial frames, the tick, conversion of
    milliseconds, MPU regions. The private region of the running task opens exactly its bytes; the conversion is the
    exact ceiling, saturating.
  \<^item> \<open>JRT_Benchmark\<close> (\<open>benchmark.c\<close>): the shift-subtract division is exact.
  \<^item> \<open>JRT_Wait\<close> (\<open>task.c\<close>): the transitions of a waiting task, deadlines, and the choice of the waiter to wake.
  \<^item> \<open>JRT_Priority\<close> (\<open>task.c\<close>): inheritance and recalculation along chains of owners. \<open>exact_priorities\<close>: every priority is
    the highest of the task's own and its waiters'. The loops' bound, the number of tasks, is enough
    because each further turn raises, or lowers, one more task.
  \<^item> \<open>JRT_Lists\<close>: the locale \<open>intrusive_list\<close> of lists linked through the objects, with its cycle check, interpreted for
    mutexes and timers. \<open>JRT_Semaphore\<close>, \<open>JRT_Mutex\<close>, \<open>JRT_Queue\<close> (\<open>sync.c\<close>): the token contract, the mutex contract
    with exact priorities through lock, unlock and hand-over, and the bounded FIFO with reservations.
  \<^item> \<open>JRT_Events\<close>, \<open>JRT_Tasks\<close> (\<open>task.c\<close>): event groups, notifications, task services. \<open>JRT_Timer\<close> (\<open>timer.c\<close>): timers do
    not drift, and the service task never sleeps while it has work. \<open>JRT_Mempool\<close> (\<open>mempool.c\<close>): every history of
    allocations and frees behaves like a reference allocator.
  \<^item> \<open>JRT_Scheduler\<close> (\<open>task.c\<close>): \<open>pendsv_switch\<close>; the selection is the best task next in cyclic order and starves no equal.
  \<^item> \<open>JRT_Tick\<close> (\<open>task.c\<close>): \<open>tick_tasks\<close> with the periodic check, which always ends and is exact; a tick keeps the
    kernel well-formed (\<open>kernel_wf\<close>).
  \<^item> \<open>JRT_Init\<close> (\<open>task.c\<close>): \<open>JRT_KernelInit\<close> accepts exactly the descriptions of a declarative specification, and every
    task starts from an intact frame.
  \<^item> \<open>JRT_Svc\<close> (\<open>port_cm7.c\<close>, \<open>svc_cm7.s\<close>): the supervisor calls, SysTick, and PendSV with its register transfers.
  \<^item> \<open>JRT_Application\<close> (\<open>svc_stubs_cm7.c\<close>, \<open>svc_cm7.s\<close>, \<open>fault.c\<close>, \<open>task.c\<close>, \<open>kernel.h\<close>, \<open>simple.c\<close>): the stubs, the entry of
    the handlers, the start of the first task, the bodies of the idle and the timer-service task, the macros for
    task definitions and the example. \<open>JRT_Startup\<close> (\<open>s32k312/system.c\<close>): \<open>init_data_bss\<close>. \<open>JRT_Boards\<close>
    (\<open>platform/*/board/board.c\<close>): bring-up against an arbitrary device, a function of the accesses made so far.

  \<^bold>\<open>The kernel as a whole.\<close> \<open>JRT_Quiet\<close> says what each operation leaves alone. \<open>JRT_System\<close> defines \<open>kernel_step\<close>, one
  step per operation, interrupt, tick, supervisor call and context switch, in any order, with the context the code
  needs as a premise. It is made of \<open>environment_step\<close> (interrupts, ticks, switches and what needs no running
  application task), \<open>thread_step\<close> (the calls of a task) and \<open>queue_step\<close>. The theory defines the invariants
  \<open>kernel_ok\<close> and \<open>wakeups_ok\<close> and proves that every step keeps them; the locale \<open>invariant_system\<close> turns that into
  facts about runs. The callbacks that \<open>JRT_TimerDispatch\<close> and the service task run are application code, whose
  calls are steps of their own.

  \<open>JRT_Reachable\<close> draws the conclusions for every state reachable from a successful \<open>JRT_KernelInit\<close>: the next tick
  and the next switch succeed, the check never fails, no wake-up of a semaphore, mutex, event group, notification or
  of the timer service is lost, priorities never decrease along a chain of waits, a suspended task stays suspended
  until it is resumed. A run with a contended mutex shows that the premises can hold.

  \<open>JRT_Messages\<close> does the same for queues. The call a task is in, a local of \<open>JRT_QueueSend\<close> and \<open>JRT_QueueReceive\<close>,
  is ghost state beside the kernel (\<open>queue_run\<close>), and the kernel part of such a run is a run of \<open>kernel_step\<close>. In
  every reachable state the reservation counters of a queue are the numbers of the tasks that were woken in a call on
  it and have not collected yet, so that the premises under which \<open>JRT_Queue\<close> proves the bounded FIFO always hold, and
  a woken task finishes its call at once when it runs again. A run also records the successful sends and receives;
  \<open>JRT_Delivery\<close> concludes that the items sent to a queue are those received from it followed by those it holds, in
  order and byte for byte, in every reachable state.

  \<^bold>\<open>What the premises say.\<close> A step of a task needs Thread mode and a RUNNING task other than the idle task. Objects have
  non-null addresses, an object in use is not created again, a mutex is not locked \<open>2\<^sup>32\<close> times over, and a
  timeout has not passed before the lock is attempted (what happens otherwise is proved separately). A queue is
  created with a storage of its own that fits into the address space and is not created again while a call is in it;
  application code does not write to the storage of a queue, the item of a send does not lie in that queue's storage
  and the buffer of a receive in no queue's (\<open>spared\<close>, \<open>item_apart\<close>, \<open>buffer_apart\<close>). The initialisation needs what the linker script provides:
  storage of the kernel's own tasks aligned and inside the address space (\<open>linked_storage\<close>, \<open>linked_tasks\<close>) and
  application stacks apart from it (\<open>stacks_linked_apart\<close>).

  \<^bold>\<open>Not modelled.\<close> The exception entry and return of the processor beyond what the handlers read and write, and
  memory barriers, which have no effect on this sequential state; \<open>wfi\<close>, \<open>SystemInit\<close> (empty) and
  \<open>undefined_handler\<close> (an endless loop); the start-up assembly, vector tables and linker scripts, whose symbols are
  inputs; a user-defined \<open>JRT_FatalErrorHook\<close>, the tick hook (a parameter of \<open>SysTick_Handler\<close>) and the timer
  callbacks (a parameter of \<open>timer_service_body\<close>), which are application code; the test programs under \<open>tests/\<close>
  and the scripts under \<open>tools/\<close>. Steps are atomic between critical sections: a function that opens several is
  one step per call here, except where it blocks.
\<close>

end
